(* ===== verification/Prelude.thy ===== *)
theory Prelude
  imports Main "HOL-Library.Word"
begin

unbundle bit_operations_syntax

text \<open>
  Shared vocabulary of the development. The C integer types are words of
  HOL-Library.Word, so that every addition, subtraction and shift wraps as the C code's
  does. Byte buffers are lists of bytes; \<open>memcpy\<close>, \<open>memset\<close> and the big-endian
  reads and writes that the wire code spells out byte by byte are defined here once.
  The collections \<open>wire_simps\<close> and \<open>word_simps\<close> gather the rewrite rules the
  component theories share.
\<close>

section \<open>Machine types\<close>

type_synonym byte = "8 word"
type_synonym u8 = "8 word"
type_synonym u16 = "16 word"
type_synonym u32 = "32 word"
type_synonym u64 = "64 word"
type_synonym bytes = "byte list"

named_theorems wire_simps \<open>facts about buffers, memcpy and big-endian fields\<close>
named_theorems word_simps \<open>facts that turn word comparisons into arithmetic\<close>

abbreviation UINT64_MAX :: u64 where
  "UINT64_MAX \<equiv> - 1"

abbreviation UINT32_MAX :: u32 where
  "UINT32_MAX \<equiv> - 1"

section \<open>Buffers\<close>

text \<open>\<open>memcpy(dst + off, src, |src|)\<close> into a buffer of fixed size.\<close>

definition mem_write :: "'a list \<Rightarrow> nat \<Rightarrow> 'a list \<Rightarrow> 'a list" where
  "mem_write dst off src = take off dst @ src @ drop (off + length src) dst"

text \<open>\<open>memcpy(out, src + off, n)\<close>.\<close>

definition mem_read :: "'a list \<Rightarrow> nat \<Rightarrow> nat \<Rightarrow> 'a list" where
  "mem_read src off n = take n (drop off src)"

lemma length_mem_write [simp]:
  "off + length src \<le> length dst \<Longrightarrow> length (mem_write dst off src) = length dst"
  by (simp add: mem_write_def)

lemma length_mem_read [simp]:
  "off + n \<le> length src \<Longrightarrow> length (mem_read src off n) = n"
  by (simp add: mem_read_def)

lemma mem_read_write_same [wire_simps]:
  assumes "off + length src \<le> length dst" and "n = length src"
  shows "mem_read (mem_write dst off src) off n = src"
  using assms by (simp add: mem_read_def mem_write_def)

lemma nth_mem_write:
  assumes "off + length src \<le> length dst" and "i < length dst"
  shows "mem_write dst off src ! i =
    (if off \<le> i \<and> i < off + length src then src ! (i - off) else dst ! i)"
  using assms by (auto simp: mem_write_def nth_append min_def)

lemma mem_read_nth:
  "off + n \<le> length src \<Longrightarrow> i < n \<Longrightarrow> mem_read src off n ! i = src ! (off + i)"
  by (simp add: mem_read_def)

lemma mem_read_write_disjoint [wire_simps]:
  assumes "off + length src \<le> length dst" and "a + n \<le> off \<or> off + length src \<le> a"
    and "a + n \<le> length dst"
  shows "mem_read (mem_write dst off src) a n = mem_read dst a n"
  using assms by (intro nth_equalityI) (auto simp: mem_read_nth nth_mem_write)

lemma mem_write_read_same:
  "off + n \<le> length dst \<Longrightarrow> mem_write dst off (mem_read dst off n) = dst"
  by (auto intro!: nth_equalityI simp: nth_mem_write mem_read_nth)

lemma mem_write_write_same:
  assumes "off + length s \<le> length dst" and "length s = length t"
  shows "mem_write (mem_write dst off s) off t = mem_write dst off t"
  using assms by (auto intro!: nth_equalityI simp: nth_mem_write)

lemma mem_write_append [simp]:
  "off = length xs \<Longrightarrow> length src = length ys \<Longrightarrow>
    mem_write (xs @ ys @ zs) off src = xs @ src @ zs"
  by (simp add: mem_write_def)

lemma mem_write_0 [simp]:
  "mem_write dst 0 src = src @ drop (length src) dst"
  by (simp add: mem_write_def)

section \<open>Big-endian fields\<close>

text \<open>
  \<open>(uint8_t)(x >> 8), (uint8_t)x\<close> and its inverse \<open>((uint16_t)a << 8) | b\<close>; likewise
  for 32 and 64 bits.
\<close>

definition be16 :: "u16 \<Rightarrow> bytes" where
  "be16 x = [ucast (drop_bit 8 x), ucast x]"

definition de16 :: "byte \<Rightarrow> byte \<Rightarrow> u16" where
  "de16 a b = push_bit 8 (ucast a) OR ucast b"

definition be32 :: "u32 \<Rightarrow> bytes" where
  "be32 x = [ucast (drop_bit 24 x), ucast (drop_bit 16 x), ucast (drop_bit 8 x), ucast x]"

definition de32 :: "byte \<Rightarrow> byte \<Rightarrow> byte \<Rightarrow> byte \<Rightarrow> u32" where
  "de32 a b c d = push_bit 24 (ucast a) OR push_bit 16 (ucast b) OR push_bit 8 (ucast c) OR ucast d"

definition be64 :: "u64 \<Rightarrow> bytes" where
  "be64 x = [ucast (drop_bit 56 x), ucast (drop_bit 48 x), ucast (drop_bit 40 x), ucast (drop_bit 32 x),
     ucast (drop_bit 24 x), ucast (drop_bit 16 x), ucast (drop_bit 8 x), ucast x]"

definition de64 :: "byte \<Rightarrow> byte \<Rightarrow> byte \<Rightarrow> byte \<Rightarrow> byte \<Rightarrow> byte \<Rightarrow> byte \<Rightarrow> byte \<Rightarrow> u64" where
  "de64 a b c d e f g h =
     push_bit 56 (ucast a) OR push_bit 48 (ucast b) OR push_bit 40 (ucast c) OR push_bit 32 (ucast d) OR
     push_bit 24 (ucast e) OR push_bit 16 (ucast f) OR push_bit 8 (ucast g) OR ucast h"

lemma length_be [simp]: "length (be16 x) = 2" "length (be32 y) = 4" "length (be64 z) = 8"
  by (simp_all add: be16_def be32_def be64_def)

lemma not_bit_byte [simp]: "8 \<le> n \<Longrightarrow> \<not> bit (b :: byte) n"
  using bit_imp_le_length [of b n] by auto

lemma de16_be16 [simp]: "de16 (ucast (drop_bit 8 x)) (ucast x) = x"
  unfolding de16_def by (rule bit_word_eqI) (auto simp: bit_simps)

lemma de32_be32 [simp]:
  "de32 (ucast (drop_bit 24 x)) (ucast (drop_bit 16 x)) (ucast (drop_bit 8 x)) (ucast x) = x"
  (is "?l = x")
proof (rule bit_word_eqI)
  fix n
  assume "n < LENGTH(32)"
  then consider "n < 8" | "8 \<le> n" "n < 16" | "16 \<le> n" "n < 24" | "24 \<le> n" "n < 32"
    by fastforce
  then show "bit ?l n = bit x n"
    by cases (auto simp: de32_def bit_simps)
qed

lemma de64_be64 [simp]:
  "de64 (ucast (drop_bit 56 x)) (ucast (drop_bit 48 x)) (ucast (drop_bit 40 x)) (ucast (drop_bit 32 x))
     (ucast (drop_bit 24 x)) (ucast (drop_bit 16 x)) (ucast (drop_bit 8 x)) (ucast x) = x" (is "?l = x")
proof (rule bit_word_eqI)
  fix n
  assume n: "n < LENGTH(64)"
  have b: "bit (push_bit k (ucast (ucast (drop_bit k x) :: byte)) :: u64) n \<longleftrightarrow> k \<le> n \<and> n < k + 8 \<and> bit x n" for k
    using n by (auto simp: bit_simps)
  have low: "bit (ucast (ucast x :: byte) :: u64) n \<longleftrightarrow> n < 8 \<and> bit x n"
    using n by (auto simp: bit_simps)
  from n consider "n < 8" | "8 \<le> n \<and> n < 16" | "16 \<le> n \<and> n < 24" | "24 \<le> n \<and> n < 32" | "32 \<le> n \<and> n < 40"
    | "40 \<le> n \<and> n < 48" | "48 \<le> n \<and> n < 56" | "56 \<le> n \<and> n < 64"
    by atomize_elim (simp, presburger)
  then show "bit ?l n = bit x n"
    by cases (simp_all add: de64_def bit_or_iff b low)
qed

lemma be16_de16 [simp]: "be16 (de16 a b) = [a, b]"
  by (auto intro!: bit_word_eqI simp: be16_def de16_def bit_simps)

lemma be32_de32 [simp]: "be32 (de32 a b c d) = [a, b, c, d]"
  by (auto intro!: bit_word_eqI simp: be32_def de32_def bit_simps)

section \<open>Words as numbers\<close>

lemma unat_ucast_u16_u64 [simp]: "unat (ucast (x :: u16) :: u64) = unat x"
proof -
  have "unat x < 2 ^ 16" using unsigned_less [of x] by simp
  then show ?thesis by (simp add: unsigned_ucast_eq take_bit_nat_eq_self)
qed

lemma unat_succ_below_max [word_simps]: "x \<noteq> - 1 \<Longrightarrow> unat (x + 1) = Suc (unat (x :: 'a::len word))"
  by (metis Suc_eq_plus1 add.commute add_eq_0_iff unatSuc)

lemma of_nat_u16_small [word_simps]: "n < 65536 \<Longrightarrow> unat (of_nat n :: u16) = n"
  by (simp add: unat_of_nat)

lemma of_nat_u64_small [word_simps]: "n < 2 ^ 64 \<Longrightarrow> unat (of_nat n :: u64) = n"
  by (simp add: unat_of_nat)

lemma unat_u64_eq_iff: "m < 2 ^ 64 \<Longrightarrow> unat x = m \<longleftrightarrow> x = (of_nat m :: u64)"
  using of_nat_u64_small [of m] by (metis of_nat_unat ucast_id)

lemma u64_less_succ: "x \<noteq> - 1 \<Longrightarrow> x < x + (1 :: u64)"
  by (simp add: word_less_nat_alt unat_succ_below_max)

section \<open>Arrays and searches\<close>

text \<open>
  The C loops that scan a fixed array for the first slot with a property return its
  index; \<open>first_index\<close> is that loop.
\<close>

fun first_index_from :: "nat \<Rightarrow> ('a \<Rightarrow> bool) \<Rightarrow> 'a list \<Rightarrow> nat option" where
  "first_index_from i P [] = None"
| "first_index_from i P (x # xs) = (if P x then Some i else first_index_from (Suc i) P xs)"

definition first_index :: "('a \<Rightarrow> bool) \<Rightarrow> 'a list \<Rightarrow> nat option" where
  "first_index P xs = first_index_from 0 P xs"

lemma first_index_from_Some:
  "first_index_from i P xs = Some k \<Longrightarrow>
    i \<le> k \<and> k < i + length xs \<and> P (xs ! (k - i)) \<and> (\<forall>j < k - i. \<not> P (xs ! j))"
proof (induction xs arbitrary: i)
  case Nil
  then show ?case by simp
next
  case (Cons x xs)
  show ?case
  proof (cases "P x")
    case True
    with Cons.prems show ?thesis by auto
  next
    case False
    with Cons.prems have "first_index_from (Suc i) P xs = Some k" by simp
    note * = Cons.IH [OF this]
    have "\<forall>j < k - i. \<not> P ((x # xs) ! j)"
    proof (intro allI impI)
      fix j assume "j < k - i"
      with * False show "\<not> P ((x # xs) ! j)" by (cases j) auto
    qed
    moreover have "k - i = Suc (k - Suc i)" using * by auto
    ultimately show ?thesis using * by auto
  qed
qed

lemma first_index_from_None: "first_index_from i P xs = None \<longleftrightarrow> (\<forall>x \<in> set xs. \<not> P x)"
  by (induction xs arbitrary: i) auto

lemma first_index_Some:
  "first_index P xs = Some k \<Longrightarrow> k < length xs \<and> P (xs ! k) \<and> (\<forall>j < k. \<not> P (xs ! j))"
  using first_index_from_Some [of 0 P xs k] by (simp add: first_index_def)

lemma first_index_None: "first_index P xs = None \<longleftrightarrow> (\<forall>x \<in> set xs. \<not> P x)"
  by (simp add: first_index_def first_index_from_None)

lemma first_index_Some_iff:
  "first_index P xs = Some k \<longleftrightarrow> k < length xs \<and> P (xs ! k) \<and> (\<forall>j < k. \<not> P (xs ! j))"
proof
  assume R: "k < length xs \<and> P (xs ! k) \<and> (\<forall>j < k. \<not> P (xs ! j))"
  then have "first_index P xs \<noteq> None" by (auto simp: first_index_None)
  then obtain m where m: "first_index P xs = Some m" by auto
  from first_index_Some [OF m] R have "m = k" by (metis nat_neq_iff)
  with m show "first_index P xs = Some k" by simp
qed (rule first_index_Some)

lemma first_index_cong:
  "length xs = length ys \<Longrightarrow> (\<And>i. i < length xs \<Longrightarrow> P (xs ! i) = Q (ys ! i)) \<Longrightarrow>
    first_index P xs = first_index Q ys"
proof -
  assume len: "length xs = length ys"
    and PQ: "\<And>i. i < length xs \<Longrightarrow> P (xs ! i) = Q (ys ! i)"
  show ?thesis
  proof (cases "first_index Q ys")
    case None
    with len PQ have "first_index P xs = None"
      unfolding first_index_None by (metis in_set_conv_nth)
    with None show ?thesis by simp
  next
    case (Some k)
    with len PQ have "first_index P xs = Some k"
      unfolding first_index_Some_iff by (metis order_less_trans)
    with Some show ?thesis by simp
  qed
qed

text \<open>
  The loops that look for the entry with the smallest key: \<open>f\<close> gives the key of an entry
  that takes part, and the best so far is only replaced by a strictly smaller one.
\<close>

fun argmin_loop :: "nat \<Rightarrow> ('a \<Rightarrow> 'k::linorder option) \<Rightarrow> 'a list \<Rightarrow> nat option \<times> 'k \<Rightarrow> nat option \<times> 'k" where
  "argmin_loop i f [] b = b"
| "argmin_loop i f (x # xs) b =
     argmin_loop (Suc i) f xs
       (case f x of None \<Rightarrow> b | Some v \<Rightarrow> if v < snd b then (Some i, v) else b)"

lemma argmin_loop_lower:
  "snd (argmin_loop i f xs b) \<le> snd b \<and> (\<forall>x \<in> set xs. \<forall>v. f x = Some v \<longrightarrow> snd (argmin_loop i f xs b) \<le> v)"
proof (induction xs arbitrary: i b)
  case (Cons x xs)
  show ?case
  proof (cases "f x")
    case None
    then show ?thesis using Cons [of "Suc i" b] by simp
  next
    case (Some v)
    then show ?thesis
      using Cons [of "Suc i" "if v < snd b then (Some i, v) else b"] by (auto split: if_splits)
  qed
qed simp

lemma argmin_loop_pick:
  "argmin_loop i f xs b = b \<or>
    (\<exists>j < length xs. \<exists>v. argmin_loop i f xs b = (Some (i + j), v) \<and> f (xs ! j) = Some v \<and> v < snd b)"
proof (induction xs arbitrary: i b)
  case (Cons x xs)
  let ?b = "case f x of None \<Rightarrow> b | Some v \<Rightarrow> if v < snd b then (Some i, v) else b"
  have le: "snd ?b \<le> snd b" by (auto split: option.splits)
  from Cons [of "Suc i" ?b] show ?case
  proof
    assume "argmin_loop (Suc i) f xs ?b = ?b"
    then show ?thesis by (auto split: option.splits if_splits intro!: exI [of _ 0])
  next
    assume "\<exists>j < length xs. \<exists>v. argmin_loop (Suc i) f xs ?b = (Some (Suc i + j), v) \<and>
      f (xs ! j) = Some v \<and> v < snd ?b"
    then obtain j v where "j < length xs" "argmin_loop (Suc i) f xs ?b = (Some (Suc i + j), v)"
      "f (xs ! j) = Some v" "v < snd ?b" by blast
    with le show ?thesis by (intro disjI2 exI [of _ "Suc j"]) auto
  qed
qed simp

lemma argmin_loop_Some:
  assumes "argmin_loop 0 f xs (None, b0) = (Some i, v)"
  shows "i < length xs" and "f (xs ! i) = Some v" and "v < b0"
    and "\<forall>x \<in> set xs. \<forall>w. f x = Some w \<longrightarrow> v \<le> w"
  using argmin_loop_pick [of 0 f xs "(None, b0)"] argmin_loop_lower [of 0 f xs "(None, b0)"] assms
  by auto

lemma argmin_loop_None:
  assumes "argmin_loop 0 f xs (None, b0) = (None, v)"
  shows "v = b0" and "\<forall>x \<in> set xs. \<forall>w. f x = Some w \<longrightarrow> b0 \<le> w"
  using argmin_loop_pick [of 0 f xs "(None, b0)"] argmin_loop_lower [of 0 f xs "(None, b0)"] assms
  by auto

end
