(* ===== verification/Cell.thy ===== *)
theory Cell
  imports Prelude
begin

text \<open>
  The fixed-size cells of the wire protocol (\<open>src/src/cell.c\<close>, \<open>src/include/moor/cell.h\<close>):
  the command codes, the cell and relay-payload structures, packing and unpacking, the
  cell builders and the running relay digest. The hash \<open>crypto_generichash_blake2b\<close> of
  libsodium is the parameter \<open>blake2b\<close>; nothing is assumed of it.
\<close>

section \<open>Constants and command codes\<close>

definition MOOR_CELL_SIZE :: nat where "MOOR_CELL_SIZE = 514"
definition MOOR_CELL_HEADER :: nat where "MOOR_CELL_HEADER = 5"
definition MOOR_CELL_PAYLOAD :: nat where "MOOR_CELL_PAYLOAD = 509"
definition MOOR_RELAY_HEADER :: nat where "MOOR_RELAY_HEADER = 11"
definition MOOR_RELAY_DATA :: nat where "MOOR_RELAY_DATA = 498"

lemmas cell_sizes = MOOR_CELL_SIZE_def MOOR_CELL_HEADER_def MOOR_CELL_PAYLOAD_def
  MOOR_RELAY_HEADER_def MOOR_RELAY_DATA_def

datatype (plugins only: code size) moor_cell_cmd =
    CELL_PADDING | CELL_CREATE | CELL_CREATED | CELL_RELAY | CELL_DESTROY
  | CELL_NETINFO | CELL_CREATE_PQ | CELL_CREATED_PQ | CELL_KEM_CT | CELL_RELAY_EARLY

fun cell_cmd_code :: "moor_cell_cmd \<Rightarrow> u8" where
  "cell_cmd_code CELL_PADDING = 0"
| "cell_cmd_code CELL_CREATE = 1"
| "cell_cmd_code CELL_CREATED = 2"
| "cell_cmd_code CELL_RELAY = 3"
| "cell_cmd_code CELL_DESTROY = 4"
| "cell_cmd_code CELL_NETINFO = 5"
| "cell_cmd_code CELL_CREATE_PQ = 6"
| "cell_cmd_code CELL_CREATED_PQ = 7"
| "cell_cmd_code CELL_KEM_CT = 8"
| "cell_cmd_code CELL_RELAY_EARLY = 9"

datatype (plugins only: code size) moor_relay_cmd =
    RELAY_BEGIN | RELAY_DATA | RELAY_END | RELAY_CONNECTED | RELAY_SENDME
  | RELAY_EXTEND | RELAY_EXTENDED | RELAY_EXTEND2 | RELAY_EXTENDED2 | RELAY_DROP
  | RELAY_RESOLVE | RELAY_RESOLVED | RELAY_ESTABLISH_INTRO | RELAY_INTRO_ESTABLISHED
  | RELAY_INTRODUCE1 | RELAY_INTRODUCE2 | RELAY_RENDEZVOUS1 | RELAY_RENDEZVOUS2
  | RELAY_ESTABLISH_RENDEZVOUS | RELAY_RENDEZVOUS_ESTABLISHED
  | RELAY_FRAGMENT | RELAY_FRAGMENT_END | RELAY_EXTEND_PQ | RELAY_EXTENDED_PQ
  | RELAY_KEM_OFFER | RELAY_KEM_ACCEPT | RELAY_E2E_KEM_CT | RELAY_E2E_KEM_ACK
  | RELAY_CONFLUX_LINK | RELAY_CONFLUX_LINKED | RELAY_CONFLUX_SWITCH
  | RELAY_XON | RELAY_XOFF | RELAY_BEGIN_UDP
  | RELAY_DHT_STORE | RELAY_DHT_STORED | RELAY_DHT_FETCH | RELAY_DHT_FOUND
  | RELAY_DHT_NOT_FOUND | RELAY_DHT_PIR_QUERY | RELAY_DHT_PIR_RESPONSE
  | RELAY_DHT_DPF_QUERY | RELAY_DHT_DPF_RESPONSE

fun relay_cmd_code :: "moor_relay_cmd \<Rightarrow> u8" where
  "relay_cmd_code RELAY_BEGIN = 1"
| "relay_cmd_code RELAY_DATA = 2"
| "relay_cmd_code RELAY_END = 3"
| "relay_cmd_code RELAY_CONNECTED = 4"
| "relay_cmd_code RELAY_SENDME = 5"
| "relay_cmd_code RELAY_EXTEND = 6"
| "relay_cmd_code RELAY_EXTENDED = 7"
| "relay_cmd_code RELAY_EXTEND2 = 8"
| "relay_cmd_code RELAY_EXTENDED2 = 9"
| "relay_cmd_code RELAY_DROP = 10"
| "relay_cmd_code RELAY_RESOLVE = 11"
| "relay_cmd_code RELAY_RESOLVED = 12"
| "relay_cmd_code RELAY_ESTABLISH_INTRO = 32"
| "relay_cmd_code RELAY_INTRO_ESTABLISHED = 33"
| "relay_cmd_code RELAY_INTRODUCE1 = 34"
| "relay_cmd_code RELAY_INTRODUCE2 = 35"
| "relay_cmd_code RELAY_RENDEZVOUS1 = 36"
| "relay_cmd_code RELAY_RENDEZVOUS2 = 37"
| "relay_cmd_code RELAY_ESTABLISH_RENDEZVOUS = 38"
| "relay_cmd_code RELAY_RENDEZVOUS_ESTABLISHED = 39"
| "relay_cmd_code RELAY_FRAGMENT = 40"
| "relay_cmd_code RELAY_FRAGMENT_END = 41"
| "relay_cmd_code RELAY_EXTEND_PQ = 42"
| "relay_cmd_code RELAY_EXTENDED_PQ = 43"
| "relay_cmd_code RELAY_KEM_OFFER = 44"
| "relay_cmd_code RELAY_KEM_ACCEPT = 45"
| "relay_cmd_code RELAY_E2E_KEM_CT = 46"
| "relay_cmd_code RELAY_E2E_KEM_ACK = 47"
| "relay_cmd_code RELAY_CONFLUX_LINK = 50"
| "relay_cmd_code RELAY_CONFLUX_LINKED = 51"
| "relay_cmd_code RELAY_CONFLUX_SWITCH = 52"
| "relay_cmd_code RELAY_XON = 53"
| "relay_cmd_code RELAY_XOFF = 54"
| "relay_cmd_code RELAY_BEGIN_UDP = 0x1C"
| "relay_cmd_code RELAY_DHT_STORE = 60"
| "relay_cmd_code RELAY_DHT_STORED = 61"
| "relay_cmd_code RELAY_DHT_FETCH = 62"
| "relay_cmd_code RELAY_DHT_FOUND = 63"
| "relay_cmd_code RELAY_DHT_NOT_FOUND = 64"
| "relay_cmd_code RELAY_DHT_PIR_QUERY = 66"
| "relay_cmd_code RELAY_DHT_PIR_RESPONSE = 67"
| "relay_cmd_code RELAY_DHT_DPF_QUERY = 68"
| "relay_cmd_code RELAY_DHT_DPF_RESPONSE = 69"

section \<open>Cells and relay payloads\<close>

record moor_cell =
  c_circuit_id :: u32
  c_command :: u8
  c_payload :: bytes

record moor_relay_payload =
  r_command :: u8
  r_recognized :: u16
  r_stream_id :: u16
  r_digest :: bytes
  r_data_length :: u16
  r_data :: bytes

text \<open>The C array types fix the buffer lengths.\<close>

definition wf_cell :: "moor_cell \<Rightarrow> bool" where
  "wf_cell c \<longleftrightarrow> length (c_payload c) = MOOR_CELL_PAYLOAD"

definition wf_relay :: "moor_relay_payload \<Rightarrow> bool" where
  "wf_relay r \<longleftrightarrow> length (r_digest r) = 4 \<and> length (r_data r) = MOOR_RELAY_DATA"

definition moor_cell_pack :: "moor_cell \<Rightarrow> bytes" where
  "moor_cell_pack c =
    [ucast (drop_bit 24 (c_circuit_id c)), ucast (drop_bit 16 (c_circuit_id c)),
     ucast (drop_bit 8 (c_circuit_id c)), ucast (c_circuit_id c), c_command c]
    @ mem_read (c_payload c) 0 MOOR_CELL_PAYLOAD"

definition moor_cell_unpack :: "bytes \<Rightarrow> moor_cell" where
  "moor_cell_unpack inb =
    \<lparr> c_circuit_id = de32 (inb ! 0) (inb ! 1) (inb ! 2) (inb ! 3),
      c_command = inb ! 4,
      c_payload = mem_read inb MOOR_CELL_HEADER MOOR_CELL_PAYLOAD \<rparr>"

definition moor_relay_pack :: "moor_relay_payload \<Rightarrow> bytes" where
  "moor_relay_pack r =
    (let p0 = replicate MOOR_CELL_PAYLOAD 0;
         p1 = p0[0 := r_command r,
                 1 := ucast (drop_bit 8 (r_recognized r)), 2 := ucast (r_recognized r),
                 3 := ucast (drop_bit 8 (r_stream_id r)), 4 := ucast (r_stream_id r)];
         p2 = mem_write p1 5 (mem_read (r_digest r) 0 4);
         p3 = p2[9 := ucast (drop_bit 8 (r_data_length r)), 10 := ucast (r_data_length r)]
     in if 0 < unat (r_data_length r) \<and> unat (r_data_length r) \<le> MOOR_RELAY_DATA
        then mem_write p3 MOOR_RELAY_HEADER (mem_read (r_data r) 0 (unat (r_data_length r)))
        else p3)"

text \<open>
  \<open>moor_relay_unpack\<close> fills a caller-owned structure: bytes of \<open>data\<close> past
  \<open>data_length\<close> keep their old contents.
\<close>

definition moor_relay_unpack :: "moor_relay_payload \<Rightarrow> bytes \<Rightarrow> moor_relay_payload" where
  "moor_relay_unpack old p =
    (let len0 = de16 (p ! 9) (p ! 10);
         len = (if unat len0 > MOOR_RELAY_DATA then of_nat MOOR_RELAY_DATA else len0)
     in old\<lparr> r_command := p ! 0,
             r_recognized := de16 (p ! 1) (p ! 2),
             r_stream_id := de16 (p ! 3) (p ! 4),
             r_digest := mem_read p 5 4,
             r_data_length := len,
             r_data := mem_write (r_data old) 0 (mem_read p MOOR_RELAY_HEADER (unat len)) \<rparr>)"

text \<open>A caller's zeroed structure.\<close>

definition blank_relay :: moor_relay_payload where
  "blank_relay = \<lparr> r_command = 0, r_recognized = 0, r_stream_id = 0, r_digest = replicate 4 0,
     r_data_length = 0, r_data = replicate MOOR_RELAY_DATA 0 \<rparr>"

section \<open>Cell builders\<close>

definition zero_cell :: moor_cell where
  "zero_cell = \<lparr> c_circuit_id = 0, c_command = 0, c_payload = replicate MOOR_CELL_PAYLOAD 0 \<rparr>"

definition moor_cell_create :: "u32 \<Rightarrow> bytes \<Rightarrow> bytes \<Rightarrow> moor_cell" where
  "moor_cell_create cid relay_identity_pk ephemeral_pk =
    zero_cell\<lparr> c_circuit_id := cid, c_command := cell_cmd_code CELL_CREATE,
      c_payload := mem_write (mem_write (c_payload zero_cell) 0 (mem_read relay_identity_pk 0 32))
                             32 (mem_read ephemeral_pk 0 32) \<rparr>"

definition moor_cell_created :: "u32 \<Rightarrow> bytes \<Rightarrow> bytes \<Rightarrow> moor_cell" where
  "moor_cell_created cid relay_eph_pk auth_tag =
    zero_cell\<lparr> c_circuit_id := cid, c_command := cell_cmd_code CELL_CREATED,
      c_payload := mem_write (mem_write (c_payload zero_cell) 0 (mem_read relay_eph_pk 0 32))
                             32 (mem_read auth_tag 0 32) \<rparr>"

definition moor_cell_destroy :: "u32 \<Rightarrow> moor_cell" where
  "moor_cell_destroy cid =
    zero_cell\<lparr> c_circuit_id := cid, c_command := cell_cmd_code CELL_DESTROY \<rparr>"

definition moor_cell_destroy_reason :: "u32 \<Rightarrow> u8 \<Rightarrow> moor_cell" where
  "moor_cell_destroy_reason cid reason =
    zero_cell\<lparr> c_circuit_id := cid, c_command := cell_cmd_code CELL_DESTROY,
      c_payload := (c_payload zero_cell)[0 := reason] \<rparr>"

text \<open>The \<open>data\<close> pointer may be NULL (\<open>None\<close>); it points at \<open>data_len\<close> readable bytes.\<close>

definition moor_cell_relay :: "u32 \<Rightarrow> u8 \<Rightarrow> u16 \<Rightarrow> bytes option \<Rightarrow> u16 \<Rightarrow> moor_cell" where
  "moor_cell_relay cid relay_cmd stream data data_len =
    (let relay0 = \<lparr> r_command = relay_cmd, r_recognized = 0, r_stream_id = stream,
                    r_digest = replicate 4 0, r_data_length = data_len,
                    r_data = replicate MOOR_RELAY_DATA 0 \<rparr>;
         relay = (case data of
                    None \<Rightarrow> relay0
                  | Some d \<Rightarrow>
                      if 0 < unat data_len \<and> unat data_len \<le> MOOR_RELAY_DATA
                      then relay0\<lparr> r_data := mem_write (r_data relay0) 0 (mem_read d 0 (unat data_len)) \<rparr>
                      else relay0)
     in zero_cell\<lparr> c_circuit_id := cid, c_command := cell_cmd_code CELL_RELAY,
                   c_payload := moor_relay_pack relay \<rparr>)"

section \<open>The running relay digest\<close>

text \<open>
  \<open>moor_crypto_hash\<close> fills a 32-byte output buffer from the BLAKE2b primitive, which is
  the parameter \<open>blake2b\<close>.
\<close>

definition moor_crypto_hash :: "(bytes \<Rightarrow> bytes) \<Rightarrow> bytes \<Rightarrow> bytes" where
  "moor_crypto_hash blake2b d = take 32 (blake2b d @ replicate 32 0)"

lemma length_moor_crypto_hash [simp]: "length (moor_crypto_hash blake2b d) = 32"
  by (simp add: moor_crypto_hash_def)

definition moor_relay_set_digest :: "(bytes \<Rightarrow> bytes) \<Rightarrow> bytes \<Rightarrow> bytes \<Rightarrow> bytes \<times> bytes" where
  "moor_relay_set_digest blake2b p running =
    (let p0 = mem_write p 5 (replicate 4 0);
         new_digest = moor_crypto_hash blake2b (mem_read running 0 32 @ mem_read p0 0 MOOR_CELL_PAYLOAD)
     in (mem_write p0 5 (mem_read new_digest 0 4), new_digest))"

definition moor_relay_check_digest :: "(bytes \<Rightarrow> bytes) \<Rightarrow> bytes \<Rightarrow> bytes \<Rightarrow> bool \<times> bytes" where
  "moor_relay_check_digest blake2b p running =
    (let cell_digest = mem_read p 5 4;
         hash_input = mem_write (mem_read running 0 32 @ mem_read p 0 MOOR_CELL_PAYLOAD) 37 (replicate 4 0);
         expct = moor_crypto_hash blake2b hash_input
     in if cell_digest \<noteq> mem_read expct 0 4 then (False, running) else (True, expct))"

section \<open>Packing and unpacking are inverse\<close>

lemma replicate_509:
  "replicate 509 x = x # x # x # x # x # x # x # x # x # x # x # replicate 498 x"
proof -
  have "replicate 509 x = replicate 11 x @ replicate 498 x"
    by (simp flip: replicate_add)
  also have "replicate 11 x = [x, x, x, x, x, x, x, x, x, x, x]"
    by (simp add: numeral_eq_Suc)
  finally show ?thesis by simp
qed

lemma drop_11_plus: "drop (11 + n) xs = drop n (drop 11 xs)"
  by (simp add: add.commute)

text \<open>The bytes of a packed relay payload, field by field.\<close>

definition relay_body :: "moor_relay_payload \<Rightarrow> bytes" where
  "relay_body r =
    (if unat (r_data_length r) \<le> MOOR_RELAY_DATA
     then take (unat (r_data_length r)) (r_data r)
          @ replicate (MOOR_RELAY_DATA - unat (r_data_length r)) 0
     else replicate MOOR_RELAY_DATA 0)"

lemma length_relay_body [simp]: "wf_relay r \<Longrightarrow> length (relay_body r) = 498"
  by (simp add: relay_body_def wf_relay_def cell_sizes)

lemma moor_relay_pack_layout:
  assumes "wf_relay r"
  shows "moor_relay_pack r =
    [r_command r] @ be16 (r_recognized r) @ be16 (r_stream_id r) @ r_digest r
    @ be16 (r_data_length r) @ relay_body r"
proof -
  from assms obtain d0 d1 d2 d3 where d: "r_digest r = [d0, d1, d2, d3]"
    by (auto simp: wf_relay_def length_Suc_conv numeral_eq_Suc)
  have "mem_read (r_digest r) 0 4 = r_digest r"
    by (simp add: mem_read_def d)
  then show ?thesis
    using assms
    by (auto simp: moor_relay_pack_def relay_body_def be16_def cell_sizes replicate_509 Let_def
        mem_write_def mem_read_def d wf_relay_def drop_11_plus)
qed

lemma length_moor_relay_pack [simp]: "wf_relay r \<Longrightarrow> length (moor_relay_pack r) = 509"
  by (simp add: moor_relay_pack_layout) (simp add: wf_relay_def)

lemma mem_read_full [simp]: "length xs = n \<Longrightarrow> mem_read xs 0 n = xs"
  by (simp add: mem_read_def)

lemma moor_cell_unpack_pack: "wf_cell c \<Longrightarrow> moor_cell_unpack (moor_cell_pack c) = c"
  by (simp add: moor_cell_unpack_def moor_cell_pack_def wf_cell_def cell_sizes)
     (simp add: mem_read_def)

lemma list_514_split:
  assumes "length xs = 514"
  shows "xs = [xs ! 0, xs ! 1, xs ! 2, xs ! 3, xs ! 4] @ mem_read xs 5 509"
proof (rule nth_equalityI)
  fix i assume i: "i < length xs"
  consider "i = 0" | "i = 1" | "i = 2" | "i = 3" | "i = 4" | "5 \<le> i" by linarith
  then show "xs ! i = ([xs ! 0, xs ! 1, xs ! 2, xs ! 3, xs ! 4] @ mem_read xs 5 509) ! i"
    using assms i by cases (auto simp: nth_append mem_read_nth)
qed (use assms in \<open>simp add: mem_read_def\<close>)

lemma moor_cell_pack_unpack:
  assumes "length b = 514"
  shows "moor_cell_pack (moor_cell_unpack b) = b"
proof -
  have "moor_cell_pack (moor_cell_unpack b) =
    be32 (de32 (b ! 0) (b ! 1) (b ! 2) (b ! 3)) @ [b ! 4] @ mem_read b 5 509"
    using assms by (simp add: moor_cell_pack_def moor_cell_unpack_def be32_def cell_sizes)
  then show ?thesis
    using list_514_split [OF assms] by simp
qed

text \<open>Reading back a packed relay payload, for every value of the length field.\<close>

lemma relay_pack_nth:
  assumes "wf_relay r"
  shows "moor_relay_pack r ! 0 = r_command r"
    and "de16 (moor_relay_pack r ! 1) (moor_relay_pack r ! 2) = r_recognized r"
    and "de16 (moor_relay_pack r ! 3) (moor_relay_pack r ! 4) = r_stream_id r"
    and "de16 (moor_relay_pack r ! 9) (moor_relay_pack r ! 10) = r_data_length r"
    and "mem_read (moor_relay_pack r) 5 4 = r_digest r"
    and "drop 11 (moor_relay_pack r) = relay_body r"
proof -
  from assms obtain d0 d1 d2 d3 where d: "r_digest r = [d0, d1, d2, d3]"
    by (auto simp: wf_relay_def length_Suc_conv numeral_eq_Suc)
  show "moor_relay_pack r ! 0 = r_command r"
    and "de16 (moor_relay_pack r ! 1) (moor_relay_pack r ! 2) = r_recognized r"
    and "de16 (moor_relay_pack r ! 3) (moor_relay_pack r ! 4) = r_stream_id r"
    and "de16 (moor_relay_pack r ! 9) (moor_relay_pack r ! 10) = r_data_length r"
    and "mem_read (moor_relay_pack r) 5 4 = r_digest r"
    and "drop 11 (moor_relay_pack r) = relay_body r"
    by (simp_all add: moor_relay_pack_layout [OF assms] d be16_def mem_read_def)
qed

lemma moor_relay_unpack_pack:
  assumes "wf_relay r" and "wf_relay old" and "unat (r_data_length r) \<le> MOOR_RELAY_DATA"
  shows "moor_relay_unpack old (moor_relay_pack r) =
    r\<lparr> r_data := take (unat (r_data_length r)) (r_data r)
               @ drop (unat (r_data_length r)) (r_data old) \<rparr>"
proof -
  have "mem_read (moor_relay_pack r) 11 (unat (r_data_length r)) =
      take (unat (r_data_length r)) (r_data r)"
    using assms by (simp add: mem_read_def relay_pack_nth relay_body_def wf_relay_def cell_sizes)
  then show ?thesis
    using assms relay_pack_nth [OF assms(1)]
    by (simp add: moor_relay_unpack_def Let_def cell_sizes not_less wf_relay_def)
qed

lemma moor_relay_unpack_pack_overlong:
  assumes "wf_relay r" and "wf_relay old" and "unat (r_data_length r) > MOOR_RELAY_DATA"
  shows "moor_relay_unpack old (moor_relay_pack r) =
    r\<lparr> r_data_length := of_nat MOOR_RELAY_DATA, r_data := replicate MOOR_RELAY_DATA 0 \<rparr>"
proof -
  have "mem_read (moor_relay_pack r) 11 498 = replicate 498 0"
    using assms by (simp add: mem_read_def relay_pack_nth relay_body_def cell_sizes)
  then show ?thesis
    using assms relay_pack_nth [OF assms(1)]
    by (simp add: moor_relay_unpack_def Let_def cell_sizes wf_relay_def)
qed

section \<open>Digest chains\<close>

text \<open>
  The contract between the sender and the receiver of a digest-stamped cell stream: a
  payload stamped in a state verifies in the same state and leaves both sides in the
  same new state, and a rejected payload leaves the receiver's state alone. Whatever
  satisfies it accepts a whole stream in order.
\<close>

fun stamp_all :: "('p \<Rightarrow> 'd \<Rightarrow> 'p \<times> 'd) \<Rightarrow> 'p list \<Rightarrow> 'd \<Rightarrow> 'p list \<times> 'd" where
  "stamp_all stamp [] d = ([], d)"
| "stamp_all stamp (p # ps) d =
     (let (q, d') = stamp p d; (qs, d'') = stamp_all stamp ps d' in (q # qs, d''))"

fun verify_all :: "('p \<Rightarrow> 'd \<Rightarrow> bool \<times> 'd) \<Rightarrow> 'p list \<Rightarrow> 'd \<Rightarrow> bool list \<times> 'd" where
  "verify_all verify [] d = ([], d)"
| "verify_all verify (q # qs) d =
     (let (ok, d') = verify q d; (oks, d'') = verify_all verify qs d' in (ok # oks, d''))"

locale digest_chain =
  fixes stamp :: "'p \<Rightarrow> 'd \<Rightarrow> 'p \<times> 'd"
    and verify :: "'p \<Rightarrow> 'd \<Rightarrow> bool \<times> 'd"
    and wfp :: "'p \<Rightarrow> bool"
    and wfd :: "'d \<Rightarrow> bool"
  assumes verify_stamp: "wfp p \<Longrightarrow> wfd d \<Longrightarrow> stamp p d = (q, d') \<Longrightarrow> verify q d = (True, d')"
    and wf_stamp: "wfp p \<Longrightarrow> wfd d \<Longrightarrow> stamp p d = (q, d') \<Longrightarrow> wfp q \<and> wfd d'"
    and verify_reject: "verify q d = (False, d') \<Longrightarrow> d' = d"
begin

lemma verify_all_stamp_all:
  assumes "\<forall>p \<in> set ps. wfp p" and "wfd d"
  shows "verify_all verify (fst (stamp_all stamp ps d)) d =
    (replicate (length ps) True, snd (stamp_all stamp ps d))"
  using assms
proof (induction ps arbitrary: d)
  case Nil
  then show ?case by simp
next
  case (Cons p ps)
  obtain q d' where st: "stamp p d = (q, d')" by (cases "stamp p d")
  from Cons.prems have wf: "wfp p" "wfd d" "\<forall>p \<in> set ps. wfp p" by auto
  have v: "verify q d = (True, d')" by (rule verify_stamp [OF wf(1,2) st])
  have "wfd d'" using wf_stamp [OF wf(1,2) st] by simp
  from Cons.IH [OF wf(3) this] st v show ?case
    by (simp add: case_prod_beta)
qed

lemma rejected_prefix_is_skipped:
  assumes "fst (verify q d) = False"
  shows "verify_all verify (q # qs) d =
    (let (oks, d') = verify_all verify qs d in (False # oks, d'))"
proof -
  from assms obtain d' where "verify q d = (False, d')" by (cases "verify q d") auto
  with verify_reject [OF this] show ?thesis by simp
qed

end

lemma check_set_digest:
  assumes "length p = 509" and "length d = 32" and "moor_relay_set_digest blake2b p d = (q, d')"
  shows "moor_relay_check_digest blake2b q d = (True, d')"
proof -
  let ?z = "mem_write p 5 (replicate 4 0)"
  have len: "length ?z = 509" using assms(1) by simp
  from assms have d': "d' = moor_crypto_hash blake2b (d @ ?z)"
    and q: "q = mem_write ?z 5 (mem_read d' 0 4)"
    using len by (auto simp: moor_relay_set_digest_def Let_def cell_sizes)
  have "length (mem_read d' 0 4) = 4" using d' by simp
  with q len have lq: "length q = 509" and rd: "mem_read q 5 4 = mem_read d' 0 4"
    by (auto simp: mem_read_write_same)
  have "mem_write q 5 (replicate 4 0) = ?z"
    using q len \<open>length (mem_read d' 0 4) = 4\<close> assms(1)
    by (simp add: mem_write_write_same)
  moreover have "mem_write (d @ q) 37 (replicate 4 0) = d @ mem_write q 5 (replicate 4 0)"
    using assms(2) lq by (simp add: mem_write_def)
  ultimately have "mem_write (mem_read d 0 32 @ mem_read q 0 509) 37 (replicate 4 0) = d @ ?z"
    using assms(2) lq by simp
  with rd d' show ?thesis
    by (simp add: moor_relay_check_digest_def Let_def cell_sizes)
qed

lemma set_digest_wf:
  assumes "length p = 509" and "moor_relay_set_digest blake2b p d = (q, d')"
  shows "length q = 509" and "length d' = 32"
  using assms by (auto simp: moor_relay_set_digest_def Let_def)

lemma set_digest_frame:
  assumes "length p = 509" and "a + n \<le> 5 \<or> 9 \<le> a" and "a + n \<le> 509"
  shows "mem_read (fst (moor_relay_set_digest blake2b p d)) a n = mem_read p a n"
  using assms by (simp add: moor_relay_set_digest_def Let_def mem_read_write_disjoint)

lemma set_digest_nth:
  assumes "length p = 509" and "i < 5 \<or> 9 \<le> i" and "i < 509"
  shows "fst (moor_relay_set_digest blake2b p d) ! i = p ! i"
  using assms by (auto simp: moor_relay_set_digest_def Let_def nth_mem_write)

lemma check_digest_reject: "moor_relay_check_digest blake2b q d = (False, d') \<Longrightarrow> d' = d"
  by (auto simp: moor_relay_check_digest_def Let_def split: if_splits)

interpretation relay_digest: digest_chain
  "moor_relay_set_digest blake2b" "moor_relay_check_digest blake2b"
  "\<lambda>p. length p = 509" "\<lambda>d. length d = 32"
  for blake2b
proof (unfold_locales, goal_cases)
  case (1 p d q d')
  then show ?case by (rule check_set_digest)
next
  case (2 p d q d')
  from set_digest_wf [OF 2(1) 2(3)] show ?case by simp
next
  case (3 q d d')
  then show ?case by (rule check_digest_reject)
qed

section \<open>Properties of the cell layer\<close>

lemma wf_zero_cell [simp]: "wf_cell zero_cell"
  by (simp add: wf_cell_def zero_cell_def)

lemma moor_cell_relay_payload:
  assumes "length d = unat len" and "unat len \<le> MOOR_RELAY_DATA"
  obtains r where "wf_relay r" and "c_payload (moor_cell_relay cid cmd sid (Some d) len) = moor_relay_pack r"
    and "r_command r = cmd" and "r_recognized r = 0" and "r_stream_id r = sid"
    and "r_data_length r = len" and "take (unat len) (r_data r) = d"
proof -
  let ?r = "\<lparr> r_command = cmd, r_recognized = 0, r_stream_id = sid, r_digest = replicate 4 0,
              r_data_length = len, r_data = d @ drop (unat len) (replicate MOOR_RELAY_DATA 0) \<rparr>"
  have "wf_relay ?r"
    using assms by (simp add: wf_relay_def)
  moreover have "c_payload (moor_cell_relay cid cmd sid (Some d) len) = moor_relay_pack ?r"
    using assms by (auto simp: moor_cell_relay_def Let_def)
  moreover have "take (unat len) (r_data ?r) = d"
    using assms by simp
  ultimately show thesis
    by (intro that [of ?r]) simp_all
qed

text \<open>
  C17. Cells and 514-byte wire frames are in bijection: packing a cell gives exactly
  514 bytes and unpacking them gives the cell back, and every 514-byte frame is the
  packing of the cell it unpacks to.
\<close>

theorem cell_wire_bijection:
  "(wf_cell c \<longrightarrow> length (moor_cell_pack c) = 514 \<and> moor_cell_unpack (moor_cell_pack c) = c) \<and>
   (length b = 514 \<longrightarrow> wf_cell (moor_cell_unpack b) \<and> moor_cell_pack (moor_cell_unpack b) = b)"
proof (intro conjI impI)
  assume "wf_cell c"
  then show "length (moor_cell_pack c) = 514" and "moor_cell_unpack (moor_cell_pack c) = c"
    by (simp_all add: moor_cell_unpack_pack) (simp add: moor_cell_pack_def wf_cell_def cell_sizes)
next
  assume "length b = 514"
  then show "wf_cell (moor_cell_unpack b)" and "moor_cell_pack (moor_cell_unpack b) = b"
    by (simp_all add: moor_cell_pack_unpack) (simp add: moor_cell_unpack_def wf_cell_def cell_sizes)
qed

theorem cell_wire_bijection_witness:
  "moor_cell_unpack (moor_cell_pack (zero_cell\<lparr>c_circuit_id := 0xDEADBEEF\<rparr>))
      = zero_cell\<lparr>c_circuit_id := 0xDEADBEEF\<rparr> \<and>
   moor_cell_pack (moor_cell_unpack (replicate 514 7)) = replicate 514 7"
  using cell_wire_bijection [of "zero_cell\<lparr>c_circuit_id := 0xDEADBEEF\<rparr>" "replicate 514 7"]
  by (simp add: wf_cell_def zero_cell_def)

text \<open>
  C16. What \<open>moor_cell_relay\<close> puts into a relay cell is what \<open>moor_relay_unpack\<close> takes
  out: command, stream id, length and the data bytes, with the recognized field zero,
  whatever the receiving structure held before.
\<close>

theorem relay_cell_delivers_data:
  assumes "length d = unat len" and "unat len \<le> MOOR_RELAY_DATA" and "wf_relay old"
  shows "let r = moor_relay_unpack old (c_payload (moor_cell_relay cid cmd sid (Some d) len))
    in r_command r = cmd \<and> r_recognized r = 0 \<and> r_stream_id r = sid \<and> r_data_length r = len \<and>
       take (unat len) (r_data r) = d"
proof -
  obtain r where r: "wf_relay r"
    "c_payload (moor_cell_relay cid cmd sid (Some d) len) = moor_relay_pack r"
    "r_command r = cmd" "r_recognized r = 0" "r_stream_id r = sid"
    "r_data_length r = len" "take (unat len) (r_data r) = d"
    using moor_cell_relay_payload [OF assms(1,2)] by metis
  with moor_relay_unpack_pack [OF r(1) assms(3)] assms show ?thesis
    by (auto simp: Let_def)
qed

theorem relay_cell_delivers_data_witness:
  "take 2 (r_data (moor_relay_unpack blank_relay
      (c_payload (moor_cell_relay 9 (relay_cmd_code RELAY_DATA) 7 (Some [1, 2]) 2)))) = [1, 2]"
  using relay_cell_delivers_data
    [of "[1, 2]" 2 blank_relay 9 "relay_cmd_code RELAY_DATA" 7]
  by (simp add: blank_relay_def wf_relay_def cell_sizes Let_def)

text \<open>
  C15. A stream of relay payloads stamped by \<open>moor_relay_set_digest\<close> is accepted cell by
  cell by \<open>moor_relay_check_digest\<close> from the same starting digest, and both ends finish
  with the same running digest, for every hash function.
\<close>

theorem relay_digest_stream_accepted:
  assumes "\<forall>p \<in> set ps. length p = 509" and "length d = 32"
  shows "verify_all (moor_relay_check_digest blake2b)
      (fst (stamp_all (moor_relay_set_digest blake2b) ps d)) d =
    (replicate (length ps) True, snd (stamp_all (moor_relay_set_digest blake2b) ps d))"
  using assms by (rule relay_digest.verify_all_stamp_all)

theorem relay_digest_stream_accepted_witness:
  "fst (verify_all (moor_relay_check_digest (\<lambda>x. take 32 x))
      (fst (stamp_all (moor_relay_set_digest (\<lambda>x. take 32 x))
        [replicate 509 1, replicate 509 2] (replicate 32 3))) (replicate 32 3)) = [True, True]"
  using relay_digest_stream_accepted
    [of "[replicate 509 1, replicate 509 2]" "replicate 32 3" "\<lambda>x. take 32 x"]
  by (simp add: numeral_2_eq_2)

end
