(* ===== verification/Interfaces.thy ===== *)
theory Interfaces
  imports Prelude
begin

text \<open>
  Interfaces that several components share. \<open>sync_channel\<close> is the contract of a stateful
  sender and receiver that stay in step: as long as the two states are in the relation
  \<open>sync\<close>, whatever is sent is received, up to the view \<open>vw\<close> of a message that the
  channel promises to keep, and the states are in step again. Its client lemma carries
  the contract from one message to any sequence of messages.
\<close>

fun send_all :: "('s \<Rightarrow> 'm \<Rightarrow> ('c \<times> 's) option) \<Rightarrow> 's \<Rightarrow> 'm list \<Rightarrow> ('c list \<times> 's) option" where
  "send_all send s [] = Some ([], s)"
| "send_all send s (m # ms) =
     (case send s m of None \<Rightarrow> None
      | Some (c, s') \<Rightarrow>
          (case send_all send s' ms of None \<Rightarrow> None | Some (cs, s'') \<Rightarrow> Some (c # cs, s'')))"

fun recv_all :: "('t \<Rightarrow> 'c \<Rightarrow> ('m \<times> 't) option) \<Rightarrow> 't \<Rightarrow> 'c list \<Rightarrow> ('m list \<times> 't) option" where
  "recv_all recv t [] = Some ([], t)"
| "recv_all recv t (c # cs) =
     (case recv t c of None \<Rightarrow> None
      | Some (m, t') \<Rightarrow>
          (case recv_all recv t' cs of None \<Rightarrow> None | Some (ms, t'') \<Rightarrow> Some (m # ms, t'')))"

locale sync_channel =
  fixes send :: "'s \<Rightarrow> 'm \<Rightarrow> ('c \<times> 's) option"
    and recv :: "'t \<Rightarrow> 'c \<Rightarrow> ('m \<times> 't) option"
    and sync :: "'s \<Rightarrow> 't \<Rightarrow> bool"
    and okm :: "'m \<Rightarrow> bool"
    and vw :: "'m \<Rightarrow> 'v"
  assumes sync_step: "sync s t \<Longrightarrow> okm m \<Longrightarrow> send s m = Some (c, s') \<Longrightarrow>
    \<exists>m' t'. recv t c = Some (m', t') \<and> vw m' = vw m \<and> sync s' t'"
begin

lemma stream_delivered:
  assumes "sync s t" and "\<forall>m \<in> set ms. okm m" and "send_all send s ms = Some (cs, s')"
  shows "\<exists>ms' t'. recv_all recv t cs = Some (ms', t') \<and> map vw ms' = map vw ms \<and> sync s' t'"
  using assms
proof (induction ms arbitrary: s t cs)
  case Nil
  then show ?case by simp
next
  case (Cons m ms)
  from Cons.prems(3) obtain c s1 cs' where c: "send s m = Some (c, s1)"
    and rest: "send_all send s1 ms = Some (cs', s')" and cs: "cs = c # cs'"
    by (auto split: option.splits prod.splits)
  from Cons.prems(2) have "okm m" by simp
  from sync_step [OF Cons.prems(1) this c] obtain m' t1
    where r: "recv t c = Some (m', t1)" "vw m' = vw m" and s1: "sync s1 t1"
    by blast
  from Cons.prems(2) have "\<forall>m \<in> set ms. okm m" by simp
  from Cons.IH [OF s1 this rest] obtain ms' t'
    where "recv_all recv t1 cs' = Some (ms', t')" "map vw ms' = map vw ms" "sync s' t'"
    by blast
  with r cs show ?case by auto
qed

end

end
