(* ===== verification/Onion.thy ===== *)
theory Onion
  imports Cell Interfaces
begin

text \<open>
  Onion layering of relay cells (\<open>src/src/circuit.c\<close>: \<open>moor_circuit_encrypt_forward\<close>,
  \<open>moor_circuit_decrypt_backward\<close>, \<open>moor_circuit_relay_decrypt\<close>,
  \<open>moor_circuit_relay_encrypt\<close>; \<open>src/src/crypto.c\<close>: \<open>moor_crypto_stream_xor\<close>). The
  ChaCha20 keystream of libsodium is the parameter \<open>chacha\<close>: for a key and a 12-byte
  nonce it either fails (a non-zero return code) or gives the keystream byte at each
  position. The theory shows that a cell the client wraps for \<open>n\<close> hops is unwrapped by
  the \<open>n\<close> relays to exactly the stamped payload, which the last relay's digest check
  accepts, and the converse for the backward direction, with client and relays left in
  step; and that no nonce is used twice.
\<close>

section \<open>The stream cipher\<close>

type_synonym keystream = "nat \<Rightarrow> byte"
type_synonym chacha20 = "bytes \<Rightarrow> bytes \<Rightarrow> keystream option"

definition nonce_buf :: "u64 \<Rightarrow> bytes" where
  "nonce_buf nonce = map (\<lambda>i. ucast (drop_bit (i * 8) nonce)) [0..<8] @ replicate 4 0"

definition xor_keystream :: "keystream \<Rightarrow> bytes \<Rightarrow> bytes" where
  "xor_keystream ks buf = map2 (\<lambda>i b. b XOR ks i) [0..<length buf] buf"

definition moor_crypto_stream_xor :: "chacha20 \<Rightarrow> bytes \<Rightarrow> bytes \<Rightarrow> u64 \<Rightarrow> bytes option" where
  "moor_crypto_stream_xor chacha buf key nonce =
    map_option (\<lambda>ks. xor_keystream ks buf) (chacha key (nonce_buf nonce))"

lemma length_xor_keystream [simp]: "length (xor_keystream ks b) = length b"
  by (simp add: xor_keystream_def)

lemma xor_keystream_self [simp]: "xor_keystream ks (xor_keystream ks b) = b"
  by (rule nth_equalityI) (simp_all add: xor_keystream_def xor.assoc)

lemma nonce_buf_inj: "nonce_buf a = nonce_buf b \<Longrightarrow> a = b"
proof (rule bit_word_eqI)
  fix n
  assume eq: "nonce_buf a = nonce_buf b" and n: "n < LENGTH(64)"
  have "n div 8 < 8" using n by simp
  then have "nonce_buf x ! (n div 8) = ucast (drop_bit (n div 8 * 8) x)" for x :: u64
    by (simp add: nonce_buf_def nth_append)
  with eq have "ucast (drop_bit (n div 8 * 8) a) = (ucast (drop_bit (n div 8 * 8) b) :: byte)"
    by metis
  then have "bit (ucast (drop_bit (n div 8 * 8) a) :: byte) (n mod 8) =
      bit (ucast (drop_bit (n div 8 * 8) b) :: byte) (n mod 8)"
    by simp
  then show "bit a n = bit b n"
    by (simp add: bit_simps)
qed

section \<open>Client side\<close>

record hop =
  h_forward_key :: bytes
  h_backward_key :: bytes
  h_forward_nonce :: u64
  h_backward_nonce :: u64
  h_forward_digest :: bytes
  h_backward_digest :: bytes

text \<open>The loop \<open>for (i = num_hops - 1; i >= 0; i--)\<close>; \<open>False\<close> is the return value -1.\<close>

fun encrypt_layers :: "chacha20 \<Rightarrow> nat \<Rightarrow> hop list \<Rightarrow> bytes \<Rightarrow> bool \<times> hop list \<times> bytes" where
  "encrypt_layers chacha 0 hs p = (True, hs, p)"
| "encrypt_layers chacha (Suc i) hs p =
     (if h_forward_nonce (hs ! i) = UINT64_MAX then (False, hs, p)
      else case moor_crypto_stream_xor chacha p (h_forward_key (hs ! i)) (h_forward_nonce (hs ! i)) of
          None \<Rightarrow> (False, hs, p)
        | Some p' \<Rightarrow>
            encrypt_layers chacha i
              (hs[i := (hs ! i)\<lparr>h_forward_nonce := h_forward_nonce (hs ! i) + 1\<rparr>]) p')"

definition moor_circuit_encrypt_forward ::
    "chacha20 \<Rightarrow> (bytes \<Rightarrow> bytes) \<Rightarrow> nat \<Rightarrow> hop list \<Rightarrow> bytes \<Rightarrow> bool \<times> hop list \<times> bytes" where
  "moor_circuit_encrypt_forward chacha blake2b num_hops hs p =
    (if 0 < num_hops
     then let h = hs ! (num_hops - 1);
              (q, d) = moor_relay_set_digest blake2b p (h_forward_digest h)
          in encrypt_layers chacha num_hops (hs[num_hops - 1 := h\<lparr>h_forward_digest := d\<rparr>]) q
     else encrypt_layers chacha num_hops hs p)"

text \<open>The loop \<open>for (i = 0; i < num_hops; i++)\<close>.\<close>

function decrypt_layers :: "chacha20 \<Rightarrow> nat \<Rightarrow> nat \<Rightarrow> hop list \<Rightarrow> bytes \<Rightarrow> bool \<times> hop list \<times> bytes" where
  "decrypt_layers chacha i n hs p =
     (if i < n
      then if h_backward_nonce (hs ! i) = UINT64_MAX then (False, hs, p)
           else case moor_crypto_stream_xor chacha p (h_backward_key (hs ! i)) (h_backward_nonce (hs ! i)) of
               None \<Rightarrow> (False, hs, p)
             | Some p' \<Rightarrow>
                 decrypt_layers chacha (Suc i) n
                   (hs[i := (hs ! i)\<lparr>h_backward_nonce := h_backward_nonce (hs ! i) + 1\<rparr>]) p'
      else (True, hs, p))"
  by pat_completeness auto
termination
  by (relation "measure (\<lambda>(chacha, i, n, hs, p). n - i)") auto

declare decrypt_layers.simps [simp del]

definition moor_circuit_decrypt_backward ::
    "chacha20 \<Rightarrow> (bytes \<Rightarrow> bytes) \<Rightarrow> nat \<Rightarrow> hop list \<Rightarrow> bytes \<Rightarrow> bool \<times> hop list \<times> bytes" where
  "moor_circuit_decrypt_backward chacha blake2b num_hops hs p =
    (case decrypt_layers chacha 0 num_hops hs p of
       (False, hs', p') \<Rightarrow> (False, hs', p')
     | (True, hs', p') \<Rightarrow>
         if 0 < num_hops
         then let h = hs' ! (num_hops - 1);
                  (ok, d) = moor_relay_check_digest blake2b p' (h_backward_digest h)
              in if ok then (True, hs'[num_hops - 1 := h\<lparr>h_backward_digest := d\<rparr>], p')
                 else (False, hs', p')
         else (True, hs', p'))"

section \<open>Relay side\<close>

record relay_circ =
  rc_forward_key :: bytes
  rc_backward_key :: bytes
  rc_forward_nonce :: u64
  rc_backward_nonce :: u64
  rc_forward_digest :: bytes
  rc_backward_digest :: bytes
  rc_last_cell_time :: u64

definition DESTROY_REASON_PROTOCOL :: u8 where "DESTROY_REASON_PROTOCOL = 1"

definition moor_circuit_relay_decrypt ::
    "chacha20 \<Rightarrow> u64 \<Rightarrow> relay_circ \<Rightarrow> bytes \<Rightarrow> bool \<times> relay_circ \<times> bytes" where
  "moor_circuit_relay_decrypt chacha now rc p =
    (if rc_forward_nonce rc = UINT64_MAX then (False, rc, p)
     else case moor_crypto_stream_xor chacha p (rc_forward_key rc) (rc_forward_nonce rc) of
         None \<Rightarrow> (False, rc, p)
       | Some p' \<Rightarrow>
           (True, rc\<lparr>rc_forward_nonce := rc_forward_nonce rc + 1, rc_last_cell_time := now\<rparr>, p'))"

text \<open>
  On failure the payload is wiped and the circuit is to be marked for close; the last
  component of the result is that request, with its reason.
\<close>

definition moor_circuit_relay_encrypt ::
    "chacha20 \<Rightarrow> relay_circ \<Rightarrow> bytes \<Rightarrow> bool \<times> relay_circ \<times> bytes \<times> u8 option" where
  "moor_circuit_relay_encrypt chacha rc p =
    (if rc_backward_nonce rc = UINT64_MAX
     then (False, rc, replicate MOOR_CELL_PAYLOAD 0, Some DESTROY_REASON_PROTOCOL)
     else case moor_crypto_stream_xor chacha p (rc_backward_key rc) (rc_backward_nonce rc) of
         None \<Rightarrow> (False, rc, replicate MOOR_CELL_PAYLOAD 0, Some DESTROY_REASON_PROTOCOL)
       | Some p' \<Rightarrow> (True, rc\<lparr>rc_backward_nonce := rc_backward_nonce rc + 1\<rparr>, p', None))"

text \<open>
  The forward branch of \<open>moor_relay_handle_relay\<close>: peel one layer, and keep the cell when
  its recognized field is zero and the digest check accepts it; otherwise the cell goes on
  to the next hop. The result says whether the cell was recognized.
\<close>

definition relay_forward_head ::
    "chacha20 \<Rightarrow> (bytes \<Rightarrow> bytes) \<Rightarrow> u64 \<Rightarrow> relay_circ \<Rightarrow> bytes \<Rightarrow> bool \<times> relay_circ \<times> bytes" where
  "relay_forward_head chacha blake2b now rc p =
    (let (_, rc1, p1) = moor_circuit_relay_decrypt chacha now rc p;
         relay = moor_relay_unpack blank_relay p1
     in if r_recognized relay = 0
        then let (ok, d) = moor_relay_check_digest blake2b p1 (rc_forward_digest rc1)
             in (ok, rc1\<lparr>rc_forward_digest := d\<rparr>, p1)
        else (False, rc1, p1))"

text \<open>
  A cell travelling along the relays of a circuit: the first relay that recognizes it
  consumes it. The result names that relay and the payload it reads.
\<close>

fun forward_path ::
    "chacha20 \<Rightarrow> (bytes \<Rightarrow> bytes) \<Rightarrow> u64 \<Rightarrow> nat \<Rightarrow> relay_circ list \<Rightarrow> bytes
      \<Rightarrow> (nat \<times> bytes) option \<times> relay_circ list" where
  "forward_path chacha blake2b now k [] p = (None, [])"
| "forward_path chacha blake2b now k (rc # rcs) p =
     (let (recog, rc', p') = relay_forward_head chacha blake2b now rc p
      in if recog then (Some (k, p'), rc' # rcs)
         else let (r, rcs') = forward_path chacha blake2b now (Suc k) rcs p' in (r, rc' # rcs'))"

text \<open>No relay before the last takes the cell for its own.\<close>

fun unrecognized_before_last ::
    "chacha20 \<Rightarrow> (bytes \<Rightarrow> bytes) \<Rightarrow> u64 \<Rightarrow> relay_circ list \<Rightarrow> bytes \<Rightarrow> bool" where
  "unrecognized_before_last chacha blake2b now [] p = True"
| "unrecognized_before_last chacha blake2b now [rc] p = True"
| "unrecognized_before_last chacha blake2b now (rc # rc2 # rcs) p =
     (let (recog, _, p') = relay_forward_head chacha blake2b now rc p
      in \<not> recog \<and> unrecognized_before_last chacha blake2b now (rc2 # rcs) p')"

text \<open>
  The backward branch: the last relay stamps its cell with \<open>relay_backward_digest\<close> and adds
  its layer (\<open>exit_send_relay_end\<close>, \<open>exit_send_relay_connected\<close>); each relay before it
  adds one more on the way to the client.
\<close>

fun backward_layers ::
    "chacha20 \<Rightarrow> relay_circ list \<Rightarrow> bytes \<Rightarrow> bytes \<times> relay_circ list \<times> u8 option list" where
  "backward_layers chacha [] p = (p, [], [])"
| "backward_layers chacha (rc # rcs) p =
     (let (q, rcs', closes) = backward_layers chacha rcs p;
          (_, rc', q', close) = moor_circuit_relay_encrypt chacha rc q
      in (q', rc' # rcs', close # closes))"

definition exit_send_backward ::
    "chacha20 \<Rightarrow> (bytes \<Rightarrow> bytes) \<Rightarrow> relay_circ list \<Rightarrow> bytes \<Rightarrow> bytes \<times> relay_circ list \<times> u8 option list" where
  "exit_send_backward chacha blake2b rcs p =
    (let rc = last rcs; (q, d) = moor_relay_set_digest blake2b p (rc_backward_digest rc)
     in backward_layers chacha (butlast rcs @ [rc\<lparr>rc_backward_digest := d\<rparr>]) q)"

section \<open>Client and relays in step\<close>

definition hop_sync :: "hop \<Rightarrow> relay_circ \<Rightarrow> bool" where
  "hop_sync h rc \<longleftrightarrow>
    h_forward_key h = rc_forward_key rc \<and> h_forward_nonce h = rc_forward_nonce rc \<and>
    h_backward_key h = rc_backward_key rc \<and> h_backward_nonce h = rc_backward_nonce rc \<and>
    h_forward_digest h = rc_forward_digest rc \<and> h_backward_digest h = rc_backward_digest rc \<and>
    length (h_forward_digest h) = 32 \<and> length (h_backward_digest h) = 32"

definition circuit_sync :: "nat \<Rightarrow> hop list \<Rightarrow> relay_circ list \<Rightarrow> bool" where
  "circuit_sync n hs rcs \<longleftrightarrow> 0 < n \<and> n \<le> length hs \<and> list_all2 hop_sync (take n hs) rcs"

text \<open>The nested layers as a function of the hops, outermost first.\<close>

fun wrap :: "chacha20 \<Rightarrow> hop list \<Rightarrow> bytes \<Rightarrow> bytes option" where
  "wrap chacha [] p = Some p"
| "wrap chacha (h # hs) p =
     (case wrap chacha hs p of None \<Rightarrow> None
      | Some q \<Rightarrow> if h_forward_nonce h = UINT64_MAX then None
                 else moor_crypto_stream_xor chacha q (h_forward_key h) (h_forward_nonce h))"

definition inc_forward :: "hop \<Rightarrow> hop" where
  "inc_forward h = h\<lparr>h_forward_nonce := h_forward_nonce h + 1\<rparr>"

definition inc_relay :: "u64 \<Rightarrow> relay_circ \<Rightarrow> relay_circ" where
  "inc_relay now rc = rc\<lparr>rc_forward_nonce := rc_forward_nonce rc + 1, rc_last_cell_time := now\<rparr>"

lemma stream_xor_inverse:
  "moor_crypto_stream_xor chacha q k n = Some p \<Longrightarrow>
    length p = length q \<and> moor_crypto_stream_xor chacha p k n = Some q"
  by (auto simp: moor_crypto_stream_xor_def)

lemma wrap_snoc:
  "wrap chacha (hs @ [h]) p =
    (if h_forward_nonce h = UINT64_MAX then None
     else case moor_crypto_stream_xor chacha p (h_forward_key h) (h_forward_nonce h) of
         None \<Rightarrow> None | Some q \<Rightarrow> wrap chacha hs q)"
  by (induction hs) (auto split: option.splits)

lemma length_wrap: "wrap chacha hs p = Some q \<Longrightarrow> length q = length p"
  by (induction hs arbitrary: q)
     (auto split: option.splits if_splits dest: stream_xor_inverse)

lemma encrypt_layers_wrap:
  assumes "n \<le> length hs" and "encrypt_layers chacha n hs p = (True, hs', p')"
  shows "wrap chacha (take n hs) p = Some p' \<and> hs' = map inc_forward (take n hs) @ drop n hs"
  using assms
proof (induction n arbitrary: hs p)
  case 0
  then show ?case by simp
next
  case (Suc n)
  let ?h = "hs ! n"
  let ?hs = "hs[n := inc_forward ?h]"
  from Suc.prems obtain q where nm: "h_forward_nonce ?h \<noteq> UINT64_MAX"
    and q: "moor_crypto_stream_xor chacha p (h_forward_key ?h) (h_forward_nonce ?h) = Some q"
    and rest: "encrypt_layers chacha n ?hs q = (True, hs', p')"
    by (auto simp: inc_forward_def split: if_splits option.splits)
  from Suc.prems(1) have len: "n \<le> length ?hs" by simp
  from Suc.IH [OF len rest] have w: "wrap chacha (take n hs) q = Some p'"
    and hs': "hs' = map inc_forward (take n hs) @ drop n ?hs" by simp_all
  have t: "take (Suc n) hs = take n hs @ [?h]" and d: "drop n ?hs = inc_forward ?h # drop (Suc n) hs"
    using Suc.prems(1)
    by (auto simp: take_Suc_conv_app_nth drop_update_swap Cons_nth_drop_Suc [symmetric])
  from w nm q have "wrap chacha (take n hs @ [?h]) p = Some p'"
    by (simp add: wrap_snoc)
  with hs' t d show ?case by simp
qed

lemma encrypt_layers_total:
  assumes "\<forall>i < n. h_forward_nonce (hs ! i) \<noteq> UINT64_MAX" and "\<forall>k b. chacha k b \<noteq> None"
    and "n \<le> length hs"
  shows "fst (encrypt_layers chacha n hs p)"
  using assms
proof (induction n arbitrary: hs p)
  case (Suc n)
  from Suc.prems(2) obtain q where
    "moor_crypto_stream_xor chacha p (h_forward_key (hs ! n)) (h_forward_nonce (hs ! n)) = Some q"
    by (fastforce simp: moor_crypto_stream_xor_def)
  with Suc show ?case by simp
qed simp

text \<open>A relay in step with its hop peels exactly that hop's layer.\<close>

lemma relay_decrypt_sync:
  assumes "hop_sync h rc" and "h_forward_nonce h \<noteq> UINT64_MAX"
    and "moor_crypto_stream_xor chacha q (h_forward_key h) (h_forward_nonce h) = Some p"
  shows "moor_circuit_relay_decrypt chacha now rc p = (True, inc_relay now rc, q)"
  using assms stream_xor_inverse [OF assms(3)]
  by (simp add: hop_sync_def moor_circuit_relay_decrypt_def inc_relay_def)

lemma hop_sync_inc:
  "hop_sync h rc \<Longrightarrow> hop_sync (inc_forward h) (inc_relay now rc)"
  "hop_sync h rc \<Longrightarrow> length d = 32 \<Longrightarrow>
    hop_sync (h\<lparr>h_forward_digest := d\<rparr>) (rc\<lparr>rc_forward_digest := d\<rparr>)"
  by (auto simp: hop_sync_def inc_forward_def inc_relay_def)

lemma wrap_digest_irrelevant:
  "wrap chacha (hs @ [h\<lparr>h_forward_digest := d\<rparr>]) p = wrap chacha (hs @ [h]) p"
  by (simp add: wrap_snoc)

lemma relay_forward_head_passes:
  assumes "moor_circuit_relay_decrypt chacha now rc p = (True, rc1, q)"
    and "\<not> fst (relay_forward_head chacha blake2b now rc p)"
  shows "relay_forward_head chacha blake2b now rc p = (False, rc1, q)"
  using assms
  by (auto simp: relay_forward_head_def Let_def dest: check_digest_reject split: prod.splits if_splits)

lemma relay_forward_head_takes:
  assumes "moor_circuit_relay_decrypt chacha now rc p = (True, rc1, q)"
    and "q ! 1 = 0" and "q ! 2 = 0"
    and "moor_relay_check_digest blake2b q (rc_forward_digest rc1) = (True, d)"
  shows "relay_forward_head chacha blake2b now rc p = (True, rc1\<lparr>rc_forward_digest := d\<rparr>, q)"
  using assms by (simp add: relay_forward_head_def moor_relay_unpack_def de16_def Let_def)

lemma forward_path_unwraps:
  assumes "list_all2 hop_sync (hs @ [h]) (rcs @ [rc])"
    and "wrap chacha (hs @ [h]) q = Some p"
    and "unrecognized_before_last chacha blake2b now (rcs @ [rc]) p"
    and "q ! 1 = 0" and "q ! 2 = 0"
    and "moor_relay_check_digest blake2b q (rc_forward_digest rc) = (True, d)"
  shows "forward_path chacha blake2b now k (rcs @ [rc]) p =
    (Some (k + length rcs, q),
     map (inc_relay now) rcs @ [(inc_relay now rc)\<lparr>rc_forward_digest := d\<rparr>])"
  using assms
proof (induction hs arbitrary: rcs p k)
  case Nil
  then have "rcs = []" by (auto simp: list_all2_Cons1 Cons_eq_append_conv)
  with Nil.prems have "moor_circuit_relay_decrypt chacha now rc p = (True, inc_relay now rc, q)"
    by (auto intro!: relay_decrypt_sync [of h] split: if_splits)
  with Nil.prems \<open>rcs = []\<close> show ?case
    by (simp add: relay_forward_head_takes inc_relay_def)
next
  case (Cons g hs)
  from Cons.prems(1) obtain rc1 rcs1 where rcs: "rcs = rc1 # rcs1" and g: "hop_sync g rc1"
    and rest: "list_all2 hop_sync (hs @ [h]) (rcs1 @ [rc])"
    by (cases rcs) (auto dest: list_all2_lengthD)
  from Cons.prems(2) obtain p1 where w: "wrap chacha (hs @ [h]) q = Some p1"
    and nm: "h_forward_nonce g \<noteq> UINT64_MAX"
    and x: "moor_crypto_stream_xor chacha p1 (h_forward_key g) (h_forward_nonce g) = Some p"
    by (auto split: option.splits if_splits)
  have dec: "moor_circuit_relay_decrypt chacha now rc1 p = (True, inc_relay now rc1, p1)"
    by (rule relay_decrypt_sync [OF g nm x])
  obtain rc2 rcs2 where tl: "rcs1 @ [rc] = rc2 # rcs2" by (cases "rcs1 @ [rc]") auto
  from Cons.prems(3) have "\<not> fst (relay_forward_head chacha blake2b now rc1 p)"
    by (auto simp: rcs tl split: prod.splits)
  from relay_forward_head_passes [OF dec this]
  have head: "relay_forward_head chacha blake2b now rc1 p = (False, inc_relay now rc1, p1)" .
  with Cons.prems(3) have "unrecognized_before_last chacha blake2b now (rcs1 @ [rc]) p1"
    by (simp add: rcs tl)
  from Cons.IH [OF rest w this Cons.prems(4-6)] head show ?case
    by (simp add: rcs)
qed

lemma encrypt_forward_wraps:
  assumes "circuit_sync n hs rcs" and "length p = 509"
    and "moor_circuit_encrypt_forward chacha blake2b n hs p = (True, hs', p')"
    and "moor_relay_set_digest blake2b p (h_forward_digest (hs ! (n - 1))) = (q, d)"
  shows "wrap chacha (take n hs) q = Some p'"
    and "take n hs' = map inc_forward (take (n - 1) hs) @ [(inc_forward (hs ! (n - 1)))\<lparr>h_forward_digest := d\<rparr>]"
    and "length hs' = length hs"
proof -
  let ?h = "(hs ! (n - 1))\<lparr>h_forward_digest := d\<rparr>"
  let ?hs = "hs[n - 1 := ?h]"
  from assms have n: "0 < n" "n \<le> length hs" by (simp_all add: circuit_sync_def)
  from n assms have enc: "encrypt_layers chacha n ?hs q = (True, hs', p')"
    by (simp add: moor_circuit_encrypt_forward_def)
  from n obtain m where m: "n = Suc m" by (cases n) auto
  with n have t: "take n hs = take (n - 1) hs @ [hs ! (n - 1)]"
    and t': "take n ?hs = take (n - 1) hs @ [?h]"
    by (simp_all add: take_Suc_conv_app_nth)
  from n have "n \<le> length ?hs" by simp
  from encrypt_layers_wrap [OF this enc] t' have w: "wrap chacha (take (n - 1) hs @ [?h]) q = Some p'"
    and hs': "hs' = map inc_forward (take (n - 1) hs @ [?h]) @ drop n ?hs" by simp_all
  from w show "wrap chacha (take n hs) q = Some p'" by (simp add: t wrap_digest_irrelevant)
  have len: "length (map inc_forward (take (n - 1) hs @ [?h])) = n" using n by simp
  have "take n hs' = map inc_forward (take (n - 1) hs @ [?h])"
    unfolding hs' using len by (metis append_eq_conv_conj)
  then show "take n hs' = map inc_forward (take (n - 1) hs) @
      [(inc_forward (hs ! (n - 1)))\<lparr>h_forward_digest := d\<rparr>]"
    by (simp add: inc_forward_def)
  show "length hs' = length hs" unfolding hs' using len n by simp
qed

lemma list_all2_snoc2:
  assumes "list_all2 P xs ys" and "xs = as @ [a]"
  obtains bs b where "ys = bs @ [b]" and "list_all2 P as bs" and "P a b"
  using assms by (auto simp: list_all2_append1 list_all2_Cons1)

lemma forward_delivery:
  assumes sync: "circuit_sync n hs rcs" and len: "length p = 509" and rec: "p ! 1 = 0" "p ! 2 = 0"
    and enc: "moor_circuit_encrypt_forward chacha blake2b n hs p = (True, hs', p')"
    and quiet: "unrecognized_before_last chacha blake2b now rcs p'"
  shows "\<exists>rcs'. forward_path chacha blake2b now 0 rcs p' =
      (Some (n - 1, fst (moor_relay_set_digest blake2b p (h_forward_digest (hs ! (n - 1))))), rcs') \<and>
    circuit_sync n hs' rcs'"
proof -
  let ?h = "hs ! (n - 1)"
  obtain q d where qd: "moor_relay_set_digest blake2b p (h_forward_digest ?h) = (q, d)"
    by (cases "moor_relay_set_digest blake2b p (h_forward_digest ?h)") auto
  note w = encrypt_forward_wraps [OF sync len enc qd]
  from sync have n: "0 < n" "n \<le> length hs" and la: "list_all2 hop_sync (take n hs) rcs"
    by (auto simp: circuit_sync_def)
  from n have t: "take n hs = take (n - 1) hs @ [?h]"
    by (cases n) (simp_all add: take_Suc_conv_app_nth)
  obtain rcs1 rc where rcs: "rcs = rcs1 @ [rc]" and la1: "list_all2 hop_sync (take (n - 1) hs) rcs1"
    and hrc: "hop_sync ?h rc" by (rule list_all2_snoc2 [OF la t])
  from hrc have dig: "length (h_forward_digest ?h) = 32" "rc_forward_digest rc = h_forward_digest ?h"
    by (auto simp: hop_sync_def)
  have chk: "moor_relay_check_digest blake2b q (rc_forward_digest rc) = (True, d)"
    using check_set_digest [OF len dig(1) qd] dig(2) by simp
  have q12: "q ! 1 = 0" "q ! 2 = 0"
    using set_digest_nth [OF len, of 1 blake2b "h_forward_digest ?h"]
      set_digest_nth [OF len, of 2 blake2b "h_forward_digest ?h"] rec qd by simp_all
  have ll: "length rcs1 = n - 1" using list_all2_lengthD [OF la1] n by simp
  have "forward_path chacha blake2b now 0 (rcs1 @ [rc]) p' = (Some (0 + length rcs1, q),
      map (inc_relay now) rcs1 @ [(inc_relay now rc)\<lparr>rc_forward_digest := d\<rparr>])"
    using la t rcs w(1) quiet q12 chk by (intro forward_path_unwraps) auto
  moreover have "list_all2 hop_sync (map inc_forward (take (n - 1) hs)) (map (inc_relay now) rcs1)"
    using list_all2_mono [OF la1, of "\<lambda>h rc. hop_sync (inc_forward h) (inc_relay now rc)"]
    by (simp add: list.rel_map hop_sync_inc(1))
  moreover have "hop_sync ((inc_forward ?h)\<lparr>h_forward_digest := d\<rparr>) ((inc_relay now rc)\<lparr>rc_forward_digest := d\<rparr>)"
    by (intro hop_sync_inc hrc set_digest_wf(2) [OF len qd])
  ultimately show ?thesis
    using n w(2,3) qd rcs ll by (auto simp: circuit_sync_def intro!: list_all2_appendI)
qed

section \<open>The backward direction\<close>

definition inc_backward :: "hop \<Rightarrow> hop" where
  "inc_backward h = h\<lparr>h_backward_nonce := h_backward_nonce h + 1\<rparr>"

definition inc_relay_backward :: "relay_circ \<Rightarrow> relay_circ" where
  "inc_relay_backward rc = rc\<lparr>rc_backward_nonce := rc_backward_nonce rc + 1\<rparr>"

text \<open>The part of \<open>hop_sync\<close> that the backward layers depend on.\<close>

definition back_sync :: "hop \<Rightarrow> relay_circ \<Rightarrow> bool" where
  "back_sync h rc \<longleftrightarrow>
    h_backward_key h = rc_backward_key rc \<and> h_backward_nonce h = rc_backward_nonce rc"

lemma back_sync_hop_sync: "hop_sync h rc \<Longrightarrow> back_sync h rc"
  by (simp add: hop_sync_def back_sync_def)

lemma hop_sync_inc_backward:
  "hop_sync h rc \<Longrightarrow> hop_sync (inc_backward h) (inc_relay_backward rc)"
  "hop_sync h rc \<Longrightarrow> length d = 32 \<Longrightarrow>
    hop_sync (h\<lparr>h_backward_digest := d\<rparr>) (rc\<lparr>rc_backward_digest := d\<rparr>)"
  by (auto simp: hop_sync_def inc_backward_def inc_relay_backward_def)

lemma relay_encrypt_cases:
  assumes "moor_circuit_relay_encrypt chacha rc q = (ok, rc', p, close)"
  shows "close = None \<longleftrightarrow> ok"
    and "ok \<Longrightarrow> rc' = inc_relay_backward rc"
    and "ok \<Longrightarrow> rc_backward_nonce rc \<noteq> UINT64_MAX"
    and "ok \<Longrightarrow> moor_crypto_stream_xor chacha p (rc_backward_key rc) (rc_backward_nonce rc) = Some q"
  using assms
  by (auto simp: moor_circuit_relay_encrypt_def inc_relay_backward_def
      split: if_splits option.splits dest: stream_xor_inverse)

lemma decrypt_layers_step:
  "i < n \<Longrightarrow> h_backward_nonce (hs ! i) \<noteq> UINT64_MAX \<Longrightarrow>
    moor_crypto_stream_xor chacha p (h_backward_key (hs ! i)) (h_backward_nonce (hs ! i)) = Some q \<Longrightarrow>
    decrypt_layers chacha i n hs p = decrypt_layers chacha (Suc i) n (hs[i := inc_backward (hs ! i)]) q"
  by (subst decrypt_layers.simps) (simp add: inc_backward_def)

lemma decrypt_layers_done: "decrypt_layers chacha n n hs p = (True, hs, p)"
  by (subst decrypt_layers.simps) simp

text \<open>
  The client unwraps what the relays \<open>rcs\<close>, from position \<open>i\<close> of the circuit on, have
  wrapped.
\<close>

lemma decrypt_layers_unwraps:
  assumes "backward_layers chacha rcs q = (p, rcs', closes)" and "\<forall>c \<in> set closes. c = None"
    and "list_all2 back_sync hs rcs"
  shows "rcs' = map inc_relay_backward rcs"
    and "decrypt_layers chacha (length pre) (length pre + length hs) (pre @ hs @ post) p =
      (True, pre @ map inc_backward hs @ post, q)"
proof -
  have "rcs' = map inc_relay_backward rcs \<and>
      decrypt_layers chacha (length pre) (length pre + length hs) (pre @ hs @ post) p =
        (True, pre @ map inc_backward hs @ post, q)"
    using assms
  proof (induction rcs arbitrary: hs pre p rcs' closes)
    case Nil
    then show ?case by (simp add: decrypt_layers_done)
  next
    case (Cons rc rcs)
    from Cons.prems(3) obtain h hs1 where hs: "hs = h # hs1" and h: "back_sync h rc"
      and rest: "list_all2 back_sync hs1 rcs" by (auto simp: list_all2_Cons2)
    obtain p1 rcs1 closes1 where b: "backward_layers chacha rcs q = (p1, rcs1, closes1)"
      by (cases "backward_layers chacha rcs q") auto
    obtain ok rc1 p2 close where e: "moor_circuit_relay_encrypt chacha rc p1 = (ok, rc1, p2, close)"
      by (cases "moor_circuit_relay_encrypt chacha rc p1") auto
    note ec = relay_encrypt_cases [OF e]
    from Cons.prems(1,2) b e ec(1) have p: "p = p2" and rcs': "rcs' = rc1 # rcs1" and ok: ok
      and cl: "\<forall>c \<in> set closes1. c = None" by auto
    from ec(3) [OF ok] ec(4) [OF ok] h have
      "decrypt_layers chacha (length pre) (length pre + length hs) (pre @ hs @ post) p =
        decrypt_layers chacha (Suc (length pre)) (length pre + length hs)
          (pre @ inc_backward h # hs1 @ post) p1"
      by (subst decrypt_layers_step [where q = p1]) (auto simp: hs p back_sync_def)
    with Cons.IH [OF b cl rest, of "pre @ [inc_backward h]"] rcs' ec(2) [OF ok]
    show ?case by (simp add: hs)
  qed
  then show "rcs' = map inc_relay_backward rcs"
    and "decrypt_layers chacha (length pre) (length pre + length hs) (pre @ hs @ post) p =
      (True, pre @ map inc_backward hs @ post, q)" by simp_all
qed

lemma backward_delivery:
  assumes sync: "circuit_sync n hs rcs" and len: "length p = 509"
    and snd: "exit_send_backward chacha blake2b rcs p = (p', rcs', closes)"
    and ok: "\<forall>c \<in> set closes. c = None"
  shows "\<exists>hs'. moor_circuit_decrypt_backward chacha blake2b n hs p' =
      (True, hs', fst (moor_relay_set_digest blake2b p (rc_backward_digest (last rcs)))) \<and>
    circuit_sync n hs' rcs'"
proof -
  let ?h = "hs ! (n - 1)"
  obtain q d where qd: "moor_relay_set_digest blake2b p (rc_backward_digest (last rcs)) = (q, d)"
    by (cases "moor_relay_set_digest blake2b p (rc_backward_digest (last rcs))") auto
  from sync have n: "0 < n" "n \<le> length hs" and la: "list_all2 hop_sync (take n hs) rcs"
    by (auto simp: circuit_sync_def)
  from n have t: "take n hs = take (n - 1) hs @ [?h]"
    by (cases n) (simp_all add: take_Suc_conv_app_nth)
  obtain rcs1 rc where rcs: "rcs = rcs1 @ [rc]" and la1: "list_all2 hop_sync (take (n - 1) hs) rcs1"
    and hrc: "hop_sync ?h rc" by (rule list_all2_snoc2 [OF la t])
  from hrc qd rcs have dl: "length (h_backward_digest ?h) = 32"
    and qd': "moor_relay_set_digest blake2b p (h_backward_digest ?h) = (q, d)"
    by (auto simp: hop_sync_def)
  let ?rcs = "rcs1 @ [rc\<lparr>rc_backward_digest := d\<rparr>]"
  from snd qd rcs have b: "backward_layers chacha ?rcs q = (p', rcs', closes)"
    by (simp add: exit_send_backward_def)
  have la': "list_all2 back_sync (take n hs) ?rcs"
    unfolding t
  proof (rule list_all2_appendI)
    show "list_all2 back_sync (take (n - 1) hs) rcs1"
      by (rule list_all2_mono [OF la1]) (rule back_sync_hop_sync)
    show "list_all2 back_sync [?h] [rc\<lparr>rc_backward_digest := d\<rparr>]"
      using back_sync_hop_sync [OF hrc] by (simp add: back_sync_def)
  qed
  note un = decrypt_layers_unwraps(1) [OF b ok la']
    decrypt_layers_unwraps(2) [OF b ok la', of "[]" "drop n hs"]
  let ?hs = "map inc_backward (take n hs) @ drop n hs"
  have dec: "decrypt_layers chacha 0 n hs p' = (True, ?hs, q)" using un(2) n by simp
  have at: "?hs ! (n - 1) = inc_backward ?h" using n by (simp add: nth_append)
  have chk: "moor_relay_check_digest blake2b q (h_backward_digest (inc_backward ?h)) = (True, d)"
    using check_set_digest [OF len dl qd'] by (simp add: inc_backward_def)
  let ?hs' = "?hs[n - 1 := (inc_backward ?h)\<lparr>h_backward_digest := d\<rparr>]"
  have res: "moor_circuit_decrypt_backward chacha blake2b n hs p' = (True, ?hs', q)"
    using n dec at chk by (simp add: moor_circuit_decrypt_backward_def)
  have "take n ?hs' = map inc_backward (take (n - 1) hs) @ [(inc_backward ?h)\<lparr>h_backward_digest := d\<rparr>]"
    using n t by (auto simp: take_update_swap list_update_append min_def)
  moreover have "list_all2 hop_sync (map inc_backward (take (n - 1) hs)) (map inc_relay_backward rcs1)"
    using list_all2_mono [OF la1, of "\<lambda>h rc. hop_sync (inc_backward h) (inc_relay_backward rc)"]
    by (simp add: list.rel_map hop_sync_inc_backward(1))
  moreover have "hop_sync ((inc_backward ?h)\<lparr>h_backward_digest := d\<rparr>)
      (inc_relay_backward (rc\<lparr>rc_backward_digest := d\<rparr>))"
    using hrc set_digest_wf(2) [OF len qd]
    by (auto simp: hop_sync_def inc_backward_def inc_relay_backward_def)
  ultimately have "circuit_sync n ?hs' rcs'"
    using n un(1) by (auto simp: circuit_sync_def intro!: list_all2_appendI)
  with res qd show ?thesis by auto
qed

section \<open>Streams of cells\<close>

text \<open>
  The backward direction as a channel: the relays of the circuit are the sender, the client
  is the receiver. A cell is sent when no relay asks for the circuit to be closed; what the
  channel keeps of a cell is everything but its digest field.
\<close>

definition backward_send ::
    "chacha20 \<Rightarrow> (bytes \<Rightarrow> bytes) \<Rightarrow> relay_circ list \<Rightarrow> bytes \<Rightarrow> (bytes \<times> relay_circ list) option" where
  "backward_send chacha blake2b rcs p =
    (let (p', rcs', closes) = exit_send_backward chacha blake2b rcs p
     in if list_all (\<lambda>c. c = None) closes then Some (p', rcs') else None)"

definition backward_recv ::
    "chacha20 \<Rightarrow> (bytes \<Rightarrow> bytes) \<Rightarrow> nat \<Rightarrow> hop list \<Rightarrow> bytes \<Rightarrow> (bytes \<times> hop list) option" where
  "backward_recv chacha blake2b n hs p =
    (case moor_circuit_decrypt_backward chacha blake2b n hs p of
       (True, hs', q) \<Rightarrow> Some (q, hs') | (False, _, _) \<Rightarrow> None)"

definition undigested :: "bytes \<Rightarrow> bytes" where
  "undigested p = mem_write p 5 (replicate 4 0)"

lemma undigested_set_digest:
  "length p = 509 \<Longrightarrow> undigested (fst (moor_relay_set_digest blake2b p d)) = undigested p"
  by (simp add: undigested_def moor_relay_set_digest_def Let_def mem_write_write_same)

interpretation backward_stream: sync_channel
  "backward_send chacha blake2b" "backward_recv chacha blake2b n"
  "\<lambda>rcs hs. circuit_sync n hs rcs" "\<lambda>p. length p = 509" undigested
  for chacha blake2b n
proof
  fix rcs hs p p' rcs'
  assume s: "circuit_sync n hs rcs" and l: "length p = 509"
    and "backward_send chacha blake2b rcs p = Some (p', rcs')"
  then obtain closes where "exit_send_backward chacha blake2b rcs p = (p', rcs', closes)"
    and "\<forall>c \<in> set closes. c = None"
    by (auto simp: backward_send_def list_all_iff split: prod.splits if_splits)
  from backward_delivery [OF s l this] undigested_set_digest [OF l]
  show "\<exists>q hs'. backward_recv chacha blake2b n hs p' = Some (q, hs') \<and>
      undigested q = undigested p \<and> circuit_sync n hs' rcs'"
    by (auto simp: backward_recv_def)
qed

text \<open>As long as the cipher works and no counter is exhausted, no relay asks for a close.\<close>

lemma backward_send_total:
  assumes "\<forall>k b. chacha k b \<noteq> None" and "rcs \<noteq> []"
    and "\<forall>rc \<in> set rcs. rc_backward_nonce rc \<noteq> UINT64_MAX"
  shows "\<exists>p'. backward_send chacha blake2b rcs p =
    Some (p', map inc_relay_backward (butlast rcs) @ [(inc_relay_backward (last rcs))
      \<lparr>rc_backward_digest := snd (moor_relay_set_digest blake2b p (rc_backward_digest (last rcs)))\<rparr>])"
proof -
  have layers: "\<forall>rc \<in> set rs. rc_backward_nonce rc \<noteq> UINT64_MAX \<Longrightarrow>
      \<exists>p' cl. backward_layers chacha rs q = (p', map inc_relay_backward rs, cl) \<and> (\<forall>c \<in> set cl. c = None)" for rs q
  proof (induction rs)
    case (Cons rc rs)
    then obtain p' cl where b: "backward_layers chacha rs q = (p', map inc_relay_backward rs, cl)"
      and n: "\<forall>c \<in> set cl. c = None" by auto
    obtain ks where "chacha (rc_backward_key rc) (nonce_buf (rc_backward_nonce rc)) = Some ks"
      using assms(1) by blast
    with Cons.prems have "\<exists>p2. moor_circuit_relay_encrypt chacha rc p' =
        (True, inc_relay_backward rc, p2, None)"
      by (simp add: moor_circuit_relay_encrypt_def moor_crypto_stream_xor_def inc_relay_backward_def)
    with b n show ?case by auto
  qed simp
  obtain q d where qd: "moor_relay_set_digest blake2b p (rc_backward_digest (last rcs)) = (q, d)"
    by (cases "moor_relay_set_digest blake2b p (rc_backward_digest (last rcs))") auto
  have "\<forall>rc \<in> set (butlast rcs @ [(last rcs)\<lparr>rc_backward_digest := d\<rparr>]). rc_backward_nonce rc \<noteq> UINT64_MAX"
    using assms(2,3) by (auto dest: in_set_butlastD)
  from layers [OF this, of q] qd show ?thesis
    by (auto simp: backward_send_def exit_send_backward_def list_all_iff inc_relay_backward_def)
qed

section \<open>Nonces are used once\<close>

text \<open>Sending one payload forward: the wire payload and the new state of the hops.\<close>

definition forward_send :: "chacha20 \<Rightarrow> (bytes \<Rightarrow> bytes) \<Rightarrow> nat \<Rightarrow> hop list \<Rightarrow> bytes \<Rightarrow> (bytes \<times> hop list) option" where
  "forward_send chacha blake2b n hs p =
    (case moor_circuit_encrypt_forward chacha blake2b n hs p of (ok, hs', c) \<Rightarrow> if ok then Some (c, hs') else None)"

text \<open>
  A payload under the key streams of a list of cipher calls, each a key and a 12-byte nonce,
  and the calls expected for the \<open>j\<close>-th payload: each hop's key with its counter moved on by \<open>j\<close>.
\<close>

fun xor_calls :: "chacha20 \<Rightarrow> (bytes \<times> bytes) list \<Rightarrow> bytes \<Rightarrow> bytes option" where
  "xor_calls chacha [] p = Some p"
| "xor_calls chacha ((key, nonce) # calls) p =
     (case xor_calls chacha calls p of None \<Rightarrow> None
      | Some q \<Rightarrow> map_option (\<lambda>ks. xor_keystream ks q) (chacha key nonce))"

definition cipher_calls :: "nat \<Rightarrow> hop list \<Rightarrow> nat \<Rightarrow> (bytes \<times> bytes) list" where
  "cipher_calls n hs j = map (\<lambda>h. (h_forward_key h, nonce_buf (h_forward_nonce h + of_nat j))) (take n hs)"

lemma wrap_calls:
  "wrap chacha hs p = Some q \<Longrightarrow>
    xor_calls chacha (map (\<lambda>h. (h_forward_key h, nonce_buf (h_forward_nonce h))) hs) p = Some q \<and>
    (\<forall>h \<in> set hs. h_forward_nonce h \<noteq> UINT64_MAX)"
  by (induction hs arbitrary: q) (auto simp: moor_crypto_stream_xor_def split: option.splits if_splits)

lemma forward_send_step:
  assumes "0 < n" "n \<le> length hs" and "length p = 509" and "forward_send chacha blake2b n hs p = Some (c, hs')"
  shows "\<exists>q. undigested q = undigested p \<and> xor_calls chacha (cipher_calls n hs 0) q = Some c"
    and "length hs' = length hs" and "\<forall>i < n. h_forward_nonce (hs ! i) \<noteq> UINT64_MAX"
    and "\<forall>i < n. h_forward_nonce (hs' ! i) = h_forward_nonce (hs ! i) + 1"
    and "\<And>j. cipher_calls n hs' j = cipher_calls n hs (Suc j)"
proof -
  let ?h = "hs ! (n - 1)"
  let ?q = "fst (moor_relay_set_digest blake2b p (h_forward_digest ?h))"
  let ?hs = "hs[n - 1 := ?h\<lparr>h_forward_digest := snd (moor_relay_set_digest blake2b p (h_forward_digest ?h))\<rparr>]"
  have "moor_circuit_encrypt_forward chacha blake2b n hs p = (True, hs', c)"
    using assms(4) by (auto simp: forward_send_def split: if_splits prod.splits)
  then have e: "encrypt_layers chacha n ?hs ?q = (True, hs', c)"
    using assms(1) by (simp add: moor_circuit_encrypt_forward_def Let_def case_prod_beta)
  have nn: "h_forward_nonce (?hs ! j) = h_forward_nonce (hs ! j)" "h_forward_key (?hs ! j) = h_forward_key (hs ! j)" for j
    using assms by (cases "j = n - 1"; simp)+
  have l: "n \<le> length ?hs" using assms by simp
  from encrypt_layers_wrap [OF l e] have w: "wrap chacha (take n ?hs) ?q = Some c"
    and hs': "hs' = map inc_forward (take n ?hs) @ drop n ?hs" by simp_all
  have cc: "cipher_calls n ?hs j = cipher_calls n hs j" for j
    using assms nn by (intro nth_equalityI) (simp_all add: cipher_calls_def)
  have "xor_calls chacha (cipher_calls n hs 0) ?q = Some c"
    using wrap_calls [OF w] cc [of 0] by (simp add: cipher_calls_def)
  then show "\<exists>q. undigested q = undigested p \<and> xor_calls chacha (cipher_calls n hs 0) q = Some c"
    using undigested_set_digest [OF assms(3)] by blast
  show "length hs' = length hs" using l by (simp add: hs')
  show "\<forall>i < n. h_forward_nonce (hs ! i) \<noteq> UINT64_MAX"
  proof (intro allI impI)
    fix i assume "i < n"
    then have "?hs ! i \<in> set (take n ?hs)" using l by (auto simp: in_set_conv_nth intro!: exI [of _ i])
    then show "h_forward_nonce (hs ! i) \<noteq> UINT64_MAX" using wrap_calls [OF w] nn(1) [of i] by fastforce
  qed
  show "\<forall>i < n. h_forward_nonce (hs' ! i) = h_forward_nonce (hs ! i) + 1"
    using l nn(1) by (simp add: hs' nth_append inc_forward_def)
  show "cipher_calls n hs' j = cipher_calls n hs (Suc j)" for j
  proof -
    have "cipher_calls n hs' j = cipher_calls n ?hs (Suc j)"
      using l by (simp add: cipher_calls_def hs' inc_forward_def add.assoc)
    then show ?thesis using cc by simp
  qed
qed

lemma forward_sends:
  assumes "0 < n" "n \<le> length hs" and "\<forall>p \<in> set ps. length p = 509"
    and "send_all (forward_send chacha blake2b n) hs ps = Some (cs, hs')"
  shows "length cs = length ps \<and> (\<forall>i < n. unat (h_forward_nonce (hs ! i)) + length ps < 2 ^ 64) \<and>
    (\<forall>j < length ps. \<exists>q. undigested q = undigested (ps ! j) \<and> xor_calls chacha (cipher_calls n hs j) q = Some (cs ! j))"
  using assms
proof (induction ps arbitrary: hs cs)
  case Nil
  have "unat (x :: u64) < 2 ^ 64" for x using unsigned_less [where 'b = 64 and 'a = nat, of x] by simp
  then show ?case using Nil by simp
next
  case (Cons p ps)
  from Cons.prems(4) obtain c hs1 cs1 where s: "forward_send chacha blake2b n hs p = Some (c, hs1)"
    "send_all (forward_send chacha blake2b n) hs1 ps = Some (cs1, hs')" "cs = c # cs1"
    by (auto split: option.splits prod.splits)
  have l: "length p = 509" "\<forall>p \<in> set ps. length p = 509" using Cons.prems(3) by simp_all
  note st = forward_send_step [OF Cons.prems(1,2) l(1) s(1)]
  have "n \<le> length hs1" using Cons.prems(2) st(2) by simp
  note ih = Cons.IH [OF Cons.prems(1) this l(2) s(2)]
  have "unat (h_forward_nonce (hs1 ! i)) = unat (h_forward_nonce (hs ! i)) + 1" if "i < n" for i
    using st(3,4) that by (simp add: unat_succ_below_max)
  then have "\<forall>i < n. unat (h_forward_nonce (hs ! i)) + length (p # ps) < 2 ^ 64" using ih by simp
  moreover have "\<exists>q. undigested q = undigested ((p # ps) ! j) \<and> xor_calls chacha (cipher_calls n hs j) q = Some (cs ! j)"
    if "j < length (p # ps)" for j
    using that st(1,5) ih by (cases j) (simp_all add: s(3))
  ultimately show ?case using ih s(3) by simp
qed

lemma counters_distinct:
  assumes "unat (x :: u64) + m < 2 ^ 64"
  shows "distinct (map (\<lambda>j. nonce_buf (x + of_nat j)) [0..<m])"
proof -
  have "i = j" if "i < m" "j < m" "x + of_nat i = x + of_nat j" for i j :: nat
  proof -
    have "unat (x + of_nat k) = unat x + k" if "k < m" for k :: nat
      using assms that by (simp add: unat_word_ariths unat_of_nat)
    with that show ?thesis by (metis add_left_cancel)
  qed
  then show ?thesis unfolding distinct_map inj_on_def by (auto dest!: nonce_buf_inj)
qed

section \<open>Properties\<close>

text \<open>
  C1. A cell the client sends on a circuit of \<open>n\<close> hops reaches the last relay intact. When
  client and relays are in step, no forward nonce of the circuit is exhausted, the cipher
  does not fail, the payload has its recognized field zero and no relay before the last takes
  the wrapped cell for its own, \<open>moor_circuit_encrypt_forward\<close> succeeds, every earlier relay
  passes the cell on, relay \<open>n - 1\<close> recognizes it and reads exactly the payload the client
  stamped, and client and relays are in step again.
\<close>

theorem onion_forward_delivery:
  assumes "circuit_sync n hs rcs" and "length p = 509" and "p ! 1 = 0" and "p ! 2 = 0"
    and "\<forall>i < n. h_forward_nonce (hs ! i) \<noteq> UINT64_MAX" and "\<forall>k b. chacha k b \<noteq> None"
    and "unrecognized_before_last chacha blake2b now rcs
      (snd (snd (moor_circuit_encrypt_forward chacha blake2b n hs p)))"
  shows "\<exists>hs' p' rcs'. moor_circuit_encrypt_forward chacha blake2b n hs p = (True, hs', p') \<and>
    forward_path chacha blake2b now 0 rcs p' =
      (Some (n - 1, fst (moor_relay_set_digest blake2b p (h_forward_digest (hs ! (n - 1))))), rcs') \<and>
    circuit_sync n hs' rcs'"
proof -
  obtain ok hs' p' where e: "moor_circuit_encrypt_forward chacha blake2b n hs p = (ok, hs', p')"
    by (cases "moor_circuit_encrypt_forward chacha blake2b n hs p") auto
  from assms(1) have n: "0 < n" "n \<le> length hs" by (auto simp: circuit_sync_def)
  obtain q d where qd: "moor_relay_set_digest blake2b p (h_forward_digest (hs ! (n - 1))) = (q, d)"
    by (cases "moor_relay_set_digest blake2b p (h_forward_digest (hs ! (n - 1)))") auto
  let ?hs = "hs[n - 1 := (hs ! (n - 1))\<lparr>h_forward_digest := d\<rparr>]"
  have nn: "\<forall>i < n. h_forward_nonce (?hs ! i) \<noteq> UINT64_MAX"
    using assms(5) n by (auto simp: nth_list_update)
  from n have "n \<le> length ?hs" by simp
  from encrypt_layers_total [OF nn assms(6) this, of q] e n qd have ok
    by (simp add: moor_circuit_encrypt_forward_def)
  with e have e': "moor_circuit_encrypt_forward chacha blake2b n hs p = (True, hs', p')" by simp
  with forward_delivery [OF assms(1-4) this] assms(7) show ?thesis by auto
qed

definition demo_chacha :: chacha20 where
  "demo_chacha k b = Some (\<lambda>i. k ! 0 XOR b ! 0)"

definition demo_hop :: "byte \<Rightarrow> hop" where
  "demo_hop k = \<lparr> h_forward_key = [k], h_backward_key = [k + 1], h_forward_nonce = 0,
    h_backward_nonce = 0, h_forward_digest = replicate 32 k, h_backward_digest = replicate 32 k \<rparr>"

definition demo_relay :: "byte \<Rightarrow> relay_circ" where
  "demo_relay k = \<lparr> rc_forward_key = [k], rc_backward_key = [k + 1], rc_forward_nonce = 0,
    rc_backward_nonce = 0, rc_forward_digest = replicate 32 k, rc_backward_digest = replicate 32 k,
    rc_last_cell_time = 0 \<rparr>"

theorem onion_forward_delivery_witness:
  "\<exists>hs' p' rcs'.
    moor_circuit_encrypt_forward demo_chacha (\<lambda>m. replicate 32 (m ! 0)) 2
      [demo_hop 5, demo_hop 6] (replicate 509 0) = (True, hs', p') \<and>
    forward_path demo_chacha (\<lambda>m. replicate 32 (m ! 0)) 7 0 [demo_relay 5, demo_relay 6] p' =
      (Some (1, fst (moor_relay_set_digest (\<lambda>m. replicate 32 (m ! 0)) (replicate 509 0) (replicate 32 6))), rcs') \<and>
    circuit_sync 2 hs' rcs'"
proof -
  have sync: "circuit_sync 2 [demo_hop 5, demo_hop 6] [demo_relay 5, demo_relay 6]"
    by (simp add: circuit_sync_def hop_sync_def demo_hop_def demo_relay_def numeral_2_eq_2)
  have quiet: "unrecognized_before_last demo_chacha (\<lambda>m. replicate 32 (m ! 0)) 7
      [demo_relay 5, demo_relay 6]
      (snd (snd (moor_circuit_encrypt_forward demo_chacha (\<lambda>m. replicate 32 (m ! 0)) 2
        [demo_hop 5, demo_hop 6] (replicate 509 0))))"
    by code_simp
  have nonces: "\<forall>i < 2. h_forward_nonce ([demo_hop 5, demo_hop 6] ! i) \<noteq> UINT64_MAX"
    by (simp add: demo_hop_def numeral_2_eq_2 less_Suc_eq)
  show ?thesis
    using onion_forward_delivery [OF sync _ _ _ nonces _ quiet]
    by (simp add: demo_chacha_def demo_hop_def)
qed

text \<open>
  C2. Backward streams arrive in order and intact. Whatever sequence of cells the last relay
  of a circuit in step sends, each wrapped by every relay on the way without a close request,
  the client unwraps and accepts the same sequence with \<open>moor_circuit_decrypt_backward\<close>:
  every payload agrees with the one sent outside the digest field, none is missing or
  rejected, and the two ends are in step afterwards.
\<close>

theorem onion_backward_stream:
  assumes "circuit_sync n hs rcs" and "\<forall>p \<in> set ps. length p = 509"
    and "send_all (backward_send chacha blake2b) rcs ps = Some (cs, rcs')"
  shows "\<exists>qs hs'. recv_all (backward_recv chacha blake2b n) hs cs = Some (qs, hs') \<and>
    map undigested qs = map undigested ps \<and> circuit_sync n hs' rcs'"
  by (rule backward_stream.stream_delivered [OF assms])

theorem onion_backward_stream_witness:
  "\<exists>qs hs'. recv_all (backward_recv demo_chacha (\<lambda>m. replicate 32 (m ! 0)) 2) [demo_hop 5, demo_hop 6]
      (fst (the (send_all (backward_send demo_chacha (\<lambda>m. replicate 32 (m ! 0)))
        [demo_relay 5, demo_relay 6] [replicate 509 1, replicate 509 2]))) = Some (qs, hs') \<and>
    map undigested qs = map undigested [replicate 509 1, replicate 509 2]"
proof -
  let ?run = "send_all (backward_send demo_chacha (\<lambda>m. replicate 32 (m ! 0)))
    [demo_relay 5, demo_relay 6] [replicate 509 1, replicate 509 2]"
  have sync: "circuit_sync 2 [demo_hop 5, demo_hop 6] [demo_relay 5, demo_relay 6]"
    by (simp add: circuit_sync_def hop_sync_def demo_hop_def demo_relay_def numeral_2_eq_2)
  have total: "\<forall>k b. demo_chacha k b \<noteq> None" by (simp add: demo_chacha_def)
  obtain c1 rcs1 where one: "backward_send demo_chacha (\<lambda>m. replicate 32 (m ! 0))
      [demo_relay 5, demo_relay 6] (replicate 509 1) = Some (c1, rcs1)"
    and rcs1: "rcs1 \<noteq> []" "\<forall>rc \<in> set rcs1. rc_backward_nonce rc \<noteq> UINT64_MAX"
    using backward_send_total [OF total, of "[demo_relay 5, demo_relay 6]" "\<lambda>m. replicate 32 (m ! 0)" "replicate 509 1"]
    by (auto simp: demo_relay_def inc_relay_backward_def)
  then obtain cs rcs' where run: "?run = Some (cs, rcs')"
    using backward_send_total [OF total rcs1, of "\<lambda>m. replicate 32 (m ! 0)" "replicate 509 2"] by auto
  have len: "\<forall>p \<in> set [replicate 509 (1 :: byte), replicate 509 2]. length p = 509" by simp
  from onion_backward_stream [OF sync len run] run show ?thesis by auto
qed

text \<open>
  C14. No forward nonce is used twice. Let a client send any sequence of payloads on a circuit.
  The \<open>j\<close>-th wire payload is the stamped payload under exactly one key stream per hop: the one
  the cipher gives for that hop's key and the hop's starting counter plus \<open>j\<close>. The counter of a
  hop never wraps around, so the 12-byte nonces the cipher gets with one hop's key are pairwise
  distinct.
\<close>

theorem onion_forward_nonces_distinct:
  assumes "0 < n" and "n \<le> length hs" and "\<forall>p \<in> set ps. length p = 509"
    and "send_all (forward_send chacha blake2b n) hs ps = Some (cs, hs')"
  shows "length cs = length ps \<and>
    (\<forall>j < length ps. \<exists>q. undigested q = undigested (ps ! j) \<and> xor_calls chacha (cipher_calls n hs j) q = Some (cs ! j)) \<and>
    (\<forall>i < n. unat (h_forward_nonce (hs ! i)) + length ps < 2 ^ 64 \<and>
      distinct (map (\<lambda>j. snd (cipher_calls n hs j ! i)) [0..<length ps]))"
proof -
  note f = forward_sends [OF assms]
  have "distinct (map (\<lambda>j. snd (cipher_calls n hs j ! i)) [0..<length ps])" if "i < n" for i
    using counters_distinct [of "h_forward_nonce (hs ! i)" "length ps"] f that assms(2) by (simp add: cipher_calls_def)
  with f show ?thesis by blast
qed

theorem onion_forward_nonces_distinct_witness:
  "\<exists>cs hs'. send_all (forward_send demo_chacha (\<lambda>m. replicate 32 (m ! 0)) 2) [demo_hop 5, demo_hop 6]
      [replicate 509 0, replicate 509 0] = Some (cs, hs') \<and> length cs = 2 \<and>
    distinct (map (\<lambda>j. snd (cipher_calls 2 [demo_hop 5, demo_hop 6] j ! 1)) [0..<2])"
proof -
  let ?b = "\<lambda>m. replicate 32 (m ! 0) :: bytes" and ?hs = "[demo_hop 5, demo_hop 6]"
  have t: "\<forall>k b. demo_chacha k b \<noteq> None" by (simp add: demo_chacha_def)
  have send: "\<exists>c hs'. forward_send demo_chacha ?b 2 hs p = Some (c, hs')"
    if "length hs = 2" "\<forall>i < 2. h_forward_nonce (hs ! i) \<noteq> UINT64_MAX" for hs p
  proof -
    have "\<forall>i < 2. h_forward_nonce (hs[1 := (hs ! 1)\<lparr>h_forward_digest := d\<rparr>] ! i) \<noteq> UINT64_MAX" for d
      using that by (auto simp: nth_list_update)
    from encrypt_layers_total [OF this t] that show ?thesis
      by (auto simp: forward_send_def moor_circuit_encrypt_forward_def Let_def case_prod_beta split: prod.split)
  qed
  have n0: "\<forall>i < 2. h_forward_nonce (?hs ! i) \<noteq> UINT64_MAX" and z: "\<forall>i < 2. h_forward_nonce (?hs ! i) = 0"
    by (simp_all add: demo_hop_def numeral_2_eq_2 less_Suc_eq)
  have "length ?hs = 2" by simp
  from send [OF this n0] obtain c1 hs1 where one: "forward_send demo_chacha ?b 2 ?hs (replicate 509 0) = Some (c1, hs1)" by blast
  have "length hs1 = 2" "\<forall>i < 2. h_forward_nonce (hs1 ! i) \<noteq> UINT64_MAX"
    using forward_send_step(2,4) [OF _ _ _ one] z by auto
  from send [OF this] obtain c2 hs2 where two: "forward_send demo_chacha ?b 2 hs1 (replicate 509 0) = Some (c2, hs2)" by blast
  have run: "send_all (forward_send demo_chacha ?b 2) ?hs [replicate 509 0, replicate 509 0] = Some ([c1, c2], hs2)"
    by (simp add: one two)
  from onion_forward_nonces_distinct [OF _ _ _ run] run show ?thesis by (auto simp: numeral_2_eq_2)
qed

end
