(* ===== verification/Fragment.thy ===== *)
theory Fragment
  imports Cell
begin

text \<open>
  Fragmentation of payloads larger than one relay cell (\<open>src/src/fragment.c\<close>,
  \<open>src/include/moor/fragment.h\<close>). The sender hands its cells to a callback with a context,
  a parameter of \<open>moor_fragment_send\<close>; the receiver keeps eight reassembly slots per circuit.
  The theory shows that the slots stay well formed, and that a payload the sender cuts up is
  put together again by the receiver whatever other fragments arrive in between.
\<close>

section \<open>Data\<close>

definition MOOR_FRAGMENT_HEADER :: nat where "MOOR_FRAGMENT_HEADER = 7"
definition MOOR_FRAGMENT_DATA :: nat where "MOOR_FRAGMENT_DATA = 491"
definition MOOR_MAX_REASSEMBLY :: nat where "MOOR_MAX_REASSEMBLY = 4096"
definition MOOR_MAX_PENDING :: nat where "MOOR_MAX_PENDING = 8"
definition MOOR_FRAGMENT_TIMEOUT_MS :: u64 where "MOOR_FRAGMENT_TIMEOUT_MS = 30000"

lemmas fragment_sizes = MOOR_FRAGMENT_HEADER_def MOOR_FRAGMENT_DATA_def MOOR_MAX_REASSEMBLY_def
  MOOR_MAX_PENDING_def MOOR_FRAGMENT_TIMEOUT_MS_def

record moor_reassembly =
  ra_fragment_id :: u16
  ra_expected_total :: u16
  ra_inner_relay_cmd :: u8
  ra_stream_id :: u16
  ra_buffer :: bytes
  ra_received :: nat
  ra_next_seq :: u16
  ra_active :: bool
  ra_started_at :: u64

definition zero_reassembly :: moor_reassembly where
  "zero_reassembly = \<lparr> ra_fragment_id = 0, ra_expected_total = 0, ra_inner_relay_cmd = 0,
    ra_stream_id = 0, ra_buffer = replicate MOOR_MAX_REASSEMBLY 0, ra_received = 0,
    ra_next_seq = 0, ra_active = False, ra_started_at = 0 \<rparr>"

definition moor_reassembly_init :: "moor_reassembly list" where
  "moor_reassembly_init = replicate MOOR_MAX_PENDING zero_reassembly"

text \<open>\<open>random\<close> is the value \<open>moor_crypto_random\<close> leaves in the identifier.\<close>

definition moor_fragment_gen_id :: "u16 \<Rightarrow> u16" where
  "moor_fragment_gen_id random = (if random = 0 then 1 else random)"

section \<open>Sending\<close>

type_synonym 'c send_cb = "'c \<Rightarrow> u32 \<Rightarrow> u8 \<Rightarrow> u16 \<Rightarrow> bytes \<Rightarrow> u16 \<Rightarrow> int \<times> 'c"

definition fragment_bytes :: "u16 \<Rightarrow> u16 \<Rightarrow> u16 \<Rightarrow> u8 \<Rightarrow> bytes \<Rightarrow> bytes" where
  "fragment_bytes fragment_id seq total_len relay_cmd chunk =
    be16 fragment_id @ be16 seq @ be16 total_len @ [relay_cmd] @ chunk"

text \<open>The sending loop, at \<open>offset\<close> and \<open>seq\<close>.\<close>

function fragment_send_loop ::
    "'c send_cb \<Rightarrow> u32 \<Rightarrow> u8 \<Rightarrow> u16 \<Rightarrow> bytes \<Rightarrow> nat \<Rightarrow> u16 \<Rightarrow> nat \<Rightarrow> u16 \<Rightarrow> 'c \<Rightarrow> int \<times> 'c" where
  "fragment_send_loop send_cb circuit_id relay_cmd stream_id data len fragment_id offset seq ctx =
    (if offset < len
     then let chunk = min (len - offset) MOOR_FRAGMENT_DATA;
              is_last = (len \<le> offset + chunk);
              frag_data = fragment_bytes fragment_id seq (of_nat len) relay_cmd (mem_read data offset chunk);
              frag_cmd = relay_cmd_code (if is_last then RELAY_FRAGMENT_END else RELAY_FRAGMENT);
              (rc, ctx') = send_cb ctx circuit_id frag_cmd stream_id frag_data
                             (of_nat (MOOR_FRAGMENT_HEADER + chunk))
          in if rc \<noteq> 0 then (-1, ctx')
             else fragment_send_loop send_cb circuit_id relay_cmd stream_id data len fragment_id
                    (offset + chunk) (seq + 1) ctx'
     else (0, ctx))"
  by pat_completeness auto
termination
  by (relation "measure (\<lambda>(_, _, _, _, _, len, _, offset, _, _). len - offset)")
     (auto simp: MOOR_FRAGMENT_DATA_def)

declare fragment_send_loop.simps [simp del]

definition moor_fragment_send ::
    "u32 \<Rightarrow> u8 \<Rightarrow> u16 \<Rightarrow> bytes option \<Rightarrow> nat \<Rightarrow> u16 \<Rightarrow> 'c send_cb option \<Rightarrow> 'c \<Rightarrow> int \<times> 'c" where
  "moor_fragment_send circuit_id relay_cmd stream_id data len fragment_id send_cb ctx =
    (case (data, send_cb) of
       (Some d, Some cb) \<Rightarrow>
         if len = 0 \<or> len > MOOR_MAX_REASSEMBLY then (-1, ctx)
         else if len \<le> MOOR_RELAY_DATA
         then cb ctx circuit_id relay_cmd stream_id (mem_read d 0 len) (of_nat len)
         else fragment_send_loop cb circuit_id relay_cmd stream_id d len fragment_id 0 0 ctx
     | _ \<Rightarrow> (-1, ctx))"

section \<open>Receiving\<close>

text \<open>The return codes -1, 0 and 1, the last with the output parameters.\<close>

datatype frag_result = FragError | FragMore | FragDone u8 bytes

definition expire_slots :: "u64 \<Rightarrow> moor_reassembly list \<Rightarrow> moor_reassembly list" where
  "expire_slots now slots = map (\<lambda>s.
     if ra_active s \<and> now - ra_started_at s > MOOR_FRAGMENT_TIMEOUT_MS then s\<lparr>ra_active := False\<rparr> else s) slots"

text \<open>
  Finding the slot of a fragment, or allocating one when its sequence number is 0.
  \<open>now\<close> is the time read for the new slot.
\<close>

definition fragment_slot ::
    "u64 \<Rightarrow> moor_reassembly list \<Rightarrow> u16 \<Rightarrow> u16 \<Rightarrow> u16 \<Rightarrow> u8 \<Rightarrow> u16 \<Rightarrow> (nat \<times> moor_reassembly list) option" where
  "fragment_slot now slots frag_id seq total_len inner_cmd stream_id =
    (case first_index (\<lambda>s. ra_active s \<and> ra_fragment_id s = frag_id) slots of
       Some i \<Rightarrow> Some (i, slots)
     | None \<Rightarrow>
         if seq \<noteq> 0 then None
         else (case first_index (\<lambda>s. \<not> ra_active s) slots of
             None \<Rightarrow> None
           | Some i \<Rightarrow> Some (i, slots[i := zero_reassembly\<lparr>ra_active := True, ra_fragment_id := frag_id,
                 ra_expected_total := total_len, ra_inner_relay_cmd := inner_cmd,
                 ra_stream_id := stream_id, ra_next_seq := 0, ra_received := 0,
                 ra_started_at := now\<rparr>])))"

definition fragment_accept ::
    "moor_reassembly list \<Rightarrow> nat \<Rightarrow> u16 \<Rightarrow> u16 \<Rightarrow> u8 \<Rightarrow> bytes \<Rightarrow> u16 \<Rightarrow> u8 \<Rightarrow> frag_result \<times> moor_reassembly list" where
  "fragment_accept slots i seq total_len inner_cmd payload payload_len frag_cmd =
    (let slot = slots ! i in
     if seq \<noteq> ra_next_seq slot then (FragError, slots)
     else if total_len \<noteq> ra_expected_total slot \<or> inner_cmd \<noteq> ra_inner_relay_cmd slot then (FragError, slots)
     else if unat payload_len > MOOR_MAX_REASSEMBLY - ra_received slot then (FragError, slots)
     else let slot' = slot\<lparr>ra_buffer := mem_write (ra_buffer slot) (ra_received slot) payload,
                ra_received := ra_received slot + unat payload_len,
                ra_next_seq := ra_next_seq slot + 1\<rparr>
          in if frag_cmd = relay_cmd_code RELAY_FRAGMENT_END
             then if ra_received slot' \<noteq> unat (ra_expected_total slot')
                  then (FragError, slots[i := slot'\<lparr>ra_active := False\<rparr>])
                  else (FragDone (ra_inner_relay_cmd slot') (mem_read (ra_buffer slot') 0 (ra_received slot')),
                        slots[i := slot'\<lparr>ra_active := False\<rparr>])
             else (FragMore, slots[i := slot']))"

text \<open>The two readings of the clock are \<open>now\<close> (expiry) and \<open>now2\<close> (a new slot).\<close>

definition moor_fragment_receive ::
    "u64 \<Rightarrow> u64 \<Rightarrow> moor_reassembly list \<Rightarrow> bytes \<Rightarrow> u16 \<Rightarrow> u16 \<Rightarrow> u8 \<Rightarrow> frag_result \<times> moor_reassembly list" where
  "moor_fragment_receive now now2 slots relay_data relay_data_len stream_id frag_cmd =
    (if unat relay_data_len < MOOR_FRAGMENT_HEADER then (FragError, slots)
     else let slots1 = expire_slots now slots;
              frag_id = de16 (relay_data ! 0) (relay_data ! 1);
              seq = de16 (relay_data ! 2) (relay_data ! 3);
              total_len = de16 (relay_data ! 4) (relay_data ! 5);
              inner_cmd = relay_data ! 6
          in if unat total_len > MOOR_MAX_REASSEMBLY \<or> total_len = 0 then (FragError, slots1)
             else let payload_len = relay_data_len - of_nat MOOR_FRAGMENT_HEADER;
                      payload = mem_read relay_data MOOR_FRAGMENT_HEADER (unat payload_len)
                  in case fragment_slot now2 slots1 frag_id seq total_len inner_cmd stream_id of
                       None \<Rightarrow> (FragError, slots1)
                     | Some (i, slots2) \<Rightarrow>
                         fragment_accept slots2 i seq total_len inner_cmd payload payload_len frag_cmd)"

section \<open>The slot invariant\<close>

definition wf_slot :: "moor_reassembly \<Rightarrow> bool" where
  "wf_slot s \<longleftrightarrow> length (ra_buffer s) = MOOR_MAX_REASSEMBLY \<and> ra_received s \<le> MOOR_MAX_REASSEMBLY"

text \<open>At most one active slot per fragment id.\<close>

definition ids_unique :: "moor_reassembly list \<Rightarrow> bool" where
  "ids_unique slots \<longleftrightarrow> (\<forall>i < length slots. \<forall>j < length slots.
    ra_active (slots ! i) \<and> ra_active (slots ! j) \<and>
      ra_fragment_id (slots ! i) = ra_fragment_id (slots ! j) \<longrightarrow> i = j)"

definition wf_reassembly :: "moor_reassembly list \<Rightarrow> bool" where
  "wf_reassembly slots \<longleftrightarrow> length slots = MOOR_MAX_PENDING \<and> list_all wf_slot slots \<and> ids_unique slots"

lemma wf_slot_zero: "wf_slot zero_reassembly"
  by (simp add: wf_slot_def zero_reassembly_def)

lemma wf_reassembly_init: "wf_reassembly moor_reassembly_init"
  using wf_slot_zero
  by (auto simp: wf_reassembly_def moor_reassembly_init_def ids_unique_def list_all_iff
      zero_reassembly_def)

lemma expire_nth:
  "j < length slots \<Longrightarrow> expire_slots now slots ! j = slots ! j \<or>
    expire_slots now slots ! j = (slots ! j)\<lparr>ra_active := False\<rparr>"
  by (simp add: expire_slots_def)

lemma length_expire [simp]: "length (expire_slots now slots) = length slots"
  by (simp add: expire_slots_def)

lemma expire_keeps:
  "j < length slots \<Longrightarrow> now - ra_started_at (slots ! j) \<le> MOOR_FRAGMENT_TIMEOUT_MS \<Longrightarrow>
    expire_slots now slots ! j = slots ! j"
  by (simp add: expire_slots_def not_less [symmetric])

lemma expire_active:
  "j < length slots \<Longrightarrow> ra_active (expire_slots now slots ! j) \<Longrightarrow>
    expire_slots now slots ! j = slots ! j"
  by (auto simp: expire_slots_def split: if_splits)

lemma wf_expire:
  assumes "wf_reassembly slots"
  shows "wf_reassembly (expire_slots now slots)"
proof -
  from assms have "wf_slot (expire_slots now slots ! j)" if "j < length slots" for j
    using expire_nth [OF that, of now] that
    by (auto simp: wf_reassembly_def list_all_length wf_slot_def)
  moreover have "ids_unique (expire_slots now slots)"
    using assms expire_active [of _ slots now] unfolding wf_reassembly_def ids_unique_def
    by (metis length_expire)
  ultimately show ?thesis using assms by (simp add: wf_reassembly_def list_all_length)
qed

lemma fragment_slot_cases:
  assumes "fragment_slot now slots fid seq tot cmd sid = Some (i, slots2)"
  obtains (found) "slots2 = slots" "i < length slots" "ra_active (slots ! i)"
      "ra_fragment_id (slots ! i) = fid"
  | (fresh) s where "slots2 = slots[i := s]" "i < length slots" "\<not> ra_active (slots ! i)" "seq = 0"
      "\<forall>x \<in> set slots. \<not> (ra_active x \<and> ra_fragment_id x = fid)"
      "s = zero_reassembly\<lparr>ra_active := True, ra_fragment_id := fid, ra_expected_total := tot,
         ra_inner_relay_cmd := cmd, ra_stream_id := sid, ra_next_seq := 0, ra_received := 0,
         ra_started_at := now\<rparr>"
  using assms unfolding fragment_slot_def
  by (auto split: option.splits if_splits simp: first_index_None dest!: first_index_Some)

lemma ids_unique_update:
  assumes "ids_unique slots" and "i < length slots"
    and "ra_active s \<Longrightarrow> \<forall>j < length slots. j \<noteq> i \<longrightarrow> ra_active (slots ! j) \<longrightarrow>
      ra_fragment_id (slots ! j) \<noteq> ra_fragment_id s"
  shows "ids_unique (slots[i := s])"
  using assms unfolding ids_unique_def by (auto simp: nth_list_update)

lemma fragment_slot_wf:
  assumes wf: "wf_reassembly slots"
    and "fragment_slot now slots fid seq tot cmd sid = Some (i, slots2)"
  shows "wf_reassembly slots2" and "i < length slots2" and "ra_active (slots2 ! i)"
    and "ra_fragment_id (slots2 ! i) = fid"
proof -
  have "wf_reassembly slots2 \<and> i < length slots2 \<and> ra_active (slots2 ! i) \<and> ra_fragment_id (slots2 ! i) = fid"
    using assms(2)
  proof (cases rule: fragment_slot_cases)
    case found
    then show ?thesis using wf by simp
  next
    case (fresh s)
    have "ids_unique slots2"
      unfolding fresh(1) using wf fresh by (intro ids_unique_update) (auto simp: wf_reassembly_def)
    moreover have "wf_slot s" using wf_slot_zero fresh(6) by (simp add: wf_slot_def)
    ultimately show ?thesis
      using wf fresh by (auto simp: wf_reassembly_def list_all_iff dest!: set_update_subset_insert [THEN subsetD])
  qed
  then show "wf_reassembly slots2" and "i < length slots2" and "ra_active (slots2 ! i)"
    and "ra_fragment_id (slots2 ! i) = fid" by simp_all
qed

lemma fragment_accept_cases:
  assumes "fragment_accept slots i seq tot cmd payload plen fcmd = (r, slots')"
  obtains (kept) "slots' = slots" "r = FragError"
  | (stored) s where "slots' = slots[i := s]" "unat plen \<le> MOOR_MAX_REASSEMBLY - ra_received (slots ! i)"
      "ra_buffer s = mem_write (ra_buffer (slots ! i)) (ra_received (slots ! i)) payload"
      "ra_received s = ra_received (slots ! i) + unat plen"
      "ra_fragment_id s = ra_fragment_id (slots ! i)" "ra_started_at s = ra_started_at (slots ! i)"
  using assms unfolding fragment_accept_def Let_def
  by (auto split: if_splits simp: not_less intro: that)

lemma fragment_accept_wf:
  assumes wf: "wf_reassembly slots" and i: "i < length slots" "ra_active (slots ! i)"
    and len: "length payload = unat plen"
    and acc: "fragment_accept slots i seq tot cmd payload plen fcmd = (r, slots')"
  shows "wf_reassembly slots'"
  using acc
proof (cases rule: fragment_accept_cases)
  case kept
  then show ?thesis using wf by simp
next
  case (stored s)
  from wf i have w: "wf_slot (slots ! i)" by (simp add: wf_reassembly_def list_all_length)
  with stored len have "wf_slot s" by (auto simp: wf_slot_def)
  moreover have "ids_unique slots'"
    unfolding stored(1) using wf i stored(5)
    by (intro ids_unique_update) (auto simp: wf_reassembly_def ids_unique_def)
  ultimately show ?thesis
    using wf stored(1) by (auto simp: wf_reassembly_def list_all_iff dest!: set_update_subset_insert [THEN subsetD])
qed

lemma fragment_receive_wf:
  assumes "wf_reassembly slots" and "unat l \<le> length d"
    and "moor_fragment_receive now now2 slots d l sid c = (r, slots')"
  shows "wf_reassembly slots'"
proof -
  note e = wf_expire [OF assms(1), of now]
  have len: "7 \<le> unat l \<Longrightarrow> length (mem_read d 7 (unat (l - 7))) = unat (l - 7)"
    using assms(2) by (simp add: unat_sub word_le_nat_alt)
  show ?thesis
    using assms(3) assms(1) e len fragment_slot_wf [OF e] unfolding moor_fragment_receive_def Let_def
    by (auto simp: fragment_sizes not_less split: if_splits option.splits prod.splits
        elim!: fragment_accept_wf [rotated -1])
qed

section \<open>What the sender sends\<close>

definition frag_chunk :: "bytes \<Rightarrow> nat \<Rightarrow> bytes" where
  "frag_chunk data k = mem_read data (491 * k) (min (length data - 491 * k) 491)"

definition frag_count :: "bytes \<Rightarrow> nat" where
  "frag_count data = (length data + 490) div 491"

text \<open>Fragment \<open>k\<close> of \<open>data\<close>: its relay command, its bytes and their number.\<close>

definition frag_cell :: "u16 \<Rightarrow> u8 \<Rightarrow> bytes \<Rightarrow> nat \<Rightarrow> u8 \<times> bytes \<times> u16" where
  "frag_cell fid cmd data k =
    (relay_cmd_code (if length data \<le> 491 * k + 491 then RELAY_FRAGMENT_END else RELAY_FRAGMENT),
     fragment_bytes fid (of_nat k) (of_nat (length data)) cmd (frag_chunk data k),
     of_nat (7 + length (frag_chunk data k)))"

text \<open>A callback that records the cells it is given and never fails.\<close>

definition record_cb :: "(u8 \<times> bytes \<times> u16) list send_cb" where
  "record_cb ctx circuit_id cmd stream_id d l = (0, ctx @ [(cmd, d, l)])"

lemma length_frag_chunk [simp]: "length (frag_chunk data k) = min (length data - 491 * k) 491"
  by (cases "491 * k \<le> length data") (simp_all add: frag_chunk_def mem_read_def)

lemma frag_count_iff: "k < frag_count data \<longleftrightarrow> 491 * k < length data"
  unfolding frag_count_def by linarith

lemma fragment_send_loop_records:
  assumes "k \<le> frag_count data"
  shows "fragment_send_loop record_cb cid cmd sid data (length data) fid
      (min (491 * k) (length data)) (of_nat k) ctx =
    (0, ctx @ map (frag_cell fid cmd data) [k..<frag_count data])"
  using assms
proof (induction "frag_count data - k" arbitrary: k ctx)
  case 0
  then have "\<not> k < frag_count data" by simp
  then have "\<not> 491 * k < length data" by (simp add: frag_count_iff)
  with 0 show ?case by (subst fragment_send_loop.simps) simp
next
  case (Suc m)
  then have k: "k < frag_count data" by simp
  then have lt: "491 * k < length data" by (simp add: frag_count_iff)
  let ?c = "min (length data - 491 * k) 491"
  have next_off: "491 * k + ?c = min (491 * Suc k) (length data)" using lt by auto
  have last: "length data \<le> 491 * k + ?c \<longleftrightarrow> length data \<le> 491 * k + 491" using lt by auto
  have "fragment_send_loop record_cb cid cmd sid data (length data) fid (491 * k) (of_nat k) ctx =
      fragment_send_loop record_cb cid cmd sid data (length data) fid (491 * k + ?c) (of_nat (Suc k))
        (ctx @ [frag_cell fid cmd data k])"
    using lt
    by (subst fragment_send_loop.simps)
       (simp add: record_cb_def Let_def fragment_sizes frag_cell_def last frag_chunk_def [symmetric]
          add.commute)
  also have "\<dots> = (0, (ctx @ [frag_cell fid cmd data k]) @ map (frag_cell fid cmd data) [Suc k..<frag_count data])"
    unfolding next_off using Suc by (intro Suc.hyps(1)) auto
  also have "\<dots> = (0, ctx @ map (frag_cell fid cmd data) [k..<frag_count data])"
    using k by (simp add: upt_conv_Cons)
  finally show ?case using lt by simp
qed

lemma fragment_send_records:
  assumes "498 < length data" and "length data \<le> 4096"
  shows "moor_fragment_send cid cmd sid (Some data) (length data) fid (Some record_cb) [] =
    (0, map (frag_cell fid cmd data) [0..<frag_count data])"
  using assms fragment_send_loop_records [of 0 data cid cmd sid fid "[]"]
  by (auto simp: moor_fragment_send_def cell_sizes fragment_sizes)

section \<open>Reassembly under interleaving\<close>

text \<open>One call of \<open>moor_fragment_receive\<close> with its arguments.\<close>

record frag_event =
  fe_now :: u64
  fe_now2 :: u64
  fe_data :: bytes
  fe_len :: u16
  fe_stream :: u16
  fe_cmd :: u8

definition fe_receive :: "moor_reassembly list \<Rightarrow> frag_event \<Rightarrow> frag_result \<times> moor_reassembly list" where
  "fe_receive slots e = moor_fragment_receive (fe_now e) (fe_now2 e) slots (fe_data e) (fe_len e) (fe_stream e) (fe_cmd e)"

fun fe_run :: "moor_reassembly list \<Rightarrow> frag_event list \<Rightarrow> (frag_event \<times> frag_result) list" where
  "fe_run slots [] = []"
| "fe_run slots (e # es) = (let (r, slots') = fe_receive slots e in (e, r) # fe_run slots' es)"

definition fe_for :: "u16 \<Rightarrow> frag_event \<Rightarrow> bool" where
  "fe_for fid e \<longleftrightarrow> 7 \<le> unat (fe_len e) \<and> de16 (fe_data e ! 0) (fe_data e ! 1) = fid"

definition fe_cell :: "frag_event \<Rightarrow> u8 \<times> bytes \<times> u16" where
  "fe_cell e = (fe_cmd e, fe_data e, fe_len e)"

text \<open>Slot \<open>i\<close> holds the first \<open>k\<close> fragments of \<open>data\<close>, started at \<open>t0\<close>.\<close>

definition holds_prefix ::
    "u16 \<Rightarrow> u8 \<Rightarrow> bytes \<Rightarrow> u64 \<Rightarrow> nat \<Rightarrow> nat \<Rightarrow> moor_reassembly list \<Rightarrow> bool" where
  "holds_prefix fid cmd data t0 k i slots \<longleftrightarrow> i < length slots \<and>
    (let s = slots ! i in ra_active s \<and> ra_fragment_id s = fid \<and>
      ra_expected_total s = of_nat (length data) \<and> ra_inner_relay_cmd s = cmd \<and>
      ra_next_seq s = of_nat k \<and> ra_received s = 491 * k \<and>
      length (ra_buffer s) = 4096 \<and> take (491 * k) (ra_buffer s) = take (491 * k) data \<and>
      ra_started_at s = t0) \<and>
    (\<forall>j < length slots. j \<noteq> i \<longrightarrow> ra_active (slots ! j) \<longrightarrow> ra_fragment_id (slots ! j) \<noteq> fid)"

lemma holds_prefix_expire:
  assumes "holds_prefix fid cmd data t0 k i slots" and "now - t0 \<le> MOOR_FRAGMENT_TIMEOUT_MS"
  shows "holds_prefix fid cmd data t0 k i (expire_slots now slots)"
  using assms expire_keeps [of i slots now] expire_active [of _ slots now]
  unfolding holds_prefix_def Let_def by (metis length_expire)

lemma holds_prefix_slot:
  assumes "holds_prefix fid cmd data t0 k i slots"
  shows "fragment_slot now slots fid seq tot c sid = Some (i, slots)"
proof -
  have "first_index (\<lambda>s. ra_active s \<and> ra_fragment_id s = fid) slots = Some i"
    unfolding first_index_Some_iff using assms
    by (auto simp: holds_prefix_def Let_def)
  then show ?thesis by (simp add: fragment_slot_def)
qed

lemma take_mem_write:
  assumes "length buf = 4096" and "n + length c \<le> 4096" and "take n buf = take n data"
    and "c = take (length c) (drop n data)" and "n \<le> length data"
  shows "take (n + length c) (mem_write buf n c) = take (n + length c) data"
proof -
  have "take (n + length c) (mem_write buf n c) = take n buf @ c"
    using assms(1,2) by (simp add: mem_write_def)
  also have "\<dots> = take n data @ take (length c) (drop n data)" using assms(3,4) by simp
  finally show ?thesis by (simp add: take_add)
qed

text \<open>The next fragment of the stream is stored, and the last one completes it.\<close>

lemma frag_chunk_take: "frag_chunk data k = take (length (frag_chunk data k)) (drop (491 * k) data)"
  by (simp add: frag_chunk_def mem_read_def)

lemma holds_prefix_more:
  assumes h: "holds_prefix fid cmd data t0 k i slots" and k: "Suc k < frag_count data"
    and len: "length data \<le> 4096"
  shows "\<exists>slots'. fragment_accept slots i (of_nat k) (of_nat (length data)) cmd (frag_chunk data k)
      (of_nat (length (frag_chunk data k))) (relay_cmd_code RELAY_FRAGMENT) = (FragMore, slots') \<and>
    holds_prefix fid cmd data t0 (Suc k) i slots'"
proof -
  from k have lt: "491 * Suc k < length data" by (simp add: frag_count_iff)
  then have c: "length (frag_chunk data k) = 491" by simp
  have t: "take (491 * k + 491) (mem_write (ra_buffer (slots ! i)) (491 * k) (frag_chunk data k)) =
      take (491 * k + 491) data"
    using take_mem_write [of "ra_buffer (slots ! i)" "491 * k" "frag_chunk data k" data] h lt len c frag_chunk_take
    by (auto simp: holds_prefix_def Let_def)
  have w: "unat (of_nat (length (frag_chunk data k)) :: u16) = 491"
    and l: "length (mem_write (ra_buffer (slots ! i)) (491 * k) (frag_chunk data k)) = 4096"
    using h c lt len by (simp_all add: of_nat_u16_small holds_prefix_def Let_def)
  show ?thesis
    using h lt len t w l
    by (auto simp: fragment_accept_def holds_prefix_def Let_def fragment_sizes nth_list_update add.commute
        simp del: length_frag_chunk)
qed

lemma holds_prefix_last:
  assumes h: "holds_prefix fid cmd data t0 k i slots" and k: "Suc k = frag_count data"
    and len: "length data \<le> 4096"
  shows "\<exists>slots'. fragment_accept slots i (of_nat k) (of_nat (length data)) cmd (frag_chunk data k)
      (of_nat (length (frag_chunk data k))) (relay_cmd_code RELAY_FRAGMENT_END) = (FragDone cmd data, slots')"
proof -
  from k have lt: "491 * k < length data" and ge: "length data \<le> 491 * k + 491"
    using frag_count_iff [of k data] frag_count_iff [of "Suc k" data] by auto
  then have c: "length (frag_chunk data k) = length data - 491 * k" by simp
  with lt have sum: "491 * k + length (frag_chunk data k) = length data" by simp
  have t: "take (length data) (mem_write (ra_buffer (slots ! i)) (491 * k) (frag_chunk data k)) = data"
    using take_mem_write [of "ra_buffer (slots ! i)" "491 * k" "frag_chunk data k" data] h lt len sum frag_chunk_take
    by (auto simp: holds_prefix_def Let_def)
  have w: "unat (of_nat (length (frag_chunk data k)) :: u16) = length data - 491 * k"
    "unat (of_nat (length data) :: u16) = length data"
    using c len by (simp_all add: of_nat_u16_small)
  show ?thesis
    using h lt len t w sum
    by (auto simp: fragment_accept_def holds_prefix_def Let_def fragment_sizes mem_read_def simp del: length_frag_chunk)
qed

lemma fragment_bytes_nth:
  "fragment_bytes fid sq tot c chunk ! 0 = ucast (drop_bit 8 fid)" "fragment_bytes fid sq tot c chunk ! Suc 0 = ucast fid"
  "fragment_bytes fid sq tot c chunk ! 2 = ucast (drop_bit 8 sq)" "fragment_bytes fid sq tot c chunk ! 3 = ucast sq"
  "fragment_bytes fid sq tot c chunk ! 4 = ucast (drop_bit 8 tot)" "fragment_bytes fid sq tot c chunk ! 5 = ucast tot"
  "fragment_bytes fid sq tot c chunk ! 6 = c" "mem_read (fragment_bytes fid sq tot c chunk) 7 (length chunk) = chunk"
  by (simp_all add: fragment_bytes_def be16_def mem_read_def)

lemma frag_cell_for: "frag_cell fid cmd data k = fe_cell e \<Longrightarrow> fe_for fid e"
proof -
  have "length (frag_chunk data k) \<le> 491" by simp
  then have "unat (of_nat (7 + length (frag_chunk data k)) :: u16) = 7 + length (frag_chunk data k)"
    by (intro of_nat_u16_small) linarith
  moreover assume "frag_cell fid cmd data k = fe_cell e"
  then have "fe_len e = of_nat (7 + length (frag_chunk data k))"
    and "fe_data e = fragment_bytes fid (of_nat k) (of_nat (length data)) cmd (frag_chunk data k)"
    by (simp_all add: frag_cell_def fe_cell_def)
  ultimately show ?thesis
    by (simp add: fe_for_def fragment_bytes_nth del: length_frag_chunk of_nat_add)
qed

lemma receive_frag_cell:
  assumes "frag_cell fid cmd data k = fe_cell e" and "k < frag_count data" and "length data \<le> 4096"
  shows "fe_receive slots e =
    (let slots1 = expire_slots (fe_now e) slots in
     case fragment_slot (fe_now2 e) slots1 fid (of_nat k) (of_nat (length data)) cmd (fe_stream e) of
       None \<Rightarrow> (FragError, slots1)
     | Some (i, slots2) \<Rightarrow> fragment_accept slots2 i (of_nat k) (of_nat (length data)) cmd
         (frag_chunk data k) (of_nat (length (frag_chunk data k))) (fe_cmd e))"
proof -
  let ?n = "length (frag_chunk data k)"
  have n: "?n \<le> 491" by simp
  have l: "unat (of_nat (7 + ?n) :: u16) = 7 + ?n" "unat (of_nat ?n :: u16) = ?n"
    using n by (simp_all add: of_nat_u16_small del: length_frag_chunk of_nat_add)
  have s: "(of_nat (7 + ?n) :: u16) - 7 = of_nat ?n" by simp
  have pos: "0 < length data" using assms(2) frag_count_iff [of k data] by linarith
  have t: "unat (of_nat (length data) :: u16) = length data"
    using assms(3) by (intro of_nat_u16_small) linarith
  with pos have nz: "(of_nat (length data) :: u16) \<noteq> 0" by (metis unat_0 less_numeral_extra(3))
  have ev: "fe_len e = of_nat (7 + ?n)" "fe_data e = fragment_bytes fid (of_nat k) (of_nat (length data)) cmd (frag_chunk data k)"
    using assms(1) by (simp_all add: frag_cell_def fe_cell_def)
  show ?thesis
    using assms(3) l s t nz
    by (simp add: ev fe_receive_def moor_fragment_receive_def Let_def fragment_sizes fragment_bytes_nth
        split: option.split prod.split del: length_frag_chunk of_nat_add)
qed

lemma holds_prefix_update:
  assumes "holds_prefix fid cmd data t0 k i slots" and "j \<noteq> i"
    and "ra_active s \<Longrightarrow> ra_fragment_id s \<noteq> fid"
  shows "holds_prefix fid cmd data t0 k i (slots[j := s])"
proof -
  have "ra_fragment_id (slots[j := s] ! m) \<noteq> fid"
    if "m < length slots" "m \<noteq> i" "ra_active (slots[j := s] ! m)" for m
    using that assms by (cases "m = j") (auto simp: holds_prefix_def)
  then show ?thesis using assms(1,2) by (simp add: holds_prefix_def)
qed

text \<open>Fragments of other streams leave the slot alone.\<close>

lemma holds_prefix_other:
  assumes h: "holds_prefix fid cmd data t0 k i slots" and "\<not> fe_for fid e"
    and "fe_now e - t0 \<le> MOOR_FRAGMENT_TIMEOUT_MS"
  shows "holds_prefix fid cmd data t0 k i (snd (fe_receive slots e))"
proof (cases "unat (fe_len e) < 7")
  case True
  then show ?thesis using h by (simp add: fe_receive_def moor_fragment_receive_def fragment_sizes)
next
  case False
  let ?g = "de16 (fe_data e ! 0) (fe_data e ! 1)"
  from False assms(2) have g: "?g \<noteq> fid" by (simp add: fe_for_def)
  let ?s1 = "expire_slots (fe_now e) slots"
  have h1: "holds_prefix fid cmd data t0 k i ?s1" by (rule holds_prefix_expire [OF h assms(3)])
  have acc: "holds_prefix fid cmd data t0 k i (snd (fragment_accept s2 j sq tot c payload plen fc))"
    if s: "fragment_slot (fe_now2 e) ?s1 ?g sq tot c (fe_stream e) = Some (j, s2)" for j s2 sq tot c payload plen fc
  proof -
    from s h1 g have h2: "holds_prefix fid cmd data t0 k i s2" and j: "j \<noteq> i" "ra_fragment_id (s2 ! j) \<noteq> fid"
      by (cases rule: fragment_slot_cases; auto simp: holds_prefix_def Let_def nth_list_update)+
    obtain r s3 where a: "fragment_accept s2 j sq tot c payload plen fc = (r, s3)"
      by (cases "fragment_accept s2 j sq tot c payload plen fc") auto
    then show ?thesis
    proof (cases rule: fragment_accept_cases)
      case (stored s)
      then show ?thesis using h2 j a by (simp add: holds_prefix_update)
    qed (use h2 a in simp)
  qed
  show ?thesis
    using False h1 acc
    by (auto simp: fe_receive_def moor_fragment_receive_def Let_def fragment_sizes split: option.splits prod.splits)
qed

lemma holds_prefix_start:
  assumes "\<forall>s \<in> set slots. ra_active s \<longrightarrow> ra_fragment_id s \<noteq> fid" and "\<exists>s \<in> set slots. \<not> ra_active s"
  shows "\<exists>i slots2. fragment_slot now slots fid 0 (of_nat (length data)) cmd sid = Some (i, slots2) \<and>
    holds_prefix fid cmd data now 0 i slots2"
proof -
  have none: "first_index (\<lambda>s. ra_active s \<and> ra_fragment_id s = fid) slots = None"
    using assms(1) by (auto simp: first_index_None)
  obtain i where i: "first_index (\<lambda>s. \<not> ra_active s) slots = Some i"
    using assms(2) first_index_None [of "\<lambda>s. \<not> ra_active s" slots] by (cases "first_index (\<lambda>s. \<not> ra_active s) slots") auto
  with first_index_Some [OF i] assms(1) none show ?thesis
    by (auto simp: fragment_slot_def holds_prefix_def Let_def nth_list_update zero_reassembly_def fragment_sizes)
qed

text \<open>One own fragment, from a slot that holds the first \<open>k\<close>.\<close>

lemma receive_own:
  assumes "fragment_slot (fe_now2 e) (expire_slots (fe_now e) slots) fid (of_nat k) (of_nat (length data)) cmd (fe_stream e) = Some (i, slots2)"
    and "holds_prefix fid cmd data t0 k i slots2"
    and "fe_cell e = frag_cell fid cmd data k" and "k < frag_count data" and "length data \<le> 4096"
  shows "if Suc k < frag_count data
    then \<exists>slots'. fe_receive slots e = (FragMore, slots') \<and> holds_prefix fid cmd data t0 (Suc k) i slots'
    else \<exists>slots'. fe_receive slots e = (FragDone cmd data, slots')"
proof -
  have fc: "fe_cmd e = relay_cmd_code (if Suc k < frag_count data then RELAY_FRAGMENT else RELAY_FRAGMENT_END)"
    using assms(3) by (auto simp: frag_cell_def fe_cell_def frag_count_iff)
  note r = receive_frag_cell [OF assms(3) [symmetric] assms(4,5), of slots]
  show ?thesis
  proof (cases "Suc k < frag_count data")
    case True
    with holds_prefix_more [OF assms(2) True assms(5)] r fc assms(1) show ?thesis by (auto simp: Let_def)
  next
    case False
    with assms(4) have "Suc k = frag_count data" by simp
    with holds_prefix_last [OF assms(2) this assms(5)] r fc assms(1) False show ?thesis by (auto simp: Let_def)
  qed
qed

lemma fe_run_completes:
  assumes "holds_prefix fid cmd data t0 k i slots" and "k < frag_count data" and "length data \<le> 4096"
    and "map fe_cell (filter (fe_for fid) es) = map (frag_cell fid cmd data) [k..<frag_count data]"
    and "\<forall>e \<in> set es. fe_now e - t0 \<le> MOOR_FRAGMENT_TIMEOUT_MS"
  shows "map snd (filter (\<lambda>(e, r). fe_for fid e) (fe_run slots es)) =
    replicate (frag_count data - 1 - k) FragMore @ [FragDone cmd data]"
  using assms
proof (induction es arbitrary: k slots)
  case Nil
  then show ?case by simp
next
  case (Cons e es)
  have e: "fe_now e - t0 \<le> MOOR_FRAGMENT_TIMEOUT_MS" using Cons.prems(5) by simp
  have no_more: "filter (fe_for fid) es' = [] \<Longrightarrow> filter (\<lambda>(e, r). fe_for fid e) (fe_run st es') = []" for es' st
    by (induction es' arbitrary: st) (auto split: prod.splits if_splits)
  show ?case
  proof (cases "fe_for fid e")
    case False
    obtain r slots' where r: "fe_receive slots e = (r, slots')" by (cases "fe_receive slots e") auto
    with holds_prefix_other [OF Cons.prems(1) False e] have "holds_prefix fid cmd data t0 k i slots'" by simp
    from Cons.IH [OF this Cons.prems(2,3)] Cons.prems(4,5) False r show ?thesis by simp
  next
    case True
    with Cons.prems(2,4) have c: "fe_cell e = frag_cell fid cmd data k"
      and rest: "map fe_cell (filter (fe_for fid) es) = map (frag_cell fid cmd data) [Suc k..<frag_count data]"
      by (simp_all add: upt_conv_Cons)
    note h1 = holds_prefix_expire [OF Cons.prems(1) e]
    note own = receive_own [OF holds_prefix_slot [OF h1] h1 c Cons.prems(2,3)]
    show ?thesis
    proof (cases "Suc k < frag_count data")
      case m: True
      with own obtain slots' where r: "fe_receive slots e = (FragMore, slots')"
        and h: "holds_prefix fid cmd data t0 (Suc k) i slots'" by auto
      have "frag_count data - 1 - k = Suc (frag_count data - 1 - Suc k)" using m by simp
      with r True Cons.IH [OF h m Cons.prems(3) rest] Cons.prems(5) show ?thesis by simp
    next
      case l: False
      with own obtain slots' where "fe_receive slots e = (FragDone cmd data, slots')" by auto
      with True l rest no_more show ?thesis using Cons.prems(2) by simp
    qed
  qed
qed

section \<open>Properties\<close>

text \<open>
  C11. Fragmentation round trip under interleaving. Let \<open>moor_fragment_send\<close> cut a payload of
  499 to 4096 bytes into cells. The receiver, with no reassembly under way for the fragment id
  and a free slot, is then given those cells in order, mixed with any other fragment cells
  (valid or not) that carry other ids, within the 30 seconds of the timeout. Then every cell
  of the payload but the last is answered "more needed" and the last one delivers the inner
  command and exactly the payload.
\<close>

theorem fragment_reassembly:
  assumes "498 < length data" and "length data \<le> 4096"
    and "moor_fragment_send cid cmd sid (Some data) (length data) fid (Some record_cb) [] = (rc, cells)"
    and "\<forall>s \<in> set slots. ra_active s \<longrightarrow> ra_fragment_id s \<noteq> fid" and "\<exists>s \<in> set slots. \<not> ra_active s"
    and "map fe_cell (filter (fe_for fid) (e # es)) = cells" and "fe_for fid e"
    and "\<forall>e' \<in> set es. fe_now e' - fe_now2 e \<le> MOOR_FRAGMENT_TIMEOUT_MS"
  shows "rc = 0 \<and> map snd (filter (\<lambda>(e, r). fe_for fid e) (fe_run slots (e # es))) =
    replicate (length cells - 1) FragMore @ [FragDone cmd data]"
proof -
  from assms(3) have rc: "rc = 0" and cells: "cells = map (frag_cell fid cmd data) [0..<frag_count data]"
    by (simp_all add: fragment_send_records assms(1,2))
  have n: "Suc 0 < frag_count data" using assms(1) by (simp add: frag_count_def)
  then have up: "[0..<frag_count data] = 0 # [1..<frag_count data]" by (simp add: upt_conv_Cons)
  from assms(6,7) cells up have c: "fe_cell e = frag_cell fid cmd data 0"
    and rest: "map fe_cell (filter (fe_for fid) es) = map (frag_cell fid cmd data) [Suc 0..<frag_count data]"
    by simp_all
  let ?s1 = "expire_slots (fe_now e) slots"
  have "\<forall>s \<in> set ?s1. ra_active s \<longrightarrow> ra_fragment_id s \<noteq> fid" "\<exists>s \<in> set ?s1. \<not> ra_active s"
    using assms(4,5) by (auto simp: expire_slots_def)
  from holds_prefix_start [OF this, of "fe_now2 e" data cmd "fe_stream e"] obtain i slots2 where
    sl: "fragment_slot (fe_now2 e) ?s1 fid (of_nat 0) (of_nat (length data)) cmd (fe_stream e) = Some (i, slots2)"
    and h: "holds_prefix fid cmd data (fe_now2 e) 0 i slots2" by auto
  from n have n0: "0 < frag_count data" by simp
  from receive_own [OF sl h c n0 assms(2)] n obtain slots' where r: "fe_receive slots e = (FragMore, slots')"
    and h': "holds_prefix fid cmd data (fe_now2 e) (Suc 0) i slots'" by auto
  have "length cells - 1 = Suc (frag_count data - 1 - Suc 0)" using cells n by simp
  with fe_run_completes [OF h' n assms(2) rest assms(8)] r assms(7) rc show ?thesis by simp
qed

definition demo_event :: "u64 \<Rightarrow> u8 \<times> bytes \<times> u16 \<Rightarrow> frag_event" where
  "demo_event t c = \<lparr> fe_now = t, fe_now2 = t, fe_data = fst (snd c), fe_len = snd (snd c), fe_stream = 3, fe_cmd = fst c \<rparr>"

theorem fragment_reassembly_witness:
  "let data = replicate 600 (5 :: byte);
       e0 = demo_event 100 (frag_cell 9 37 data 0);
       other = demo_event 101 (frag_cell 10 37 (replicate 700 6) 0);
       e1 = demo_event 102 (frag_cell 9 37 data 1)
   in map snd (filter (\<lambda>(e, r). fe_for 9 e) (fe_run moor_reassembly_init [e0, other, e1])) =
      [FragMore, FragDone 37 data]"
proof -
  let ?data = "replicate 600 (5 :: byte)"
  let ?e0 = "demo_event 100 (frag_cell 9 37 ?data 0)"
  let ?other = "demo_event 101 (frag_cell 10 37 (replicate 700 6) 0)"
  let ?e1 = "demo_event 102 (frag_cell 9 37 ?data 1)"
  have cell: "fe_cell (demo_event t c) = c" for t c by (simp add: fe_cell_def demo_event_def)
  have f: "fe_for 9 ?e0" "fe_for 9 ?e1" by (rule frag_cell_for [of _ 37 ?data]; simp add: cell)+
  have "fe_for 10 ?other" by (rule frag_cell_for) (simp add: cell)
  then have o: "\<not> fe_for 9 ?other" by (simp add: fe_for_def)
  have send: "moor_fragment_send 1 37 3 (Some ?data) (length ?data) 9 (Some record_cb) [] =
      (0, [frag_cell 9 37 ?data 0, frag_cell 9 37 ?data 1])"
    using fragment_send_records [of ?data 1 37 3 9] by (simp add: frag_count_def upt_rec)
  have own: "map fe_cell (filter (fe_for 9) (?e0 # [?other, ?e1])) = [frag_cell 9 37 ?data 0, frag_cell 9 37 ?data 1]"
    using f o by (simp add: cell)
  have fresh: "\<forall>s \<in> set moor_reassembly_init. ra_active s \<longrightarrow> ra_fragment_id s \<noteq> 9"
    "\<exists>s \<in> set moor_reassembly_init. \<not> ra_active s"
    by (simp_all add: moor_reassembly_init_def fragment_sizes zero_reassembly_def)
  have times: "\<forall>e' \<in> set [?other, ?e1]. fe_now e' - fe_now2 ?e0 \<le> MOOR_FRAGMENT_TIMEOUT_MS"
    by (simp add: demo_event_def fragment_sizes)
  have "498 < length ?data" "length ?data \<le> 4096" by simp_all
  from fragment_reassembly [OF this send fresh own f(1) times] show ?thesis
    by (simp add: Let_def del: fe_run.simps filter.simps)
qed

text \<open>
  C18. The receiver's memory is safe whatever cells arrive. Starting from
  \<open>moor_reassembly_init\<close>, after any sequence of calls of \<open>moor_fragment_receive\<close> on buffers
  at least as long as announced, there are eight slots, every buffer keeps its 4096 bytes,
  no slot has received more than its buffer holds, and no two active slots share a
  fragment id.
\<close>

theorem fragment_slots_wf:
  assumes "\<forall>e \<in> set es. unat (fe_len e) \<le> length (fe_data e)"
  shows "wf_reassembly (foldl (\<lambda>slots e. snd (fe_receive slots e)) moor_reassembly_init es)"
proof -
  have "wf_reassembly slots \<Longrightarrow> \<forall>e \<in> set es. unat (fe_len e) \<le> length (fe_data e) \<Longrightarrow>
      wf_reassembly (foldl (\<lambda>slots e. snd (fe_receive slots e)) slots es)" for slots es
    by (induction es arbitrary: slots)
       (auto simp: fe_receive_def intro: fragment_receive_wf [OF _ _ surjective_pairing])
  from this [OF wf_reassembly_init assms] show ?thesis .
qed

theorem fragment_slots_wf_witness:
  "wf_reassembly (foldl (\<lambda>slots e. snd (fe_receive slots e)) moor_reassembly_init
     [demo_event 5 (40, replicate 20 1, 20), demo_event 6 (41, [0], 1)])"
  using fragment_slots_wf [of "[demo_event 5 (40, replicate 20 1, 20), demo_event 6 (41, [0], 1)]"]
  by (simp add: demo_event_def)

end
