(* ===== verification/Conflux.thy ===== *)
theory Conflux
  imports Onion
begin

text \<open>
  Multi-path circuits (\<open>src/src/conflux.c\<close>, \<open>src/include/moor/conflux.h\<close>) and the client's
  use of them for incoming data (\<open>src/src/socks5.c\<close>). A set has up to four legs, each a
  circuit named by a number in a store of circuits, a Feistel permutation that hides sequence
  numbers, and a reorder buffer of 32 entries. BLAKE2b, the key derivation, the clock, random
  values and the connection that takes a cell are parameters; the quotient of two counters as
  a \<open>double\<close> is a parameter \<open>dratio\<close> into a linear order.
\<close>

section \<open>The Feistel permutation\<close>

definition feistel_round_fn :: "(bytes \<Rightarrow> bytes) \<Rightarrow> bytes \<Rightarrow> u8 \<Rightarrow> u32 \<Rightarrow> u32" where
  "feistel_round_fn blake2b key round_num r_half =
    (let input = mem_read key 0 32 @ [round_num] @ be32 r_half;
         hash = moor_crypto_hash blake2b input
     in de32 (hash ! 0) (hash ! 1) (hash ! 2) (hash ! 3))"

definition feistel_encrypt :: "(bytes \<Rightarrow> bytes) \<Rightarrow> bytes \<Rightarrow> u64 \<Rightarrow> u64" where
  "feistel_encrypt blake2b key seq =
    (let (L, R) = fold (\<lambda>i (L, R). (R, L XOR feistel_round_fn blake2b key i R)) [0, 1, 2, 3]
                    (ucast (drop_bit 32 seq) :: u32, ucast (seq AND 0xFFFFFFFF) :: u32)
     in push_bit 32 (ucast L) OR ucast R)"

definition feistel_decrypt :: "(bytes \<Rightarrow> bytes) \<Rightarrow> bytes \<Rightarrow> u64 \<Rightarrow> u64" where
  "feistel_decrypt blake2b key enc =
    (let (L, R) = fold (\<lambda>i (L, R). (R XOR feistel_round_fn blake2b key i L, L)) [3, 2, 1, 0]
                    (ucast (drop_bit 32 enc) :: u32, ucast (enc AND 0xFFFFFFFF) :: u32)
     in push_bit 32 (ucast L) OR ucast R)"

section \<open>Sets and legs\<close>

definition MOOR_CONFLUX_MAX_LEGS :: nat where "MOOR_CONFLUX_MAX_LEGS = 4"
definition MOOR_CONFLUX_REORDER_BUF :: nat where "MOOR_CONFLUX_REORDER_BUF = 32"

record moor_conflux_reorder_entry =
  re_seq :: u64
  re_stream_id :: u16
  re_data :: bytes
  re_data_len :: u16
  re_valid :: bool
  re_buffered_at :: u64

record moor_conflux_leg =
  lg_circuit :: "nat option"
  lg_weight :: u64
  lg_sent_count :: u64
  lg_active :: bool
  lg_last_send_ms :: u64
  lg_srtt_us :: u64
  lg_min_rtt_us :: u64
  lg_rtt_initialized :: bool

record moor_conflux_set =
  cs_legs :: "moor_conflux_leg list"
  cs_num_legs :: nat
  cs_current_leg :: nat
  cs_next_send_seq :: u64
  cs_next_recv_seq :: u64
  cs_reorder :: "moor_conflux_reorder_entry list"
  cs_set_id :: bytes
  cs_seq_key :: bytes
  cs_reorder_timeout_ms :: u32

text \<open>The fields of a circuit that the sets use; \<open>cx_conflux\<close> is the back pointer.\<close>

record cfx_circuit =
  cx_circuit_id :: u32
  cx_num_hops :: nat
  cx_hops :: "hop list"
  cx_package_window :: int
  cx_conflux :: "nat option"

type_synonym circ_store = "nat \<Rightarrow> cfx_circuit"

definition zero_entry :: moor_conflux_reorder_entry where
  "zero_entry = \<lparr> re_seq = 0, re_stream_id = 0, re_data = replicate 490 0, re_data_len = 0,
    re_valid = False, re_buffered_at = 0 \<rparr>"

definition zero_leg :: moor_conflux_leg where
  "zero_leg = \<lparr> lg_circuit = None, lg_weight = 0, lg_sent_count = 0, lg_active = False,
    lg_last_send_ms = 0, lg_srtt_us = 0, lg_min_rtt_us = 0, lg_rtt_initialized = False \<rparr>"

definition leg_weight :: "circ_store \<Rightarrow> nat \<Rightarrow> u64" where
  "leg_weight st c = (if cx_package_window (st c) > 0 then word_of_int (cx_package_window (st c)) else 1000)"

text \<open>
  \<open>self\<close> is the address of the new set, \<open>alloc\<close> whether \<open>calloc\<close> succeeds; \<open>rid\<close>, \<open>rkey\<close> and
  \<open>r\<close> are random values.
\<close>

definition moor_conflux_create ::
    "(bytes \<Rightarrow> nat \<Rightarrow> string \<Rightarrow> bytes) \<Rightarrow> bool \<Rightarrow> bytes \<Rightarrow> bytes \<Rightarrow> u32 \<Rightarrow> nat \<Rightarrow> circ_store \<Rightarrow> nat option
      \<Rightarrow> moor_conflux_set option \<times> circ_store" where
  "moor_conflux_create kdf alloc rid rkey r self st first =
    (case first of None \<Rightarrow> (None, st)
     | Some c \<Rightarrow>
         if \<not> alloc then (None, st)
         else (Some \<lparr> cs_legs = zero_leg\<lparr>lg_circuit := Some c, lg_weight := leg_weight st c,
                   lg_active := True, lg_sent_count := 0\<rparr> # replicate 3 zero_leg,
                 cs_num_legs = 1, cs_current_leg = 0, cs_next_send_seq = 0, cs_next_recv_seq = 0,
                 cs_reorder = replicate MOOR_CONFLUX_REORDER_BUF zero_entry, cs_set_id = rid,
                 cs_seq_key = (if cx_num_hops (st c) > 0
                   then kdf (h_forward_key (cx_hops (st c) ! 0)) 1 ''moorcfx!'' else rkey),
                 cs_reorder_timeout_ms = 8000 + r mod 4001 \<rparr>,
               st(c := (st c)\<lparr>cx_conflux := Some self\<rparr>)))"

definition moor_conflux_add_leg ::
    "nat \<Rightarrow> moor_conflux_set \<Rightarrow> circ_store \<Rightarrow> nat option \<Rightarrow> bool \<times> moor_conflux_set \<times> circ_store" where
  "moor_conflux_add_leg self cset st circuit =
    (case circuit of None \<Rightarrow> (False, cset, st)
     | Some c \<Rightarrow>
         let slot = (case first_index (\<lambda>l. \<not> lg_active l) (take (cs_num_legs cset) (cs_legs cset)) of
                 Some i \<Rightarrow> Some (i, cs_num_legs cset)
               | None \<Rightarrow> if cs_num_legs cset \<ge> MOOR_CONFLUX_MAX_LEGS then None
                         else Some (cs_num_legs cset, Suc (cs_num_legs cset)))
         in case slot of None \<Rightarrow> (False, cset, st)
            | Some (idx, n) \<Rightarrow>
                (True, cset\<lparr>cs_num_legs := n, cs_legs := (cs_legs cset)[idx := (cs_legs cset ! idx)
                     \<lparr>lg_circuit := Some c, lg_weight := leg_weight st c, lg_active := True,
                      lg_sent_count := 0, lg_rtt_initialized := False, lg_srtt_us := 0, lg_min_rtt_us := 0\<rparr>]\<rparr>,
                 st(c := (st c)\<lparr>cx_conflux := Some self\<rparr>)))"

definition leg_usable :: "moor_conflux_leg \<Rightarrow> bool" where
  "leg_usable l \<longleftrightarrow> lg_active l \<and> lg_circuit l \<noteq> None"

definition leg_rtt_key :: "moor_conflux_leg \<Rightarrow> u64 option" where
  "leg_rtt_key l = (if leg_usable l \<and> lg_rtt_initialized l then Some (lg_srtt_us l) else None)"

definition leg_ratio_key :: "(u64 \<Rightarrow> u64 \<Rightarrow> 'd) \<Rightarrow> moor_conflux_leg \<Rightarrow> 'd option" where
  "leg_ratio_key dratio l =
    (if leg_usable l then Some (dratio (lg_sent_count l) (if lg_weight l > 0 then lg_weight l else 1)) else None)"

text \<open>\<open>None\<close> is the result -1; \<open>dtop\<close> is the constant 1e18.\<close>

definition moor_conflux_select_leg ::
    "(u64 \<Rightarrow> u64 \<Rightarrow> 'd::linorder) \<Rightarrow> 'd \<Rightarrow> moor_conflux_set \<Rightarrow> nat option" where
  "moor_conflux_select_leg dratio dtop cset =
    (if cs_num_legs cset = 0 then None
     else let legs = take (cs_num_legs cset) (cs_legs cset) in
       case argmin_loop 0 leg_rtt_key legs (None, UINT64_MAX) of
         (Some best, _) \<Rightarrow> Some best
       | (None, _) \<Rightarrow> fst (argmin_loop 0 (leg_ratio_key dratio) legs (None, dtop)))"

definition moor_conflux_update_rtt :: "moor_conflux_set \<Rightarrow> int \<Rightarrow> u64 \<Rightarrow> moor_conflux_set" where
  "moor_conflux_update_rtt cset leg_idx rtt_us =
    (if leg_idx < 0 \<or> leg_idx \<ge> int (cs_num_legs cset) then cset
     else let i = nat leg_idx; leg = cs_legs cset ! i;
              leg' = (if \<not> lg_rtt_initialized leg
                then leg\<lparr>lg_srtt_us := rtt_us, lg_min_rtt_us := rtt_us, lg_rtt_initialized := True\<rparr>
                else leg\<lparr>lg_srtt_us := (lg_srtt_us leg * 7 + rtt_us) div 8,
                       lg_min_rtt_us := (if rtt_us < lg_min_rtt_us leg then rtt_us else lg_min_rtt_us leg)\<rparr>)
          in cset\<lparr>cs_legs := (cs_legs cset)[i := leg']\<rparr>)"

section \<open>Sending\<close>

text \<open>
  The loop of \<open>moor_conflux_send_data\<close> at \<open>offset\<close>. \<open>send_cell net c cell\<close> is
  \<open>moor_connection_send_cell\<close> on the connection of circuit \<open>c\<close>, with the state \<open>net\<close> of the
  connections.
\<close>

function conflux_send_loop ::
    "chacha20 \<Rightarrow> (bytes \<Rightarrow> bytes) \<Rightarrow> (u64 \<Rightarrow> u64 \<Rightarrow> 'd::linorder) \<Rightarrow> 'd \<Rightarrow> ('n \<Rightarrow> nat \<Rightarrow> moor_cell \<Rightarrow> bool \<times> 'n)
      \<Rightarrow> u16 \<Rightarrow> bytes \<Rightarrow> nat \<Rightarrow> nat \<Rightarrow> moor_conflux_set \<Rightarrow> circ_store \<Rightarrow> 'n
      \<Rightarrow> bool \<times> moor_conflux_set \<times> circ_store \<times> 'n" where
  "conflux_send_loop chacha blake2b dratio dtop send_cell stream_id data len offset cset st net =
    (if offset < len
     then (case moor_conflux_select_leg dratio dtop cset of
         None \<Rightarrow> (False, cset, st, net)
       | Some leg_idx \<Rightarrow>
           let leg = cs_legs cset ! leg_idx; c = the (lg_circuit leg); circ = st c;
               chunk = min (len - offset) (MOOR_RELAY_DATA - 8)
           in if cs_next_send_seq cset = UINT64_MAX then (False, cset, st, net)
              else let seq = cs_next_send_seq cset;
                       cset1 = cset\<lparr>cs_next_send_seq := seq + 1\<rparr>;
                       enc_seq = feistel_encrypt blake2b (cs_seq_key cset) seq;
                       cell_data = be64 enc_seq @ mem_read data offset chunk;
                       cell = moor_cell_relay (cx_circuit_id circ) (relay_cmd_code RELAY_DATA) stream_id
                                (Some cell_data) (of_nat (8 + chunk));
                       (ok, hops', p') = moor_circuit_encrypt_forward chacha blake2b (cx_num_hops circ)
                                           (cx_hops circ) (c_payload cell);
                       st1 = st(c := circ\<lparr>cx_hops := hops'\<rparr>)
                   in if \<not> ok then (False, cset1, st1, net)
                      else let (sent, net') = send_cell net c (cell\<lparr>c_payload := p'\<rparr>)
                           in if \<not> sent then (False, cset1, st1, net')
                              else conflux_send_loop chacha blake2b dratio dtop send_cell stream_id data len
                                     (offset + chunk)
                                     (cset1\<lparr>cs_legs := (cs_legs cset)[leg_idx := leg\<lparr>lg_sent_count := lg_sent_count leg + 1\<rparr>]\<rparr>)
                                     (st1(c := (st1 c)\<lparr>cx_package_window :=
                                        (if cx_package_window circ > 0 then cx_package_window circ - 1
                                         else cx_package_window circ)\<rparr>))
                                     net')
     else (True, cset, st, net))"
  by pat_completeness auto
termination
  by (relation "measure (\<lambda>(_, _, _, _, _, _, _, len, offset, _, _, _). len - offset)")
     (auto simp: MOOR_RELAY_DATA_def)

declare conflux_send_loop.simps [simp del]

definition moor_conflux_send_data ::
    "chacha20 \<Rightarrow> (bytes \<Rightarrow> bytes) \<Rightarrow> (u64 \<Rightarrow> u64 \<Rightarrow> 'd::linorder) \<Rightarrow> 'd \<Rightarrow> ('n \<Rightarrow> nat \<Rightarrow> moor_cell \<Rightarrow> bool \<times> 'n)
      \<Rightarrow> moor_conflux_set \<Rightarrow> circ_store \<Rightarrow> 'n \<Rightarrow> u16 \<Rightarrow> bytes option \<Rightarrow> nat
      \<Rightarrow> bool \<times> moor_conflux_set \<times> circ_store \<times> 'n" where
  "moor_conflux_send_data chacha blake2b dratio dtop send_cell cset st net stream_id data len =
    (case data of None \<Rightarrow> (False, cset, st, net)
     | Some d \<Rightarrow> conflux_send_loop chacha blake2b dratio dtop send_cell stream_id d len 0 cset st net)"

section \<open>Receiving\<close>

definition entry_stale :: "u64 \<Rightarrow> u64 \<Rightarrow> moor_conflux_reorder_entry \<Rightarrow> bool" where
  "entry_stale now timeout e \<longleftrightarrow> re_valid e \<and> now - re_buffered_at e > timeout"

text \<open>The expiry block of \<open>moor_conflux_receive\<close>.\<close>

definition conflux_expire :: "u64 \<Rightarrow> moor_conflux_set \<Rightarrow> moor_conflux_set" where
  "conflux_expire now cset =
    (let timeout = (if cs_reorder_timeout_ms cset > 0 then ucast (cs_reorder_timeout_ms cset) else 10000);
         expired_any = (\<exists>e \<in> set (cs_reorder cset). entry_stale now timeout e);
         reorder' = map (\<lambda>e. if entry_stale now timeout e then e\<lparr>re_valid := False\<rparr> else e) (cs_reorder cset);
         cset1 = cset\<lparr>cs_reorder := reorder'\<rparr>
     in if expired_any \<and> \<not> (\<exists>e \<in> set reorder'. re_valid e \<and> re_seq e = cs_next_recv_seq cset)
        then let min_seq = snd (argmin_loop 0 (\<lambda>e. if re_valid e then Some (re_seq e) else None) reorder'
                                 (None, UINT64_MAX))
             in if min_seq \<noteq> UINT64_MAX \<and> min_seq > cs_next_recv_seq cset
                then cset1\<lparr>cs_next_recv_seq := min_seq\<rparr> else cset1
        else cset1)"

text \<open>The results -1, 0 and 1; \<open>now\<close> and \<open>now2\<close> are the two readings of the clock.\<close>

definition moor_conflux_receive ::
    "(bytes \<Rightarrow> bytes) \<Rightarrow> u64 \<Rightarrow> u64 \<Rightarrow> moor_conflux_set \<Rightarrow> nat option \<Rightarrow> u64 \<Rightarrow> u16 \<Rightarrow> bytes \<Rightarrow> u16
      \<Rightarrow> int \<times> moor_conflux_set" where
  "moor_conflux_receive blake2b now now2 cset from_circuit enc stream_id data data_len =
    (let seq = feistel_decrypt blake2b (cs_seq_key cset) enc;
         cset1 = conflux_expire now cset;
         next_seq = cs_next_recv_seq cset1
     in if (case from_circuit of None \<Rightarrow> False
            | Some c \<Rightarrow> \<not> (\<exists>l \<in> set (take (cs_num_legs cset1) (cs_legs cset1)). lg_circuit l = Some c \<and> lg_active l))
        then (-1, cset1)
        else if seq = next_seq
        then if next_seq = UINT64_MAX then (-1, cset1) else (1, cset1\<lparr>cs_next_recv_seq := next_seq + 1\<rparr>)
        else if seq < next_seq then (-1, cset1)
        else if seq - next_seq \<ge> of_nat MOOR_CONFLUX_REORDER_BUF then (-1, cset1)
        else if \<exists>e \<in> set (cs_reorder cset1). re_valid e \<and> re_seq e = seq then (-1, cset1)
        else (case first_index (\<lambda>e. \<not> re_valid e) (cs_reorder cset1) of
            None \<Rightarrow> (-1, cset1)
          | Some i \<Rightarrow>
              let e = (cs_reorder cset1 ! i)\<lparr>re_seq := seq, re_stream_id := stream_id\<rparr> in
              if unat data_len > 490 then (-1, cset1\<lparr>cs_reorder := (cs_reorder cset1)[i := e]\<rparr>)
              else (0, cset1\<lparr>cs_reorder := (cs_reorder cset1)[i :=
                     e\<lparr>re_data := mem_write (re_data e) 0 (mem_read data 0 (unat data_len)),
                       re_data_len := data_len, re_valid := True, re_buffered_at := now2\<rparr>]\<rparr>)))"

text \<open>
  \<open>len_out\<close> is the size of the caller's buffer. The result is the return code with the
  stream and the data it hands out.
\<close>

definition moor_conflux_deliver ::
    "moor_conflux_set \<Rightarrow> nat \<Rightarrow> int \<times> (u16 \<times> bytes) option \<times> moor_conflux_set" where
  "moor_conflux_deliver cset len_out =
    (case first_index (\<lambda>e. re_valid e \<and> re_seq e = cs_next_recv_seq cset) (cs_reorder cset) of
       None \<Rightarrow> (0, None, cset)
     | Some i \<Rightarrow>
         let e = cs_reorder cset ! i in
         if unat (re_data_len e) > len_out then (0, None, cset)
         else let out = (re_stream_id e, mem_read (re_data e) 0 (unat (re_data_len e)));
                  cset1 = cset\<lparr>cs_reorder := (cs_reorder cset)[i := e\<lparr>re_valid := False\<rparr>]\<rparr>
              in if cs_next_recv_seq cset = UINT64_MAX then (-1, Some out, cset1)
                 else (1, Some out, cset1\<lparr>cs_next_recv_seq := cs_next_recv_seq cset + 1\<rparr>))"

definition moor_conflux_encrypt_seq :: "(bytes \<Rightarrow> bytes) \<Rightarrow> moor_conflux_set option \<Rightarrow> u64 \<Rightarrow> u64" where
  "moor_conflux_encrypt_seq blake2b cset seq =
    (case cset of None \<Rightarrow> seq | Some s \<Rightarrow> feistel_encrypt blake2b (cs_seq_key s) seq)"

definition moor_conflux_leg_failed ::
    "moor_conflux_set \<Rightarrow> circ_store \<Rightarrow> nat option \<Rightarrow> bool \<times> moor_conflux_set \<times> circ_store" where
  "moor_conflux_leg_failed cset st failed_circuit =
    (case failed_circuit of None \<Rightarrow> (False, cset, st)
     | Some c \<Rightarrow>
         let (cset', st') =
           (case first_index (\<lambda>l. lg_circuit l = Some c) (take (cs_num_legs cset) (cs_legs cset)) of
              None \<Rightarrow> (cset, st)
            | Some i \<Rightarrow> (cset\<lparr>cs_legs := (cs_legs cset)[i := (cs_legs cset ! i)\<lparr>lg_active := False, lg_circuit := None\<rparr>]\<rparr>,
                        st(c := (st c)\<lparr>cx_conflux := None\<rparr>)))
         in (\<exists>l \<in> set (take (cs_num_legs cset') (cs_legs cset')). lg_active l, cset', st'))"

text \<open>The set is wiped and freed: what remains are the circuits without their back pointers.\<close>

definition moor_conflux_free :: "moor_conflux_set \<Rightarrow> circ_store \<Rightarrow> circ_store" where
  "moor_conflux_free cset st =
    fold (\<lambda>l s. case lg_circuit l of None \<Rightarrow> s | Some c \<Rightarrow> s(c := (s c)\<lparr>cx_conflux := None\<rparr>))
      (take (cs_num_legs cset) (cs_legs cset)) st"

text \<open>
  The client's handling of a data cell on a circuit of a set: receive, hand out the cell when
  it is the next one, then drain the reorder buffer with a buffer of \<open>MOOR_RELAY_DATA\<close> bytes.
  The result lists what is handed to the streams.
\<close>

definition valid_count :: "moor_conflux_set \<Rightarrow> nat" where
  "valid_count cset = length (filter re_valid (cs_reorder cset))"

lemma deliver_valid_count:
  assumes "moor_conflux_deliver cset n = (rc, out, cset')" and "rc = 1"
  shows "valid_count cset' < valid_count cset"
proof -
  from assms obtain i where i: "first_index (\<lambda>e. re_valid e \<and> re_seq e = cs_next_recv_seq cset) (cs_reorder cset) = Some i"
    and c: "cs_reorder cset' = (cs_reorder cset)[i := (cs_reorder cset ! i)\<lparr>re_valid := False\<rparr>]"
    by (auto simp: moor_conflux_deliver_def Let_def split: option.splits if_splits)
  from first_index_Some [OF i] have i': "i < length (cs_reorder cset)" "re_valid (cs_reorder cset ! i)" by auto
  then have d: "cs_reorder cset = take i (cs_reorder cset) @ (cs_reorder cset ! i) # drop (Suc i) (cs_reorder cset)"
    by (simp add: id_take_nth_drop)
  have "valid_count cset = Suc (length (filter re_valid (take i (cs_reorder cset))) +
      length (filter re_valid (drop (Suc i) (cs_reorder cset))))"
    unfolding valid_count_def by (subst d) (use i' in simp)
  moreover have "valid_count cset' = length (filter re_valid (take i (cs_reorder cset))) +
      length (filter re_valid (drop (Suc i) (cs_reorder cset)))"
    unfolding valid_count_def c using i' by (simp add: upd_conv_take_nth_drop)
  ultimately show ?thesis by simp
qed

function conflux_drain :: "moor_conflux_set \<Rightarrow> (u16 \<times> bytes) list \<times> moor_conflux_set" where
  "conflux_drain cset =
    (let (rc, out, cset') = moor_conflux_deliver cset MOOR_RELAY_DATA
     in if rc \<noteq> 1 then ([], cset')
        else let (outs, cset'') = conflux_drain cset' in (the out # outs, cset''))"
  by pat_completeness auto
termination
  by (relation "measure valid_count") (auto dest: deliver_valid_count [OF sym])

declare conflux_drain.simps [simp del]

definition conflux_on_data ::
    "(bytes \<Rightarrow> bytes) \<Rightarrow> u64 \<Rightarrow> u64 \<Rightarrow> moor_conflux_set \<Rightarrow> nat option \<Rightarrow> moor_relay_payload
      \<Rightarrow> (u16 \<times> bytes) list \<times> moor_conflux_set" where
  "conflux_on_data blake2b now now2 cset circ relay =
    (let d = r_data relay;
         enc_seq = de64 (d ! 0) (d ! 1) (d ! 2) (d ! 3) (d ! 4) (d ! 5) (d ! 6) (d ! 7);
         payload_len = r_data_length relay - 8;
         (rr, cset1) = moor_conflux_receive blake2b now now2 cset circ enc_seq (r_stream_id relay)
                         (drop 8 d) payload_len
     in if rr < 0 then ([], cset1)
        else let direct = (if rr = 1 then [(r_stream_id relay, mem_read (drop 8 d) 0 (unat payload_len))] else []);
                 (outs, cset2) = conflux_drain cset1
             in (direct @ outs, cset2))"

section \<open>The permutation is invertible\<close>

lemma low_half: "x AND 0xFFFFFFFF = (take_bit 32 x :: u64)"
  by (simp add: take_bit_eq_mask mask_eq_exp_minus_1)

lemma not_bit_u32 [simp]: "32 \<le> n \<Longrightarrow> \<not> bit (b :: u32) n"
  using bit_imp_le_length [of b n] by auto

definition fe_split :: "u64 \<Rightarrow> u32 \<times> u32" where
  "fe_split x = (ucast (drop_bit 32 x), ucast (x AND 0xFFFFFFFF))"

definition fe_join :: "u32 \<times> u32 \<Rightarrow> u64" where
  "fe_join p = push_bit 32 (ucast (fst p)) OR ucast (snd p)"

lemma fe_split_join: "fe_split (fe_join p) = p"
proof -
  have "ucast (drop_bit 32 (push_bit 32 (ucast L) OR ucast R :: u64)) = L"
    "ucast (take_bit 32 (push_bit 32 (ucast L) OR ucast R :: u64)) = R" for L R :: u32
    by (rule bit_word_eqI, auto simp: bit_simps)+
  then show ?thesis unfolding fe_split_def fe_join_def low_half by simp
qed

lemma fe_join_split: "fe_join (fe_split x) = x"
proof -
  have "push_bit 32 (ucast (ucast (drop_bit 32 x) :: u32)) OR ucast (ucast (take_bit 32 x) :: u32) = x"
    by (rule bit_word_eqI) (auto simp: bit_simps not_le)
  then show ?thesis unfolding fe_split_def fe_join_def low_half by simp
qed

lemma fe_rounds_inverse:
  "fold (\<lambda>i (L, R). (R XOR f i L, L)) [3, 2, 1, 0] (fold (\<lambda>i (L, R). (R, L XOR f i R)) [0, 1, 2, 3] p) = p"
  "fold (\<lambda>i (L, R). (R, L XOR f i R)) [0, 1, 2, 3] (fold (\<lambda>i (L, R). (R XOR f i L, L)) [3, 2, 1, 0] p) = p"
  for f :: "u8 \<Rightarrow> u32 \<Rightarrow> u32"
  by (cases p; simp add: xor.assoc)+

lemma feistel_as_rounds:
  "feistel_encrypt blake2b key x =
    fe_join (fold (\<lambda>i (L, R). (R, L XOR feistel_round_fn blake2b key i R)) [0, 1, 2, 3] (fe_split x))"
  "feistel_decrypt blake2b key x =
    fe_join (fold (\<lambda>i (L, R). (R XOR feistel_round_fn blake2b key i L, L)) [3, 2, 1, 0] (fe_split x))"
  unfolding feistel_encrypt_def feistel_decrypt_def fe_join_def fe_split_def
  by (simp_all only: Let_def case_prod_beta)

lemma feistel_decrypt_encrypt: "feistel_decrypt blake2b key (feistel_encrypt blake2b key x) = x"
  by (simp only: feistel_as_rounds fe_split_join fe_rounds_inverse fe_join_split)

lemma feistel_encrypt_decrypt: "feistel_encrypt blake2b key (feistel_decrypt blake2b key x) = x"
  by (simp only: feistel_as_rounds fe_split_join fe_rounds_inverse fe_join_split)

section \<open>Runs of the receiver\<close>

record cfx_arrival =
  ca_now :: u64
  ca_now2 :: u64
  ca_circ :: "nat option"
  ca_relay :: moor_relay_payload

fun cfx_run :: "(bytes \<Rightarrow> bytes) \<Rightarrow> moor_conflux_set \<Rightarrow> cfx_arrival list \<Rightarrow> (u16 \<times> bytes) list \<times> moor_conflux_set" where
  "cfx_run blake2b cset [] = ([], cset)"
| "cfx_run blake2b cset (a # as) =
     (let (o1, cset1) = conflux_on_data blake2b (ca_now a) (ca_now2 a) cset (ca_circ a) (ca_relay a);
          (o2, cset2) = cfx_run blake2b cset1 as
      in (o1 @ o2, cset2))"

text \<open>
  The cell \<open>a\<close> carries the sequence number \<open>s\<close>, encrypted as the sender does, and the stream
  and data \<open>pay s\<close>.
\<close>

definition carries :: "(bytes \<Rightarrow> bytes) \<Rightarrow> bytes \<Rightarrow> (u64 \<Rightarrow> u16 \<times> bytes) \<Rightarrow> u64 \<Rightarrow> cfx_arrival \<Rightarrow> bool" where
  "carries blake2b key pay s a \<longleftrightarrow>
    length (snd (pay s)) \<le> 490 \<and> r_stream_id (ca_relay a) = fst (pay s) \<and>
    r_data_length (ca_relay a) = of_nat (8 + length (snd (pay s))) \<and>
    (\<exists>pad. r_data (ca_relay a) = be64 (feistel_encrypt blake2b key s) @ snd (pay s) @ pad)"

lemma on_data_carries:
  assumes "carries blake2b key pay s a" and "cs_seq_key cset = key"
  shows "\<exists>pad. conflux_on_data blake2b now now2 cset c (ca_relay a) =
    (let (rr, cset1) = moor_conflux_receive blake2b now now2 cset c (feistel_encrypt blake2b key s)
           (fst (pay s)) (snd (pay s) @ pad) (of_nat (length (snd (pay s))))
     in if rr < 0 then ([], cset1)
        else let (outs, cset2) = conflux_drain cset1
             in ((if rr = 1 then [pay s] else []) @ outs, cset2))"
proof -
  from assms obtain pad where d: "r_data (ca_relay a) = be64 (feistel_encrypt blake2b key s) @ snd (pay s) @ pad"
    and l: "r_data_length (ca_relay a) - 8 = of_nat (length (snd (pay s)))"
    and sid: "r_stream_id (ca_relay a) = fst (pay s)" and n: "length (snd (pay s)) \<le> 490"
    by (auto simp: carries_def)
  have u: "unat (of_nat (length (snd (pay s))) :: u16) = length (snd (pay s))"
    using n by (intro of_nat_u16_small) linarith
  show ?thesis
    unfolding conflux_on_data_def Let_def l sid d
    by (rule exI [of _ pad]) (auto simp: be64_def u mem_read_def split: prod.splits)
qed

text \<open>
  Every valid entry holds the stream and data of its sequence number, which is one of \<open>S\<close>.
\<close>

definition entries_ok :: "(u64 \<Rightarrow> u16 \<times> bytes) \<Rightarrow> u64 set \<Rightarrow> moor_conflux_set \<Rightarrow> bool" where
  "entries_ok pay S cset \<longleftrightarrow> (\<forall>e \<in> set (cs_reorder cset). length (re_data e) = 490 \<and>
    (re_valid e \<longrightarrow> re_seq e \<in> S \<and> unat (re_data_len e) \<le> 490 \<and>
      (re_stream_id e, mem_read (re_data e) 0 (unat (re_data_len e))) = pay (re_seq e)))"

lemma entries_ok_update:
  assumes "entries_ok pay S cset" and "length (re_data e) = 490"
    and "re_valid e \<Longrightarrow> re_seq e \<in> S \<and> unat (re_data_len e) \<le> 490 \<and>
      (re_stream_id e, mem_read (re_data e) 0 (unat (re_data_len e))) = pay (re_seq e)"
  shows "entries_ok pay S (cset\<lparr>cs_reorder := (cs_reorder cset)[i := e]\<rparr>)"
  using assms unfolding entries_ok_def
  by (auto dest!: set_update_subset_insert [THEN subsetD])

lemma entries_ok_seq [simp]: "entries_ok pay S (cset\<lparr>cs_next_recv_seq := n\<rparr>) = entries_ok pay S cset"
  by (simp add: entries_ok_def)

lemma entries_ok_expire: "entries_ok pay S cset \<Longrightarrow> entries_ok pay S (conflux_expire now cset)"
  by (auto simp: conflux_expire_def entries_ok_def Let_def)

lemma expire_keys [simp]:
  "cs_seq_key (conflux_expire now cset) = cs_seq_key cset"
  "cs_next_recv_seq cset \<le> cs_next_recv_seq (conflux_expire now cset)"
  by (auto simp: conflux_expire_def Let_def)

lemma entries_ok_nth:
  "entries_ok pay S cset \<Longrightarrow> i < length (cs_reorder cset) \<Longrightarrow> length (re_data (cs_reorder cset ! i)) = 490"
  by (simp add: entries_ok_def)

lemma receive_ok:
  assumes e: "entries_ok pay S cset" and s: "s \<in> S" and n: "length (snd (pay s)) \<le> 490"
    and r: "moor_conflux_receive blake2b now now2 cset c (feistel_encrypt blake2b (cs_seq_key cset) s)
      (fst (pay s)) (snd (pay s) @ pad) (of_nat (length (snd (pay s)))) = (rr, cset')"
  shows "entries_ok pay S cset'" and "cs_seq_key cset' = cs_seq_key cset"
    and "cs_next_recv_seq cset \<le> cs_next_recv_seq cset'"
    and "rr = 1 \<Longrightarrow> cs_next_recv_seq cset \<le> s \<and> s < cs_next_recv_seq cset'"
proof -
  let ?c = "conflux_expire now cset"
  have u: "unat (of_nat (length (snd (pay s))) :: u16) = length (snd (pay s))"
    using n by (intro of_nat_u16_small) linarith
  note ok = entries_ok_expire [OF e, of now]
  have inc: "x \<noteq> - 1 \<Longrightarrow> x < x + 1" for x :: u64
    by (simp add: word_less_nat_alt unat_succ_below_max)
  have "entries_ok pay S cset' \<and> cs_seq_key cset' = cs_seq_key cset \<and>
      cs_next_recv_seq ?c \<le> cs_next_recv_seq cset' \<and> (rr = 1 \<longrightarrow> s = cs_next_recv_seq ?c \<and> s < cs_next_recv_seq cset')"
  proof (cases "rr = 1")
    case True
    with r have "s = cs_next_recv_seq ?c" "s \<noteq> -1" "cset' = ?c\<lparr>cs_next_recv_seq := s + 1\<rparr>"
      by (auto simp: moor_conflux_receive_def feistel_decrypt_encrypt Let_def split: if_splits option.splits)
    then show ?thesis using ok inc [of s] by (auto intro: less_imp_le)
  next
    case False
    with r u n have "cset' = ?c \<or> (\<exists>i. first_index (\<lambda>e. \<not> re_valid e) (cs_reorder ?c) = Some i \<and>
       cset' = ?c\<lparr>cs_reorder := (cs_reorder ?c)[i := (cs_reorder ?c ! i)\<lparr>re_seq := s, re_stream_id := fst (pay s),
         re_data := mem_write (re_data (cs_reorder ?c ! i)) 0 (mem_read (snd (pay s) @ pad) 0 (length (snd (pay s)))),
         re_data_len := of_nat (length (snd (pay s))), re_valid := True, re_buffered_at := now2\<rparr>]\<rparr>)"
      by (auto simp: moor_conflux_receive_def feistel_decrypt_encrypt Let_def split: if_splits option.splits)
    then show ?thesis
    proof
      assume "cset' = ?c"
      then show ?thesis using ok False by simp
    next
      assume "\<exists>i. first_index (\<lambda>e. \<not> re_valid e) (cs_reorder ?c) = Some i \<and>
       cset' = ?c\<lparr>cs_reorder := (cs_reorder ?c)[i := (cs_reorder ?c ! i)\<lparr>re_seq := s, re_stream_id := fst (pay s),
         re_data := mem_write (re_data (cs_reorder ?c ! i)) 0 (mem_read (snd (pay s) @ pad) 0 (length (snd (pay s)))),
         re_data_len := of_nat (length (snd (pay s))), re_valid := True, re_buffered_at := now2\<rparr>]\<rparr>"
      then obtain i where i: "i < length (cs_reorder ?c)" and c': "cset' = ?c\<lparr>cs_reorder := (cs_reorder ?c)[i := (cs_reorder ?c ! i)\<lparr>re_seq := s, re_stream_id := fst (pay s),
         re_data := mem_write (re_data (cs_reorder ?c ! i)) 0 (mem_read (snd (pay s) @ pad) 0 (length (snd (pay s)))),
         re_data_len := of_nat (length (snd (pay s))), re_valid := True, re_buffered_at := now2\<rparr>]\<rparr>"
        by (auto dest: first_index_Some)
      have "entries_ok pay S cset'"
        unfolding c' using ok s n u entries_ok_nth [OF ok i]
        by (intro entries_ok_update) (auto simp: mem_read_def)
      then show ?thesis using False c' by simp
    qed
  qed
  then show "entries_ok pay S cset'" "cs_seq_key cset' = cs_seq_key cset"
    "cs_next_recv_seq cset \<le> cs_next_recv_seq cset'"
    "rr = 1 \<Longrightarrow> cs_next_recv_seq cset \<le> s \<and> s < cs_next_recv_seq cset'"
    using order_trans [OF expire_keys(2) [of cset now]] by auto
qed

lemma deliver_ok:
  assumes e: "entries_ok pay S cset" and d: "moor_conflux_deliver cset MOOR_RELAY_DATA = (rc, out, cset')"
  shows "entries_ok pay S cset'" and "cs_seq_key cset' = cs_seq_key cset"
    and "rc = 1 \<Longrightarrow> out = Some (pay (cs_next_recv_seq cset)) \<and> cs_next_recv_seq cset \<in> S \<and>
      cs_next_recv_seq cset < cs_next_recv_seq cset'"
    and "rc \<noteq> 1 \<Longrightarrow> cs_next_recv_seq cset' = cs_next_recv_seq cset"
proof -
  have inc: "x \<noteq> - 1 \<Longrightarrow> x < x + 1" for x :: u64
    by (simp add: word_less_nat_alt unat_succ_below_max)
  have in_set: "i < length (cs_reorder cset) \<Longrightarrow> cs_reorder cset ! i \<in> set (cs_reorder cset)" for i by simp
  show "entries_ok pay S cset'" and "cs_seq_key cset' = cs_seq_key cset"
    and "rc \<noteq> 1 \<Longrightarrow> cs_next_recv_seq cset' = cs_next_recv_seq cset"
    using d e
    by (auto simp: moor_conflux_deliver_def Let_def entries_ok_nth [OF e] split: option.splits if_splits
        dest!: first_index_Some intro!: entries_ok_update)
  assume "rc = 1"
  with d obtain i where i: "i < length (cs_reorder cset)" "re_valid (cs_reorder cset ! i)"
    "re_seq (cs_reorder cset ! i) = cs_next_recv_seq cset"
    and o: "out = Some (re_stream_id (cs_reorder cset ! i),
      mem_read (re_data (cs_reorder cset ! i)) 0 (unat (re_data_len (cs_reorder cset ! i))))"
    and n: "cs_next_recv_seq cset \<noteq> -1" "cs_next_recv_seq cset' = cs_next_recv_seq cset + 1"
    by (auto simp: moor_conflux_deliver_def Let_def split: option.splits if_splits dest!: first_index_Some)
  from e in_set [OF i(1)] i show "out = Some (pay (cs_next_recv_seq cset)) \<and> cs_next_recv_seq cset \<in> S \<and>
      cs_next_recv_seq cset < cs_next_recv_seq cset'"
    using o n inc by (auto simp: entries_ok_def)
qed

text \<open>
  The shape of every output: the payloads of a strictly increasing list of sequence numbers
  of \<open>S\<close>, between the old and the new \<open>next_recv_seq\<close>.
\<close>

definition in_order :: "(u64 \<Rightarrow> u16 \<times> bytes) \<Rightarrow> u64 set \<Rightarrow> u64 \<Rightarrow> u64 \<Rightarrow> (u16 \<times> bytes) list \<Rightarrow> bool" where
  "in_order pay S lo hi outs \<longleftrightarrow> lo \<le> hi \<and>
    (\<exists>ks. outs = map pay ks \<and> sorted_wrt (<) ks \<and> set ks \<subseteq> S \<and> (\<forall>k \<in> set ks. lo \<le> k \<and> k < hi))"

lemma in_order_Nil: "lo \<le> hi \<Longrightarrow> in_order pay S lo hi []"
  by (auto simp: in_order_def intro: exI [of _ "[]"])

lemma in_order_Cons: "k \<in> S \<Longrightarrow> lo \<le> k \<Longrightarrow> k < mid \<Longrightarrow> in_order pay S mid hi outs \<Longrightarrow> in_order pay S lo hi (pay k # outs)"
  unfolding in_order_def
  by (elim conjE exE, intro conjI, fastforce, rule_tac x = "k # ks" in exI)
     (auto intro: less_le_trans order_trans less_imp_le)

lemma in_order_append:
  assumes "in_order pay S lo mid o1" and "in_order pay S mid hi o2"
  shows "in_order pay S lo hi (o1 @ o2)"
proof -
  from assms obtain k1 k2 where k: "o1 = map pay k1" "sorted_wrt (<) k1" "set k1 \<subseteq> S"
    "\<forall>k \<in> set k1. lo \<le> k \<and> k < mid" "o2 = map pay k2" "sorted_wrt (<) k2" "set k2 \<subseteq> S"
    "\<forall>k \<in> set k2. mid \<le> k \<and> k < hi" and "lo \<le> mid" "mid \<le> hi"
    unfolding in_order_def by auto
  then have "\<forall>k \<in> set (k1 @ k2). lo \<le> k \<and> k < hi" "sorted_wrt (<) (k1 @ k2)"
    by (auto simp: sorted_wrt_append intro: less_le_trans order_trans)
  with k \<open>lo \<le> mid\<close> \<open>mid \<le> hi\<close> show ?thesis
    unfolding in_order_def by (auto intro!: exI [of _ "k1 @ k2"])
qed

lemma drain_in_order:
  assumes "entries_ok pay S cset" and "conflux_drain cset = (outs, cset')"
  shows "in_order pay S (cs_next_recv_seq cset) (cs_next_recv_seq cset') outs \<and>
    entries_ok pay S cset' \<and> cs_seq_key cset' = cs_seq_key cset"
  using assms
proof (induction cset arbitrary: outs cset' rule: conflux_drain.induct)
  case (1 cset)
  obtain rc out c1 where d: "moor_conflux_deliver cset MOOR_RELAY_DATA = (rc, out, c1)"
    by (cases "moor_conflux_deliver cset MOOR_RELAY_DATA") auto
  note ok = deliver_ok [OF 1(2) d]
  show ?case
  proof (cases "rc = 1")
    case False
    with 1(3) d ok show ?thesis
      by (subst (asm) conflux_drain.simps) (auto intro: in_order_Nil)
  next
    case True
    obtain o2 c2 where r: "conflux_drain c1 = (o2, c2)" by (cases "conflux_drain c1") auto
    from 1(3) True d r have res: "outs = the out # o2" "cset' = c2"
      by (subst (asm) conflux_drain.simps, simp)+
    from 1(1) [OF d [symmetric] refl refl _ ok(1) r] True have ih: "in_order pay S (cs_next_recv_seq c1) (cs_next_recv_seq c2) o2"
      "entries_ok pay S c2" "cs_seq_key c2 = cs_seq_key c1" by auto
    with res ok(2) ok(3) [OF True] show ?thesis by (auto intro!: in_order_Cons)
  qed
qed

lemma on_data_in_order:
  assumes e: "entries_ok pay S cset" and s: "s \<in> S" and c: "carries blake2b (cs_seq_key cset) pay s a"
    and o: "conflux_on_data blake2b now now2 cset circ (ca_relay a) = (outs, cset')"
  shows "in_order pay S (cs_next_recv_seq cset) (cs_next_recv_seq cset') outs \<and>
    entries_ok pay S cset' \<and> cs_seq_key cset' = cs_seq_key cset"
proof -
  from c have n: "length (snd (pay s)) \<le> 490" by (simp add: carries_def)
  from on_data_carries [OF c refl, of now now2 circ] obtain pad where
    pad: "conflux_on_data blake2b now now2 cset circ (ca_relay a) =
      (let (rr, cset1) = moor_conflux_receive blake2b now now2 cset circ (feistel_encrypt blake2b (cs_seq_key cset) s)
           (fst (pay s)) (snd (pay s) @ pad) (of_nat (length (snd (pay s))))
       in if rr < 0 then ([], cset1)
          else let (outs, cset2) = conflux_drain cset1
               in ((if rr = 1 then [pay s] else []) @ outs, cset2))" by blast
  obtain rr c1 where r: "moor_conflux_receive blake2b now now2 cset circ (feistel_encrypt blake2b (cs_seq_key cset) s)
      (fst (pay s)) (snd (pay s) @ pad) (of_nat (length (snd (pay s)))) = (rr, c1)"
    by fastforce
  with o pad have res: "(if rr < 0 then ([], c1) else let (outs, c2) = conflux_drain c1
             in ((if rr = 1 then [pay s] else []) @ outs, c2)) = (outs, cset')"
    by simp
  note ok = receive_ok [OF e s n r]
  show ?thesis
  proof (cases "rr < 0")
    case True
    then show ?thesis using res ok by (auto intro: in_order_Nil)
  next
    case False
    obtain o2 c2 where d: "conflux_drain c1 = (o2, c2)" by (cases "conflux_drain c1") auto
    note dr = drain_in_order [OF ok(1) d]
    show ?thesis
    proof (cases "rr = 1")
      case True
      from ok(4) [OF True] s dr have "in_order pay S (cs_next_recv_seq cset) (cs_next_recv_seq c2) (pay s # o2)"
        by (auto intro: in_order_Cons)
      then show ?thesis using False True res d dr ok by simp
    next
      case f: False
      from in_order_append [OF in_order_Nil [OF ok(3)]] dr
      have "in_order pay S (cs_next_recv_seq cset) (cs_next_recv_seq c2) o2" by fastforce
      then show ?thesis using False f res d dr ok by simp
    qed
  qed
qed

lemma cfx_run_in_order:
  assumes "entries_ok pay S cset" and "\<forall>a \<in> set as. \<exists>s \<in> S. carries blake2b (cs_seq_key cset) pay s a"
    and "cfx_run blake2b cset as = (outs, cset')"
  shows "in_order pay S (cs_next_recv_seq cset) (cs_next_recv_seq cset') outs"
  using assms
proof (induction as arbitrary: cset outs)
  case Nil
  then show ?case by (simp add: in_order_Nil)
next
  case (Cons a as)
  obtain o1 c1 where 1: "conflux_on_data blake2b (ca_now a) (ca_now2 a) cset (ca_circ a) (ca_relay a) = (o1, c1)"
    by fastforce
  obtain o2 where 2: "cfx_run blake2b c1 as = (o2, cset')" and outs: "outs = o1 @ o2"
    using Cons.prems(3) 1 by (auto split: prod.splits)
  from Cons.prems(2) obtain s where "s \<in> S" "carries blake2b (cs_seq_key cset) pay s a" by auto
  note ok = on_data_in_order [OF Cons.prems(1) this 1]
  with Cons.IH [of c1 o2] Cons.prems(2) 2 have "in_order pay S (cs_next_recv_seq c1) (cs_next_recv_seq cset') o2" by auto
  with ok show ?case unfolding outs by (auto intro: in_order_append)
qed

section \<open>Completeness of reordering\<close>

definition cfx_timeout :: "moor_conflux_set \<Rightarrow> u64" where
  "cfx_timeout cset = (if cs_reorder_timeout_ms cset > 0 then ucast (cs_reorder_timeout_ms cset) else 10000)"

text \<open>The sequence numbers waiting in the reorder buffer.\<close>

definition waiting :: "moor_conflux_set \<Rightarrow> nat list" where
  "waiting cset = map (\<lambda>e. unat (re_seq e)) (filter re_valid (cs_reorder cset))"

text \<open>What draining leaves as it is.\<close>

definition drained_from :: "moor_conflux_set \<Rightarrow> moor_conflux_set \<Rightarrow> bool" where
  "drained_from c c' \<longleftrightarrow> cs_legs c' = cs_legs c \<and> cs_num_legs c' = cs_num_legs c \<and>
    cs_seq_key c' = cs_seq_key c \<and> cs_reorder_timeout_ms c' = cs_reorder_timeout_ms c \<and>
    length (cs_reorder c') = length (cs_reorder c) \<and>
    (\<forall>e \<in> set (cs_reorder c'). re_valid e \<longrightarrow> e \<in> set (cs_reorder c))"

lemma drained_from_trans: "drained_from a b \<Longrightarrow> drained_from b c \<Longrightarrow> drained_from a c"
  by (auto simp: drained_from_def)

lemma expire_idle:
  assumes "\<forall>e \<in> set (cs_reorder cset). re_valid e \<longrightarrow> now - re_buffered_at e \<le> cfx_timeout cset"
  shows "conflux_expire now cset = cset"
proof -
  have "\<not> entry_stale now (cfx_timeout cset) e" if "e \<in> set (cs_reorder cset)" for e
    using assms that by (auto simp: entry_stale_def not_less)
  then have "map (\<lambda>e. if entry_stale now (cfx_timeout cset) e then e\<lparr>re_valid := False\<rparr> else e) (cs_reorder cset) =
      cs_reorder cset" and "\<not> (\<exists>e \<in> set (cs_reorder cset). entry_stale now (cfx_timeout cset) e)"
    by (auto intro: map_idI)
  then show ?thesis unfolding conflux_expire_def cfx_timeout_def [symmetric] Let_def by simp
qed

lemma list_at: "i < length xs \<Longrightarrow> \<exists>ys zs. xs = ys @ (xs ! i) # zs \<and> length ys = i"
  by (rule exI [of _ "take i xs"], rule exI [of _ "drop (Suc i) xs"]) (simp add: id_take_nth_drop)

lemma waiting_remove:
  assumes "i < length (cs_reorder c)" and "re_valid (cs_reorder c ! i)" and "distinct (waiting c)"
    and "cs_reorder c' = (cs_reorder c)[i := (cs_reorder c ! i)\<lparr>re_valid := False\<rparr>]"
  shows "set (waiting c') = set (waiting c) - {unat (re_seq (cs_reorder c ! i))}" and "distinct (waiting c')"
proof -
  from list_at [OF assms(1)] obtain ys zs where l: "cs_reorder c = ys @ (cs_reorder c ! i) # zs" "length ys = i" by auto
  then have l': "cs_reorder c' = ys @ (cs_reorder c ! i)\<lparr>re_valid := False\<rparr> # zs"
    using assms(4) by (metis list_update_length)
  have w: "waiting c = map (\<lambda>e. unat (re_seq e)) (filter re_valid ys) @ unat (re_seq (cs_reorder c ! i)) #
      map (\<lambda>e. unat (re_seq e)) (filter re_valid zs)"
    unfolding waiting_def by (subst l(1)) (use assms(2) in simp)
  have w': "waiting c' = map (\<lambda>e. unat (re_seq e)) (filter re_valid ys) @ map (\<lambda>e. unat (re_seq e)) (filter re_valid zs)"
    unfolding waiting_def l' by simp
  show "set (waiting c') = set (waiting c) - {unat (re_seq (cs_reorder c ! i))}" "distinct (waiting c')"
    using assms(3) unfolding w w' by auto
qed

lemma waiting_insert:
  assumes "i < length (cs_reorder c)" and "\<not> re_valid (cs_reorder c ! i)" and "distinct (waiting c)"
    and "re_valid e" and "unat (re_seq e) \<notin> set (waiting c)"
    and "cs_reorder c' = (cs_reorder c)[i := e]"
  shows "set (waiting c') = insert (unat (re_seq e)) (set (waiting c))" and "distinct (waiting c')"
proof -
  from list_at [OF assms(1)] obtain ys zs where l: "cs_reorder c = ys @ (cs_reorder c ! i) # zs" "length ys = i" by auto
  then have l': "cs_reorder c' = ys @ e # zs"
    using assms(6) by (metis list_update_length)
  have w: "waiting c = map (\<lambda>e. unat (re_seq e)) (filter re_valid ys) @ map (\<lambda>e. unat (re_seq e)) (filter re_valid zs)"
    unfolding waiting_def by (subst l(1)) (use assms(2) in simp)
  have w': "waiting c' = map (\<lambda>e. unat (re_seq e)) (filter re_valid ys) @ unat (re_seq e) # map (\<lambda>e. unat (re_seq e)) (filter re_valid zs)"
    unfolding waiting_def l' using assms(4) by simp
  show "set (waiting c') = insert (unat (re_seq e)) (set (waiting c))" "distinct (waiting c')"
    using assms(3,5) unfolding w w' by auto
qed

lemma waiting_first_index:
  assumes "m < 2 ^ 64" and "cs_next_recv_seq c = of_nat m"
  shows "m \<in> set (waiting c) \<longleftrightarrow>
    first_index (\<lambda>e. re_valid e \<and> re_seq e = cs_next_recv_seq c) (cs_reorder c) \<noteq> None"
proof -
  have "unat (re_seq e) = m \<longleftrightarrow> re_seq e = of_nat m" for e
    by (rule unat_u64_eq_iff [OF assms(1)])
  then have "m \<in> set (waiting c) \<longleftrightarrow> (\<exists>e \<in> set (cs_reorder c). re_valid e \<and> re_seq e = of_nat m)"
    by (force simp: waiting_def)
  then show ?thesis using assms(2) by (auto simp: first_index_None)
qed

lemma deliver_next:
  assumes e: "entries_ok pay S c" and m: "Suc m < 2 ^ 64" "cs_next_recv_seq c = of_nat m"
    and w: "m \<in> set (waiting c)" "distinct (waiting c)"
    and d: "moor_conflux_deliver c MOOR_RELAY_DATA = (rc, out, c')"
  shows "rc = 1" and "out = Some (pay (of_nat m))" and "cs_next_recv_seq c' = of_nat (Suc m)"
    and "set (waiting c') = set (waiting c) - {m}" and "distinct (waiting c')" and "drained_from c c'"
proof -
  from m(1) have m64: "m < 2 ^ 64" by simp
  then have um: "unat (of_nat m :: u64) = m" by (rule of_nat_u64_small)
  have nm: "(of_nat m :: u64) \<noteq> -1"
  proof
    assume "(of_nat m :: u64) = -1"
    then have "m = unat (- 1 :: u64)" using um by metis
    then show False using m(1) by (simp add: unsigned_minus_1_eq_mask mask_eq_exp_minus_1)
  qed
  from w(1) obtain i where i: "first_index (\<lambda>e. re_valid e \<and> re_seq e = cs_next_recv_seq c) (cs_reorder c) = Some i"
    unfolding waiting_first_index [OF m64 m(2)] by auto
  from first_index_Some [OF i] have i': "i < length (cs_reorder c)" "re_valid (cs_reorder c ! i)"
    "re_seq (cs_reorder c ! i) = of_nat m" using m(2) by auto
  then have len: "unat (re_data_len (cs_reorder c ! i)) \<le> 490"
    using e by (auto simp: entries_ok_def)
  from d i nm m(2) len have rc: "rc = 1" and n: "cs_next_recv_seq c' = of_nat (Suc m)"
    and r: "cs_reorder c' = (cs_reorder c)[i := (cs_reorder c ! i)\<lparr>re_valid := False\<rparr>]"
    and f: "cs_legs c' = cs_legs c \<and> cs_num_legs c' = cs_num_legs c \<and> cs_seq_key c' = cs_seq_key c \<and>
      cs_reorder_timeout_ms c' = cs_reorder_timeout_ms c"
    by (auto simp: moor_conflux_deliver_def Let_def cell_sizes add.commute)
  show "rc = 1" and "cs_next_recv_seq c' = of_nat (Suc m)" by fact+
  show "out = Some (pay (of_nat m))" using deliver_ok(3) [OF e d rc] m(2) by simp
  show "set (waiting c') = set (waiting c) - {m}" "distinct (waiting c')"
    using waiting_remove [OF i'(1,2) w(2) r] i'(3) um by simp_all
  show "drained_from c c'"
    using f r by (auto simp: drained_from_def dest!: set_update_subset_insert [THEN subsetD])
qed

lemma drain_nothing:
  assumes "m \<notin> set (waiting c)" and "m < 2 ^ 64" and "cs_next_recv_seq c = of_nat m"
  shows "conflux_drain c = ([], c)"
proof -
  have "moor_conflux_deliver c MOOR_RELAY_DATA = (0, None, c)"
    using assms(1) waiting_first_index [OF assms(2,3)] by (simp add: moor_conflux_deliver_def)
  then show ?thesis by (subst conflux_drain.simps) simp
qed

text \<open>Draining hands out the maximal run of consecutive sequence numbers that is waiting.\<close>

lemma drain_run:
  assumes "entries_ok pay S c" and "cs_next_recv_seq c = of_nat m" and "distinct (waiting c)"
    and "m \<le> N" and "set (waiting c) \<subseteq> {..<N}" and "N < 2 ^ 64" and "conflux_drain c = (outs, c')"
  shows "\<exists>m' \<ge> m. {m..<m'} \<subseteq> set (waiting c) \<and> m' \<notin> set (waiting c) \<and> m' \<le> N \<and>
    outs = map (\<lambda>i. pay (of_nat i)) [m..<m'] \<and> cs_next_recv_seq c' = of_nat m' \<and>
    set (waiting c') = set (waiting c) - {m..<m'} \<and> distinct (waiting c') \<and> drained_from c c'"
  using assms
proof (induction "N - m" arbitrary: c m outs c')
  case 0
  then have "m \<notin> set (waiting c)" by auto
  with drain_nothing [of m c] 0 show ?case
    by (intro exI [of _ m]) (auto simp: drained_from_def)
next
  case (Suc k)
  show ?case
  proof (cases "m \<in> set (waiting c)")
    case False
    with drain_nothing [of m c] Suc show ?thesis
      by (intro exI [of _ m]) (auto simp: drained_from_def)
  next
    case True
    from Suc have m: "Suc m < 2 ^ 64" and le: "Suc m \<le> N" and k: "k = N - Suc m" by linarith+
    obtain rc out c1 where d: "moor_conflux_deliver c MOOR_RELAY_DATA = (rc, out, c1)" by (cases "moor_conflux_deliver c MOOR_RELAY_DATA")
    note n = deliver_next [OF Suc.prems(1) m Suc.prems(2) True Suc.prems(3) d]
    obtain o2 c2 where r: "conflux_drain c1 = (o2, c2)" by (cases "conflux_drain c1")
    from Suc.prems(7) d n(1) r have res: "outs = the out # o2" "c' = c2"
      by (subst (asm) conflux_drain.simps, simp)+
    have sub: "set (waiting c1) \<subseteq> {..<N}" using n(4) Suc.prems(5) by blast
    from Suc.hyps(1) [OF k deliver_ok(1) [OF Suc.prems(1) d] n(3) n(5) le sub Suc.prems(6) r]
    obtain m' where m': "Suc m \<le> m'" "{Suc m..<m'} \<subseteq> set (waiting c1)" "m' \<notin> set (waiting c1)" "m' \<le> N"
      "o2 = map (\<lambda>i. pay (of_nat i)) [Suc m..<m']" "cs_next_recv_seq c2 = of_nat m'"
      "set (waiting c2) = set (waiting c1) - {Suc m..<m'}" "distinct (waiting c2)" "drained_from c1 c2" by blast
    have iv: "{m..<m'} = insert m {Suc m..<m'}" using m'(1) by auto
    show ?thesis
    proof (intro exI [of _ m'] conjI)
      show "m \<le> m'" using m'(1) by simp
      show "{m..<m'} \<subseteq> set (waiting c)" using iv True m'(2) n(4) by auto
      show "m' \<notin> set (waiting c)" using m'(1,3) n(4) by auto
      show "outs = map (\<lambda>i. pay (of_nat i)) [m..<m']" using res n(2) m'(1,5) by (simp add: upt_conv_Cons)
      show "set (waiting c') = set (waiting c) - {m..<m'}" using res m'(7) n(4) iv by auto
      show "drained_from c c'" using res n(6) m'(9) by (auto intro: drained_from_trans)
    qed (use res m' in auto)
  qed
qed

definition leg_ok :: "moor_conflux_set \<Rightarrow> nat option \<Rightarrow> bool" where
  "leg_ok cset c \<longleftrightarrow> (case c of None \<Rightarrow> True
    | Some x \<Rightarrow> (\<exists>l \<in> set (take (cs_num_legs cset) (cs_legs cset)). lg_circuit l = Some x \<and> lg_active l))"

text \<open>
  The sequence numbers \<open>A\<close> have arrived, all below \<open>m\<close> have been handed out, \<open>m\<close> is missing, and
  the rest waits in the buffer.
\<close>

definition cfx_inv :: "(u64 \<Rightarrow> u16 \<times> bytes) \<Rightarrow> nat \<Rightarrow> nat set \<Rightarrow> moor_conflux_set \<Rightarrow> bool" where
  "cfx_inv pay m A c \<longleftrightarrow> cs_next_recv_seq c = of_nat m \<and> {0..<m} \<subseteq> A \<and> m \<notin> A \<and>
    set (waiting c) = A - {0..<m} \<and> distinct (waiting c) \<and> (\<forall>w \<in> set (waiting c). w < m + 32) \<and>
    length (cs_reorder c) = 32 \<and> entries_ok pay UNIV c"

lemma cfx_inv_free_entry:
  assumes "cfx_inv pay m A c"
  obtains i where "first_index (\<lambda>e. \<not> re_valid e) (cs_reorder c) = Some i"
proof (cases "first_index (\<lambda>e. \<not> re_valid e) (cs_reorder c)")
  case None
  then have "filter re_valid (cs_reorder c) = cs_reorder c" by (simp add: first_index_None filter_id_conv)
  then have "length (waiting c) = 32" using assms by (simp add: waiting_def cfx_inv_def)
  moreover have "set (waiting c) \<subseteq> {m<..<m + 32}"
    using assms by (auto simp: cfx_inv_def) (metis atLeastLessThan_iff nat_neq_iff zero_le)
  then have "card (set (waiting c)) \<le> card {m<..<m + 32}" by (rule card_mono [rotated]) simp
  ultimately show ?thesis using assms distinct_card [of "waiting c"] by (simp add: cfx_inv_def)
qed (use that in blast)

lemma u64_sub_of_nat: "m \<le> s \<Longrightarrow> (of_nat s :: u64) - of_nat m = of_nat (s - m)"
  by (simp add: of_nat_diff)

text \<open>A cell beyond the next expected one is put aside.\<close>

lemma receive_ahead:
  assumes inv: "cfx_inv pay m A c" and s: "m < s" "s \<notin> A" "s < m + 32" "s < 2 ^ 64"
    and leg: "leg_ok c circ" and idle: "conflux_expire now c = c" and len: "length (snd (pay (of_nat s))) \<le> 490"
    and r: "moor_conflux_receive blake2b now now2 c circ (feistel_encrypt blake2b (cs_seq_key c) (of_nat s))
      (fst (pay (of_nat s))) (snd (pay (of_nat s)) @ pad) (of_nat (length (snd (pay (of_nat s))))) = (rr, c')"
  shows "rr = 0 \<and> cfx_inv pay m (insert s A) c' \<and> cs_legs c' = cs_legs c \<and> cs_num_legs c' = cs_num_legs c \<and>
    cs_seq_key c' = cs_seq_key c \<and> cs_reorder_timeout_ms c' = cs_reorder_timeout_ms c \<and>
    (\<forall>e \<in> set (cs_reorder c'). re_valid e \<longrightarrow> e \<in> set (cs_reorder c) \<or> re_buffered_at e = now2)"
proof -
  from inv have next_seq: "cs_next_recv_seq c = of_nat m" by (simp add: cfx_inv_def)
  have us: "unat (of_nat s :: u64) = s" and um: "unat (of_nat m :: u64) = m"
    using s by (simp_all add: of_nat_u64_small)
  then have ne: "(of_nat s :: u64) \<noteq> of_nat m" "\<not> (of_nat s :: u64) < of_nat m"
    using s(1) by (auto simp: word_less_nat_alt)
  have "unat (of_nat (s - m) :: u64) = s - m" using s(4) by (intro of_nat_u64_small) simp
  then have "(of_nat (s - m) :: u64) < 32" using s(1,3) by (simp only: word_less_nat_alt) simp
  then have near: "\<not> 32 \<le> (of_nat s :: u64) - of_nat m"
    using s(1) by (simp only: u64_sub_of_nat less_imp_le not_le)
  have w: "s \<notin> set (waiting c)" using inv s(2) by (simp add: cfx_inv_def)
  then have nodup: "\<not> (\<exists>e \<in> set (cs_reorder c). re_valid e \<and> re_seq e = of_nat s)"
    by (auto simp: waiting_def us image_iff)
  from cfx_inv_free_entry [OF inv] obtain i where i: "first_index (\<lambda>e. \<not> re_valid e) (cs_reorder c) = Some i" .
  note i' = first_index_Some [OF i]
  have u: "unat (of_nat (length (snd (pay (of_nat s)))) :: u16) = length (snd (pay (of_nat s)))"
    using len by (intro of_nat_u16_small) linarith
  let ?e = "(cs_reorder c ! i)\<lparr>re_seq := of_nat s, re_stream_id := fst (pay (of_nat s)),
      re_data := mem_write (re_data (cs_reorder c ! i)) 0 (mem_read (snd (pay (of_nat s)) @ pad) 0 (length (snd (pay (of_nat s))))),
      re_data_len := of_nat (length (snd (pay (of_nat s)))), re_valid := True, re_buffered_at := now2\<rparr>"
  have leg': "\<not> (case circ of None \<Rightarrow> False | Some x \<Rightarrow>
      \<not> (\<exists>l \<in> set (take (cs_num_legs c) (cs_legs c)). lg_circuit l = Some x \<and> lg_active l))"
    using leg by (auto simp: leg_ok_def split: option.splits)
  have res: "rr = 0" "c' = c\<lparr>cs_reorder := (cs_reorder c)[i := ?e]\<rparr>"
    using r ne near nodup i u len
    unfolding moor_conflux_receive_def feistel_decrypt_encrypt idle next_seq Let_def if_not_P [OF leg']
    by (auto simp: MOOR_CONFLUX_REORDER_BUF_def)
  have ok: "entries_ok pay UNIV c'" using receive_ok(1) [where pay = pay and s = "of_nat s" and S = UNIV, OF _ UNIV_I len r] inv by (simp add: cfx_inv_def)
  have reo: "cs_reorder c' = (cs_reorder c)[i := ?e]" using res by simp
  have dist: "distinct (waiting c)" using inv by (simp add: cfx_inv_def)
  have wt: "set (waiting c') = insert s (set (waiting c))" "distinct (waiting c')"
    using waiting_insert [OF _ _ dist _ _ reo] i' w us by simp_all
  show ?thesis
    using inv res ok wt s(1,3)
    by (auto simp: cfx_inv_def dest!: set_update_subset_insert [THEN subsetD])
qed

text \<open>The next expected cell is handed out, with everything it was holding up.\<close>

lemma receive_next:
  assumes inv: "cfx_inv pay m A c" and m: "Suc m < 2 ^ 64" and leg: "leg_ok c circ"
    and idle: "conflux_expire now c = c"
  shows "moor_conflux_receive blake2b now now2 c circ (feistel_encrypt blake2b (cs_seq_key c) (of_nat m)) st d l =
    (1, c\<lparr>cs_next_recv_seq := of_nat (Suc m)\<rparr>)"
proof -
  have um: "unat (of_nat m :: u64) = m" using m by (simp add: of_nat_u64_small)
  have nm: "(of_nat m :: u64) \<noteq> -1"
  proof
    assume "(of_nat m :: u64) = -1"
    then have "m = unat (- 1 :: u64)" using um by metis
    then show False using m by (simp add: unsigned_minus_1_eq_mask mask_eq_exp_minus_1)
  qed
  have leg': "\<not> (case circ of None \<Rightarrow> False | Some x \<Rightarrow>
      \<not> (\<exists>l \<in> set (take (cs_num_legs c) (cs_legs c)). lg_circuit l = Some x \<and> lg_active l))"
    using leg by (auto simp: leg_ok_def split: option.splits)
  show ?thesis using inv nm
    unfolding moor_conflux_receive_def feistel_decrypt_encrypt idle Let_def if_not_P [OF leg']
    by (simp add: cfx_inv_def add.commute)
qed

lemma on_data_step:
  assumes inv: "cfx_inv pay m A c" and A: "insert s A \<subseteq> {..<N}" "N < 2 ^ 64" and s: "s \<notin> A" "s < m + 32"
    and car: "carries blake2b (cs_seq_key c) pay (of_nat s) a" and leg: "leg_ok c (ca_circ a)"
    and idle: "\<forall>e \<in> set (cs_reorder c). re_valid e \<longrightarrow> ca_now a - re_buffered_at e \<le> cfx_timeout c"
    and o: "conflux_on_data blake2b (ca_now a) (ca_now2 a) c (ca_circ a) (ca_relay a) = (outs, c')"
  shows "\<exists>m' \<ge> m. outs = map (\<lambda>i. pay (of_nat i)) [m..<m'] \<and> cfx_inv pay m' (insert s A) c' \<and>
    cs_legs c' = cs_legs c \<and> cs_num_legs c' = cs_num_legs c \<and> cs_seq_key c' = cs_seq_key c \<and>
    cs_reorder_timeout_ms c' = cs_reorder_timeout_ms c \<and>
    (\<forall>e \<in> set (cs_reorder c'). re_valid e \<longrightarrow> e \<in> set (cs_reorder c) \<or> re_buffered_at e = ca_now2 a)"
proof -
  note idle' = expire_idle [OF idle]
  from inv have mA: "{0..<m} \<subseteq> A" "m \<notin> A" by (simp_all add: cfx_inv_def)
  then have ms: "m \<le> s" using s(1) by (meson atLeastLessThan_iff not_le subsetD zero_le)
  from A have sN: "s < N" by simp
  from car have len: "length (snd (pay (of_nat s))) \<le> 490" by (simp add: carries_def)
  from on_data_carries [OF car refl, of "ca_now a" "ca_now2 a" "ca_circ a"] obtain pad where
    pad: "conflux_on_data blake2b (ca_now a) (ca_now2 a) c (ca_circ a) (ca_relay a) =
      (let (rr, cset1) = moor_conflux_receive blake2b (ca_now a) (ca_now2 a) c (ca_circ a)
             (feistel_encrypt blake2b (cs_seq_key c) (of_nat s))
             (fst (pay (of_nat s))) (snd (pay (of_nat s)) @ pad) (of_nat (length (snd (pay (of_nat s)))))
       in if rr < 0 then ([], cset1)
          else let (outs, cset2) = conflux_drain cset1
               in ((if rr = 1 then [pay (of_nat s)] else []) @ outs, cset2))" by blast
  show ?thesis
  proof (cases "s = m")
    case True
    let ?c1 = "c\<lparr>cs_next_recv_seq := of_nat (Suc m)\<rparr>"
    from sN A True have m1: "Suc m < 2 ^ 64" "Suc m \<le> N" by linarith+
    obtain o2 where d: "conflux_drain ?c1 = (o2, c')" and outs: "outs = pay (of_nat m) # o2"
      using o pad receive_next [OF inv m1(1) leg idle'] True by (auto split: prod.splits)
    have w: "waiting ?c1 = waiting c" by (simp add: waiting_def)
    have ok: "entries_ok pay UNIV ?c1" and di: "distinct (waiting ?c1)" and sub: "set (waiting ?c1) \<subseteq> {..<N}"
      and ws: "set (waiting ?c1) = A - {0..<m}"
      using inv A unfolding w by (auto simp: cfx_inv_def)
    have nx: "cs_next_recv_seq ?c1 = of_nat (Suc m)" by simp
    from drain_run [OF ok nx di m1(2) sub A(2) d] obtain m' where m': "Suc m \<le> m'"
      "{Suc m..<m'} \<subseteq> A - {0..<m}" "m' \<notin> A - {0..<m}" "o2 = map (\<lambda>i. pay (of_nat i)) [Suc m..<m']"
      "cs_next_recv_seq c' = of_nat m'" "set (waiting c') = A - {0..<m} - {Suc m..<m'}" "distinct (waiting c')"
      "drained_from ?c1 c'" unfolding ws by blast
    have "entries_ok pay UNIV c'" using drain_in_order [OF ok d] by simp
    moreover have "{0..<m'} \<subseteq> insert m A"
    proof
      fix x assume "x \<in> {0..<m'}"
      then consider "x < m" | "x = m" | "x \<in> {Suc m..<m'}" by fastforce
      then show "x \<in> insert m A" using mA m'(2) by cases auto
    qed
    moreover have "A - {0..<m} = A - {0..<Suc m}" using mA(2) by (auto simp: less_Suc_eq)
    then have "set (waiting c') = insert m A - {0..<m'}" using m'(1,6) by auto
    moreover have "\<forall>w \<in> set (waiting c'). w < m' + 32"
    proof
      fix w assume "w \<in> set (waiting c')"
      with m'(6) ws w have "w \<in> set (waiting c)" by auto
      with inv have "w < m + 32" by (simp add: cfx_inv_def)
      with m'(1) show "w < m' + 32" by simp
    qed
    ultimately have "cfx_inv pay m' (insert s A) c'"
      using inv m' True mA by (auto simp: cfx_inv_def drained_from_def w)
    moreover have "outs = map (\<lambda>i. pay (of_nat i)) [m..<m']" using outs m'(1,4) by (simp add: upt_conv_Cons)
    ultimately show ?thesis using m'(1,8) by (intro exI [of _ m']) (auto simp: drained_from_def)
  next
    case False
    obtain rr c1 where r: "moor_conflux_receive blake2b (ca_now a) (ca_now2 a) c (ca_circ a)
             (feistel_encrypt blake2b (cs_seq_key c) (of_nat s))
             (fst (pay (of_nat s))) (snd (pay (of_nat s)) @ pad) (of_nat (length (snd (pay (of_nat s))))) = (rr, c1)"
      by fastforce
    from False ms sN A have "m < s" "s < 2 ^ 64" by linarith+
    note st = receive_ahead [OF inv \<open>m < s\<close> s \<open>s < 2 ^ 64\<close> leg idle' len r]
    then have "m \<notin> set (waiting c1)" "cs_next_recv_seq c1 = of_nat m" by (auto simp: cfx_inv_def)
    with drain_nothing [of m c1] \<open>m < s\<close> \<open>s < 2 ^ 64\<close> have "conflux_drain c1 = ([], c1)" by simp
    with o pad r st show ?thesis by (intro exI [of _ m]) auto
  qed
qed

lemma cfx_run_complete:
  assumes "cfx_inv pay m A c" and "A \<union> set xs \<subseteq> {..<N}" and "N < 2 ^ 64" and "distinct xs" and "A \<inter> set xs = {}"
    and "list_all2 (\<lambda>s a. carries blake2b (cs_seq_key c) pay (of_nat s) a) xs as"
    and "\<forall>i < length xs. \<forall>y. y + 32 \<le> xs ! i \<longrightarrow> y \<in> A \<union> set (take i xs)"
    and "\<forall>a \<in> set as. leg_ok c (ca_circ a)"
    and "sorted_wrt (\<lambda>a b. ca_now b - ca_now2 a \<le> cfx_timeout c) as"
    and "\<forall>e \<in> set (cs_reorder c). re_valid e \<longrightarrow> (\<forall>a \<in> set as. ca_now a - re_buffered_at e \<le> cfx_timeout c)"
  shows "\<exists>m' \<ge> m. fst (cfx_run blake2b c as) = map (\<lambda>i. pay (of_nat i)) [m..<m'] \<and>
    {0..<m'} \<subseteq> A \<union> set xs \<and> m' \<notin> A \<union> set xs"
  using assms
proof (induction xs arbitrary: as c m A)
  case Nil
  then show ?case by (intro exI [of _ m]) (auto simp: cfx_inv_def)
next
  case (Cons s xs)
  from Cons.prems(6) obtain a as' where as: "as = a # as'" and car: "carries blake2b (cs_seq_key c) pay (of_nat s) a"
    and rest: "list_all2 (\<lambda>s a. carries blake2b (cs_seq_key c) pay (of_nat s) a) xs as'" by (auto simp: list_all2_Cons1)
  obtain o1 c1 where o: "conflux_on_data blake2b (ca_now a) (ca_now2 a) c (ca_circ a) (ca_relay a) = (o1, c1)" by fastforce
  have sA: "insert s A \<subseteq> {..<N}" "s \<notin> A" using Cons.prems(2,5) by auto
  have win: "s < m + 32"
  proof (rule ccontr)
    assume "\<not> s < m + 32"
    then have "m + 32 \<le> (s # xs) ! 0" by simp
    with Cons.prems(7) have "m \<in> A" by fastforce
    with Cons.prems(1) show False by (simp add: cfx_inv_def)
  qed
  have idle: "\<forall>e \<in> set (cs_reorder c). re_valid e \<longrightarrow> ca_now a - re_buffered_at e \<le> cfx_timeout c"
    and leg: "leg_ok c (ca_circ a)" using Cons.prems(8,10) as by auto
  from on_data_step [OF Cons.prems(1) sA(1) Cons.prems(3) sA(2) win car leg idle o] obtain m1 where
    m1: "m \<le> m1" "o1 = map (\<lambda>i. pay (of_nat i)) [m..<m1]" "cfx_inv pay m1 (insert s A) c1"
    and fr: "cs_legs c1 = cs_legs c" "cs_num_legs c1 = cs_num_legs c" "cs_seq_key c1 = cs_seq_key c"
      "cs_reorder_timeout_ms c1 = cs_reorder_timeout_ms c"
    and ent: "\<forall>e \<in> set (cs_reorder c1). re_valid e \<longrightarrow> e \<in> set (cs_reorder c) \<or> re_buffered_at e = ca_now2 a" by blast
  have t: "cfx_timeout c1 = cfx_timeout c" and lo: "leg_ok c1 x = leg_ok c x" for x
    using fr by (simp_all add: cfx_timeout_def leg_ok_def split: option.split)
  have win': "\<forall>i < length xs. \<forall>y. y + 32 \<le> xs ! i \<longrightarrow> y \<in> insert s A \<union> set (take i xs)"
  proof (intro allI impI)
    fix i y assume "i < length xs" "y + 32 \<le> xs ! i"
    with Cons.prems(7) have "y \<in> A \<union> set (take (Suc i) (s # xs))"
      by (metis Suc_less_eq length_Cons nth_Cons_Suc)
    then show "y \<in> insert s A \<union> set (take i xs)" by auto
  qed
  have "\<exists>m' \<ge> m1. fst (cfx_run blake2b c1 as') = map (\<lambda>i. pay (of_nat i)) [m1..<m'] \<and>
    {0..<m'} \<subseteq> insert s A \<union> set xs \<and> m' \<notin> insert s A \<union> set xs"
    using m1(3) Cons.prems rest win' ent as fr
    by (intro Cons.IH) (auto simp: t lo)
  then obtain m' where m': "m1 \<le> m'" "fst (cfx_run blake2b c1 as') = map (\<lambda>i. pay (of_nat i)) [m1..<m']"
    "{0..<m'} \<subseteq> insert s A \<union> set xs" "m' \<notin> insert s A \<union> set xs" by blast
  have "fst (cfx_run blake2b c as) = map (\<lambda>i. pay (of_nat i)) [m..<m']"
    using as o m1 m'(1,2) by (simp add: case_prod_beta map_append [symmetric] del: map_append)
       (metis upt_add_eq_append le_Suc_ex)
  with m1(1) m' show ?case by (intro exI [of _ m']) auto
qed

lemma created_set:
  assumes "moor_conflux_create kdf alloc rid rkey r self st first = (Some cset, st')"
  shows "entries_ok pay S cset" and "cs_next_recv_seq cset = 0" and "waiting cset = []"
    and "length (cs_reorder cset) = 32" and "\<forall>e \<in> set (cs_reorder cset). \<not> re_valid e"
  using assms
  by (auto simp: moor_conflux_create_def entries_ok_def zero_entry_def waiting_def MOOR_CONFLUX_REORDER_BUF_def
      split: option.splits if_splits)

lemma cfx_inv_created:
  "moor_conflux_create kdf alloc rid rkey r self st first = (Some cset, st') \<Longrightarrow> cfx_inv pay 0 {} cset"
  using created_set [of kdf alloc rid rkey r self st first cset st'] by (simp add: cfx_inv_def)

section \<open>Leg selection\<close>

text \<open>
  The selected leg is usable; once some usable leg has a measured round-trip time below the
  maximum, the leg with the least one is taken, whatever the weights are. The header documents
  weighted round-robin.
\<close>

lemma select_leg_least_rtt:
  assumes "moor_conflux_select_leg dratio dtop cset = Some i"
  shows "i < length (take (cs_num_legs cset) (cs_legs cset)) \<and> leg_usable (cs_legs cset ! i) \<and>
    (\<forall>l \<in> set (take (cs_num_legs cset) (cs_legs cset)).
       leg_usable l \<and> lg_rtt_initialized l \<and> lg_srtt_us l < UINT64_MAX \<longrightarrow>
         lg_rtt_initialized (cs_legs cset ! i) \<and> lg_srtt_us (cs_legs cset ! i) \<le> lg_srtt_us l)"
proof -
  let ?legs = "take (cs_num_legs cset) (cs_legs cset)"
  obtain b v where rtt: "argmin_loop 0 leg_rtt_key ?legs (None, UINT64_MAX) = (b, v)" by fastforce
  show ?thesis
  proof (cases b)
    case (Some j)
    with assms rtt have i: "i = j" by (auto simp: moor_conflux_select_leg_def Let_def split: if_splits)
    note a = argmin_loop_Some [OF rtt [unfolded Some]]
    from a(1) have n: "?legs ! j = cs_legs cset ! j" by simp
    from a(2) have u: "leg_usable (?legs ! j)" "lg_rtt_initialized (?legs ! j)" "v = lg_srtt_us (?legs ! j)"
      by (auto simp: leg_rtt_key_def split: if_splits)
    have "\<forall>l \<in> set ?legs. leg_usable l \<and> lg_rtt_initialized l \<longrightarrow> v \<le> lg_srtt_us l"
      using a(4) by (auto simp: leg_rtt_key_def)
    with a(1) u show ?thesis unfolding i n by blast
  next
    case None
    note a = argmin_loop_None [OF rtt [unfolded None]]
    obtain c w where ratio: "argmin_loop 0 (leg_ratio_key dratio) ?legs (None, dtop) = (c, w)" by fastforce
    with assms rtt None have "c = Some i" by (auto simp: moor_conflux_select_leg_def Let_def split: if_splits)
    note r = argmin_loop_Some [OF ratio [unfolded this]]
    from r(1,2) have "leg_usable (cs_legs cset ! i)" by (auto simp: leg_ratio_key_def split: if_splits)
    moreover have "\<not> (leg_usable l \<and> lg_rtt_initialized l \<and> lg_srtt_us l < UINT64_MAX)" if "l \<in> set ?legs" for l
      using a(2) that by (auto simp: leg_rtt_key_def not_less)
    ultimately show ?thesis using r(1) by blast
  qed
qed

section \<open>A lost cell and bursty traffic\<close>

text \<open>
  Traffic in bursts: the readings of the clock never go back; \<open>t0\<close> is the start of the present
  burst and \<open>t\<close> the last reading. Each cell either falls within the time-out of the start of the
  burst or follows a pause longer than the time-out, which starts a new burst.
\<close>

fun bursty :: "u64 \<Rightarrow> u64 \<Rightarrow> u64 \<Rightarrow> cfx_arrival list \<Rightarrow> bool" where
  "bursty timeout t0 t [] \<longleftrightarrow> True"
| "bursty timeout t0 t (a # as) \<longleftrightarrow> t \<le> ca_now a \<and> ca_now a \<le> ca_now2 a \<and>
     (if ca_now2 a - t0 \<le> timeout then bursty timeout t0 (ca_now2 a) as
      else timeout < ca_now a - t \<and> ca_now2 a - ca_now a \<le> timeout \<and> bursty timeout (ca_now a) (ca_now2 a) as)"

text \<open>The cell \<open>n\<close> is missing, and what is buffered came in between \<open>t0\<close> and \<open>t\<close>.\<close>

definition gap_at :: "u64 \<Rightarrow> u64 \<Rightarrow> u64 \<Rightarrow> moor_conflux_set \<Rightarrow> bool" where
  "gap_at n t0 t cset \<longleftrightarrow> cs_next_recv_seq cset = n \<and>
    (\<forall>e \<in> set (cs_reorder cset). re_valid e \<longrightarrow> re_seq e \<noteq> n \<and> t0 \<le> re_buffered_at e \<and> re_buffered_at e \<le> t)"

lemma argmin_loop_skip: "\<forall>x \<in> set xs. f x = None \<Longrightarrow> argmin_loop i f xs b = b"
  by (induction xs arbitrary: i) auto

text \<open>When every buffered cell is stale, all are dropped and the receiver stays where it is.\<close>

lemma expire_all:
  assumes "\<forall>e \<in> set (cs_reorder cset). re_valid e \<longrightarrow> cfx_timeout cset < now - re_buffered_at e"
  shows "\<exists>es. conflux_expire now cset = cset\<lparr>cs_reorder := es\<rparr> \<and> (\<forall>e \<in> set es. \<not> re_valid e)"
proof -
  define es where "es = map (\<lambda>e. if entry_stale now (cfx_timeout cset) e then e\<lparr>re_valid := False\<rparr> else e) (cs_reorder cset)"
  have v: "\<not> re_valid e" if "e \<in> set es" for e using assms that by (auto simp: es_def entry_stale_def split: if_splits)
  then have "argmin_loop 0 (\<lambda>e. if re_valid e then Some (re_seq e) else None) es (None, UINT64_MAX) = (None, UINT64_MAX)"
    by (intro argmin_loop_skip) simp
  then have m: "snd (argmin_loop 0 (\<lambda>e. if re_valid e then Some (re_seq e) else None) es (None, UINT64_MAX)) = UINT64_MAX"
    by (simp only: snd_conv)
  have "conflux_expire now cset = cset\<lparr>cs_reorder := es\<rparr>"
    unfolding conflux_expire_def cfx_timeout_def [symmetric] Let_def es_def [symmetric] m by simp
  with v show ?thesis by blast
qed

lemma drain_gap: "\<forall>e \<in> set (cs_reorder cset). re_valid e \<longrightarrow> re_seq e \<noteq> cs_next_recv_seq cset \<Longrightarrow> conflux_drain cset = ([], cset)"
  by (subst conflux_drain.simps) (simp add: moor_conflux_deliver_def first_index_None [THEN iffD2])

lemma receive_gap:
  assumes g: "gap_at n t0 t (conflux_expire now cset)" and s: "s \<noteq> n" and t: "t0 \<le> now2" "t \<le> now2"
    and r: "moor_conflux_receive blake2b now now2 cset circ (feistel_encrypt blake2b (cs_seq_key cset) s) sid d len = (rr, c1)"
  shows "rr \<noteq> 1 \<and> gap_at n t0 now2 c1 \<and> cs_seq_key c1 = cs_seq_key (conflux_expire now cset) \<and>
    cs_reorder_timeout_ms c1 = cs_reorder_timeout_ms (conflux_expire now cset)"
proof -
  define c where "c = conflux_expire now cset"
  have n: "cs_next_recv_seq c = n" using g by (simp add: gap_at_def c_def)
  have g2: "gap_at n t0 now2 c" using g t unfolding gap_at_def c_def by (meson order_trans)
  have up: "gap_at n t0 now2 (c\<lparr>cs_reorder := (cs_reorder c)[i := e]\<rparr>)"
    if "re_valid e \<Longrightarrow> re_seq e \<noteq> n \<and> re_buffered_at e = now2" for i e
    using g2 that t unfolding gap_at_def by (auto dest!: set_update_subset_insert [THEN subsetD])
  have up1: "gap_at n t0 now2 (c\<lparr>cs_reorder := (cs_reorder c)[i := (cs_reorder c ! i)\<lparr>re_seq := s, re_stream_id := sid\<rparr>]\<rparr>)"
    if "first_index (\<lambda>e. \<not> re_valid e) (cs_reorder c) = Some i" for i
    using first_index_Some [OF that] by (intro up) simp
  have up2: "gap_at n t0 now2 (c\<lparr>cs_reorder := (cs_reorder c)[i := (cs_reorder c ! i)\<lparr>re_seq := s, re_stream_id := sid, re_data := x,
      re_data_len := len, re_valid := True, re_buffered_at := now2\<rparr>]\<rparr>)" for i x
    using s by (intro up) simp
  have "rr \<noteq> 1 \<and> gap_at n t0 now2 c1 \<and> cs_seq_key c1 = cs_seq_key c \<and> cs_reorder_timeout_ms c1 = cs_reorder_timeout_ms c"
    using r s g2 up1 up2 unfolding moor_conflux_receive_def feistel_decrypt_encrypt c_def [symmetric] Let_def n
    by (auto split: if_splits option.splits)
  then show ?thesis by (simp add: c_def)
qed

lemma on_data_gap:
  assumes g: "gap_at n t0 t (conflux_expire (ca_now a) cset)" and s: "s \<noteq> n" and t: "t0 \<le> ca_now2 a" "t \<le> ca_now2 a"
    and c: "carries blake2b (cs_seq_key cset) pay s a"
  shows "\<exists>c1. conflux_on_data blake2b (ca_now a) (ca_now2 a) cset (ca_circ a) (ca_relay a) = ([], c1) \<and> gap_at n t0 (ca_now2 a) c1 \<and>
    cs_seq_key c1 = cs_seq_key (conflux_expire (ca_now a) cset) \<and>
    cs_reorder_timeout_ms c1 = cs_reorder_timeout_ms (conflux_expire (ca_now a) cset)"
proof -
  from on_data_carries [OF c refl, of "ca_now a" "ca_now2 a" "ca_circ a"] obtain pad where
    d: "conflux_on_data blake2b (ca_now a) (ca_now2 a) cset (ca_circ a) (ca_relay a) =
      (let (rr, c1) = moor_conflux_receive blake2b (ca_now a) (ca_now2 a) cset (ca_circ a) (feistel_encrypt blake2b (cs_seq_key cset) s)
             (fst (pay s)) (snd (pay s) @ pad) (of_nat (length (snd (pay s))))
       in if rr < 0 then ([], c1) else let (outs, c2) = conflux_drain c1 in ((if rr = 1 then [pay s] else []) @ outs, c2))" by blast
  obtain rr c1 where r: "moor_conflux_receive blake2b (ca_now a) (ca_now2 a) cset (ca_circ a) (feistel_encrypt blake2b (cs_seq_key cset) s)
      (fst (pay s)) (snd (pay s) @ pad) (of_nat (length (snd (pay s)))) = (rr, c1)" by fastforce
  note g1 = receive_gap [OF g s t r]
  then have "conflux_drain c1 = ([], c1)" by (intro drain_gap) (simp add: gap_at_def)
  with g1 show ?thesis unfolding d r by simp
qed

lemma gap_stalls:
  assumes "gap_at n t0 t cset" and "t0 \<le> t" and "bursty (cfx_timeout cset) t0 t as"
    and "\<forall>a \<in> set as. \<exists>s. s \<noteq> n \<and> carries blake2b (cs_seq_key cset) pay s a"
  shows "fst (cfx_run blake2b cset as) = [] \<and> cs_next_recv_seq (snd (cfx_run blake2b cset as)) = n"
  using assms
proof (induction as arbitrary: cset t0 t)
  case (Cons a as)
  let ?T = "cfx_timeout cset" and ?c = "conflux_expire (ca_now a) cset"
  have o: "t \<le> ca_now a" "ca_now a \<le> ca_now2 a" using Cons.prems(3) by simp_all
  obtain s where s: "s \<noteq> n" "carries blake2b (cs_seq_key cset) pay s a" using Cons.prems(4) by auto
  obtain t0' t' where n: "t0' \<le> ca_now2 a" "t' \<le> ca_now2 a" "gap_at n t0' t' ?c" "bursty ?T t0' (ca_now2 a) as"
    "cs_seq_key ?c = cs_seq_key cset" "cs_reorder_timeout_ms ?c = cs_reorder_timeout_ms cset"
  proof (cases "ca_now2 a - t0 \<le> ?T")
    case True
    have "ca_now a - re_buffered_at e \<le> ?T" if "e \<in> set (cs_reorder cset)" "re_valid e" for e
    proof -
      have "t0 \<le> re_buffered_at e" "re_buffered_at e \<le> t" using Cons.prems(1) that by (auto simp: gap_at_def)
      then have "ca_now a - re_buffered_at e \<le> ca_now2 a - t0"
        using o by (simp add: word_le_nat_alt unat_sub_if_size)
      then show ?thesis using True by simp
    qed
    then have "?c = cset" by (intro expire_idle) blast
    then show ?thesis using that [of t0 t] Cons.prems o True by simp
  next
    case False
    have "?T < ca_now a - re_buffered_at e" if "e \<in> set (cs_reorder cset)" "re_valid e" for e
    proof -
      have "re_buffered_at e \<le> t" using Cons.prems(1) that by (auto simp: gap_at_def)
      then have "ca_now a - t \<le> ca_now a - re_buffered_at e"
        using o by (simp add: word_le_nat_alt unat_sub_if_size)
      moreover have "?T < ca_now a - t" using False Cons.prems(3) by simp
      ultimately show ?thesis by (rule less_le_trans [rotated])
    qed
    then obtain es where "?c = cset\<lparr>cs_reorder := es\<rparr>" "\<forall>e \<in> set es. \<not> re_valid e" using expire_all by blast
    then show ?thesis using that [of "ca_now a" "ca_now2 a"] Cons.prems o False by (simp add: gap_at_def)
  qed
  from on_data_gap [OF n(3) s(1) n(1,2) s(2)] obtain c1 where
    c1: "conflux_on_data blake2b (ca_now a) (ca_now2 a) cset (ca_circ a) (ca_relay a) = ([], c1)" "gap_at n t0' (ca_now2 a) c1"
    "cs_seq_key c1 = cs_seq_key cset" "cs_reorder_timeout_ms c1 = cs_reorder_timeout_ms cset" using n(5,6) by auto
  then have "cfx_timeout c1 = ?T" by (simp add: cfx_timeout_def)
  with Cons.IH [OF c1(2) n(1)] n(4) c1 Cons.prems(4) show ?case by (simp add: case_prod_beta)
qed (simp add: gap_at_def)

section \<open>Properties\<close>

text \<open>
  C10. Data is handed out in order and at most once. Whatever cells arrive at a fresh set, over
  any legs, in any order, repeated, late enough to expire or lost, as long as each carries the
  payload of its encrypted sequence number, what the client hands to its streams are the
  payloads of a strictly increasing list of sequence numbers that did arrive.
\<close>

theorem conflux_in_order:
  assumes "moor_conflux_create kdf alloc rid rkey r self st first = (Some cset, st')"
    and "\<forall>a \<in> set as. \<exists>s \<in> S. carries blake2b (cs_seq_key cset) pay s a"
  shows "\<exists>ks. fst (cfx_run blake2b cset as) = map pay ks \<and> sorted_wrt (<) ks \<and> set ks \<subseteq> S"
  using cfx_run_in_order [OF created_set(1) [OF assms(1)] assms(2), of "fst (cfx_run blake2b cset as)"
      "snd (cfx_run blake2b cset as)"]
  by (auto simp: in_order_def)

text \<open>
  C9. Nothing is lost inside the reorder window. When the cells 0 to \<open>n - 1\<close> arrive in any
  order in which no cell comes more than 31 ahead of a missing one, over active legs of the
  set and without a buffered cell growing older than the timeout, the client hands out
  exactly the payloads 0 to \<open>n - 1\<close> in order.
\<close>

theorem conflux_complete:
  assumes "moor_conflux_create kdf alloc rid rkey r self st first = (Some cset, st')"
    and "set xs = {0..<n}" and "distinct xs" and "n < 2 ^ 64"
    and "list_all2 (\<lambda>s a. carries blake2b (cs_seq_key cset) pay (of_nat s) a) xs as"
    and "\<forall>i < length xs. \<forall>y. y + 32 \<le> xs ! i \<longrightarrow> y \<in> set (take i xs)"
    and "\<forall>a \<in> set as. leg_ok cset (ca_circ a)"
    and "sorted_wrt (\<lambda>a b. ca_now b - ca_now2 a \<le> cfx_timeout cset) as"
  shows "fst (cfx_run blake2b cset as) = map (\<lambda>i. pay (of_nat i)) [0..<n]"
proof -
  have "\<exists>m' \<ge> 0. fst (cfx_run blake2b cset as) = map (\<lambda>i. pay (of_nat i)) [0..<m'] \<and>
      {0..<m'} \<subseteq> {} \<union> set xs \<and> m' \<notin> {} \<union> set xs"
    using assms created_set(5) [OF assms(1)]
    by (intro cfx_run_complete [OF cfx_inv_created [OF assms(1)], where N = n]) auto
  then obtain m' where m': "fst (cfx_run blake2b cset as) = map (\<lambda>i. pay (of_nat i)) [0..<m']"
    "{0..<m'} \<subseteq> {0..<n}" "m' \<notin> {0..<n}" using assms(2) by auto
  from m'(2,3) have "m' = n" by (cases m') (auto simp: subset_iff not_less)
  with m'(1) show ?thesis by simp
qed

definition demo_circuits :: circ_store where
  "demo_circuits c = \<lparr> cx_circuit_id = of_nat c, cx_num_hops = 0, cx_hops = [], cx_package_window = 1000,
    cx_conflux = None \<rparr>"

definition demo_set :: moor_conflux_set where
  "demo_set = the (fst (moor_conflux_create (\<lambda>k i s. k) True [] (replicate 32 4) 0 1 demo_circuits (Some 0)))"

definition demo_pay :: "u64 \<Rightarrow> u16 \<times> bytes" where
  "demo_pay s = (3, [ucast s, 1])"

definition demo_arrival :: "u64 \<Rightarrow> u64 \<Rightarrow> cfx_arrival" where
  "demo_arrival t s = \<lparr> ca_now = t, ca_now2 = t, ca_circ = Some 0, ca_relay =
    \<lparr> r_command = relay_cmd_code RELAY_DATA, r_recognized = 0, r_stream_id = 3, r_digest = replicate 4 0,
      r_data_length = 10, r_data = be64 (feistel_encrypt id (replicate 32 4) s) @ snd (demo_pay s) @ replicate 488 0 \<rparr> \<rparr>"

lemma demo_set_created:
  "moor_conflux_create (\<lambda>k i s. k) True [] (replicate 32 4) 0 1 demo_circuits (Some 0) =
    (Some demo_set, snd (moor_conflux_create (\<lambda>k i s. k) True [] (replicate 32 4) 0 1 demo_circuits (Some 0)))"
  by (simp add: demo_set_def moor_conflux_create_def)

lemma demo_set_fields: "cs_seq_key demo_set = replicate 32 4" "cs_reorder_timeout_ms demo_set = 8000"
  "leg_ok demo_set (Some 0)"
  by (simp_all add: demo_set_def moor_conflux_create_def demo_circuits_def leg_ok_def)

lemma demo_carries: "carries id (replicate 32 4) demo_pay s (demo_arrival t s)"
  by (simp add: carries_def demo_pay_def demo_arrival_def)

theorem conflux_in_order_witness:
  "\<exists>ks. fst (cfx_run id demo_set [demo_arrival 5 7, demo_arrival 6 0, demo_arrival 99000 1]) = map demo_pay ks \<and>
    sorted_wrt (<) ks \<and> set ks \<subseteq> {0, 1, 7}"
  using conflux_in_order [OF demo_set_created, of "[demo_arrival 5 7, demo_arrival 6 0, demo_arrival 99000 1]"
      "{0, 1, 7}" id demo_pay] demo_carries [of 7 5] demo_carries [of 0 6] demo_carries [of 1 99000]
  by (auto simp: demo_set_fields)

theorem conflux_complete_witness:
  "fst (cfx_run id demo_set [demo_arrival 5 1, demo_arrival 6 0, demo_arrival 7 2]) = [demo_pay 0, demo_pay 1, demo_pay 2]"
proof -
  let ?as = "[demo_arrival 5 1, demo_arrival 6 0, demo_arrival 7 2]"
  have xs: "set [1, 0, 2 :: nat] = {0..<3}" "distinct [1, 0, 2 :: nat]" "(3 :: nat) < 2 ^ 64" by auto
  have car: "list_all2 (\<lambda>s a. carries id (cs_seq_key demo_set) demo_pay (of_nat s) a) [1, 0, 2] ?as"
    using demo_carries [of 1 5] demo_carries [of 0 6] demo_carries [of 2 7] by (simp add: demo_set_fields)
  have win: "\<forall>i < length [1, 0, 2 :: nat]. \<forall>y. y + 32 \<le> [1, 0, 2 :: nat] ! i \<longrightarrow> y \<in> set (take i [1, 0, 2])"
    by (auto simp: less_Suc_eq)
  have legs: "\<forall>a \<in> set ?as. leg_ok demo_set (ca_circ a)" by (simp add: demo_arrival_def demo_set_fields)
  have times: "sorted_wrt (\<lambda>a b. ca_now b - ca_now2 a \<le> cfx_timeout demo_set) ?as"
    by (simp add: demo_arrival_def cfx_timeout_def demo_set_fields)
  from conflux_complete [OF demo_set_created xs car win legs times] show ?thesis
    by (simp add: upt_rec del: cfx_run.simps)
qed

text \<open>
  C19. The encryption of sequence numbers is a permutation of the 64-bit words, whatever the
  round function: decryption inverts it on both sides, so no two sequence numbers share a
  wire value.
\<close>

theorem feistel_permutation:
  "feistel_decrypt blake2b key (feistel_encrypt blake2b key x) = x \<and>
   feistel_encrypt blake2b key (feistel_decrypt blake2b key x) = x \<and> bij (feistel_encrypt blake2b key)"
  by (auto simp: feistel_decrypt_encrypt feistel_encrypt_decrypt
      intro!: o_bij [of "feistel_decrypt blake2b key" "feistel_encrypt blake2b key"])

text \<open>
  C30. A lost cell can stall a set for good. Let the cell \<open>next_recv_seq\<close> never arrive, while any
  number of other cells does, in any order and with any sequence numbers, in bursts that are
  shorter than the reorder time-out and separated by pauses that are longer. Then nothing is
  ever handed to the streams and \<open>next_recv_seq\<close> never moves: after each pause all buffered cells
  expire together, and the receiver moves past a gap only to a cell it still holds.
\<close>

theorem conflux_gap_stalls:
  assumes "\<forall>e \<in> set (cs_reorder cset). \<not> re_valid e" and "bursty (cfx_timeout cset) t0 t0 as"
    and "\<forall>a \<in> set as. \<exists>s. s \<noteq> cs_next_recv_seq cset \<and> carries blake2b (cs_seq_key cset) pay s a"
  shows "fst (cfx_run blake2b cset as) = [] \<and> cs_next_recv_seq (snd (cfx_run blake2b cset as)) = cs_next_recv_seq cset"
  using gap_stalls [of "cs_next_recv_seq cset" t0 t0 cset as blake2b pay] assms by (simp add: gap_at_def)

theorem conflux_gap_stalls_witness:
  "fst (cfx_run id demo_set [demo_arrival 5 1, demo_arrival 6 2, demo_arrival 90000 3, demo_arrival 90001 4, demo_arrival 200000 5]) = []"
proof -
  let ?as = "[demo_arrival 5 1, demo_arrival 6 2, demo_arrival 90000 3, demo_arrival 90001 4, demo_arrival 200000 5]"
  have c: "cs_next_recv_seq demo_set = 0" "\<forall>e \<in> set (cs_reorder demo_set). \<not> re_valid e"
    using created_set [OF demo_set_created] by blast+
  have b: "bursty (cfx_timeout demo_set) 5 5 ?as"
    by (simp add: demo_arrival_def cfx_timeout_def demo_set_fields)
  have "\<forall>a \<in> set ?as. \<exists>s. s \<noteq> cs_next_recv_seq demo_set \<and> carries id (cs_seq_key demo_set) demo_pay s a"
    unfolding c(1) demo_set_fields using demo_carries [of 1 5] demo_carries [of 2 6] demo_carries [of 3 90000] demo_carries [of 4 90001]
      demo_carries [of 5 200000] by (auto intro: exI [of _ 1] exI [of _ 2] exI [of _ 3] exI [of _ 4] exI [of _ 5])
  from conflux_gap_stalls [OF c(2) b this] show ?thesis by blast
qed

end
