(* ===== verification/OpenTable.thy ===== *)
theory OpenTable
  imports Prelude
begin

text \<open>
  Open-addressing hash tables. MOOR has several tables of this kind (circuits in
  \<open>src/src/circuit.c\<close>, connections in \<open>src/src/connection.c\<close>): a fixed array, linear probing
  from a hash, and deletion by clearing a slot and re-inserting the entries that follow it.
  The locale \<open>open_table\<close> is the contract they rely on, a key per entry and a home slot per
  key; its lemmas show that such a table refines a finite map.
\<close>

section \<open>Probing\<close>

text \<open>The slots \<open>(idx + i) & MASK\<close> for \<open>i = 0, 1, ...\<close>; a slot is \<open>None\<close> when it is empty.\<close>

definition probe_seq :: "nat \<Rightarrow> nat \<Rightarrow> nat list" where
  "probe_seq n idx = map (\<lambda>i. (idx + i) mod n) [0..<n]"

text \<open>The first slot that is empty or matches.\<close>

definition oa_slot :: "('e \<Rightarrow> bool) \<Rightarrow> 'e option list \<Rightarrow> nat \<Rightarrow> nat option" where
  "oa_slot hit t idx =
    List.find (\<lambda>s. case t ! s of None \<Rightarrow> True | Some e \<Rightarrow> hit e) (probe_seq (length t) idx)"

text \<open>
  Re-inserting the entries after a cleared slot until an empty one. \<open>None\<close> when the fuel does
  not suffice.
\<close>

fun oa_shift :: "('e \<Rightarrow> 'e option list \<Rightarrow> 'e option list) \<Rightarrow> nat \<Rightarrow> nat \<Rightarrow> 'e option list \<Rightarrow> 'e option list option" where
  "oa_shift ins 0 j t = None"
| "oa_shift ins (Suc fuel) j t =
     (case t ! j of None \<Rightarrow> Some t
      | Some e \<Rightarrow> oa_shift ins fuel ((j + 1) mod length t) (ins e (t[j := None])))"

section \<open>Distances on the ring of slots\<close>

definition cdist :: "nat \<Rightarrow> nat \<Rightarrow> nat \<Rightarrow> nat" where
  "cdist n h x = (if h \<le> x then x - h else x + n - h)"

lemma cdist_less: "h < n \<Longrightarrow> x < n \<Longrightarrow> cdist n h x < n"
  by (auto simp: cdist_def)

lemma cdist_add: "h < n \<Longrightarrow> i < n \<Longrightarrow> cdist n h ((h + i) mod n) = i"
  by (auto simp: cdist_def mod_if)

lemma add_cdist: "h < n \<Longrightarrow> x < n \<Longrightarrow> (h + cdist n h x) mod n = x"
  by (auto simp: cdist_def)

lemma cdist_inj: "h < n \<Longrightarrow> x < n \<Longrightarrow> y < n \<Longrightarrow> cdist n h x = cdist n h y \<longleftrightarrow> x = y"
  by (auto simp: cdist_def split: if_splits)

lemma cdist_rotate:
  assumes "s < n" "h < n" "x < n"
  shows "cdist n s x = (if cdist n s h + cdist n h x < n then cdist n s h + cdist n h x
    else cdist n s h + cdist n h x - n)"
  using assms unfolding cdist_def by (cases "s \<le> h"; cases "h \<le> x"; cases "s \<le> x"; auto)

text \<open>
  A stretch of probing that covers a slot between \<open>s\<close> and \<open>e\<close> but not \<open>e\<close> itself ends in that
  range.
\<close>

lemma cdist_between:
  assumes "h < n" "x < n" "p < n" "s < n" "e < n"
    and "cdist n h p < cdist n h x" and "\<not> cdist n h e < cdist n h x" and "cdist n s p < cdist n s e"
  shows "cdist n s p < cdist n s x \<and> cdist n s x \<le> cdist n s e"
proof -
  have b: "cdist n s h < n" "cdist n h p < n" "cdist n h x < n" "cdist n h e < n"
    using assms by (simp_all add: cdist_less)
  note r = cdist_rotate [OF assms(4,1,3)] cdist_rotate [OF assms(4,1,2)] cdist_rotate [OF assms(4,1,5)]
  define a dp dx de where "a = cdist n s h" and "dp = cdist n h p" and "dx = cdist n h x" and "de = cdist n h e"
  show ?thesis
    using b assms(6-8) unfolding r a_def [symmetric] dp_def [symmetric] dx_def [symmetric] de_def [symmetric]
    by (auto split: if_splits)
qed

lemma oa_slot_cases:
  assumes "idx < length t"
  obtains (none) "oa_slot hit t idx = None" "\<forall>x < length t. \<exists>e. t ! x = Some e \<and> \<not> hit e"
  | (some) s where "oa_slot hit t idx = Some s" "s < length t"
      "case t ! s of None \<Rightarrow> True | Some e \<Rightarrow> hit e"
      "\<forall>x < length t. cdist (length t) idx x < cdist (length t) idx s \<longrightarrow> (\<exists>e. t ! x = Some e \<and> \<not> hit e)"
proof (cases "oa_slot hit t idx")
  case None
  have "\<exists>e. t ! x = Some e \<and> \<not> hit e" if x: "x < length t" for x
  proof -
    have "x \<in> set (probe_seq (length t) idx)"
      using add_cdist [OF assms x] cdist_less [OF assms x] by (force simp: probe_seq_def)
    with None show ?thesis by (auto simp: oa_slot_def find_None_iff split: option.splits)
  qed
  with None none show ?thesis by blast
next
  case (Some s)
  then obtain i where i: "i < length t" "s = (idx + i) mod length t" "case t ! s of None \<Rightarrow> True | Some e \<Rightarrow> hit e"
    "\<forall>j < i. \<not> (case t ! ((idx + j) mod length t) of None \<Rightarrow> True | Some e \<Rightarrow> hit e)"
    by (auto simp: oa_slot_def find_Some_iff probe_seq_def)
  have s: "s < length t" using i(2) assms by (metis mod_less_divisor gr_implies_not0 not_gr0)
  have "\<exists>e. t ! x = Some e \<and> \<not> hit e" if "x < length t" "cdist (length t) idx x < cdist (length t) idx s" for x
  proof -
    have "cdist (length t) idx s = i" using cdist_add [OF assms i(1)] i(2) by simp
    with i(4) that add_cdist [OF assms that(1)] show ?thesis by (force split: option.splits)
  qed
  with Some s i(3) some show ?thesis by blast
qed

lemma cube_bound: "1 \<le> n \<Longrightarrow> n * (n - 1) * n + (n - 1) < n ^ 3" for n :: nat
proof -
  assume n: "1 \<le> n"
  have "n ^ 3 = n * (n - 1 + 1) * n" using n by (simp add: power3_eq_cube)
  also have "\<dots> = n * (n - 1) * n + n * n" by (simp only: distrib_left distrib_right mult_1_right)
  finally have "n ^ 3 = n * (n - 1) * n + n * n" .
  moreover have "n - 1 < n * n" using n by (cases n) simp_all
  ultimately show ?thesis by linarith
qed

section \<open>The table as a map\<close>

locale open_table =
  fixes n :: nat and key :: "'e \<Rightarrow> 'k" and home :: "'k \<Rightarrow> nat"
  assumes home_less: "home k < n"
begin

text \<open>Every entry is reached from its home without crossing an empty slot; keys are unique.\<close>

definition reached :: "'e option list \<Rightarrow> nat \<Rightarrow> bool" where
  "reached t s \<longleftrightarrow> (\<forall>e. t ! s = Some e \<longrightarrow>
    (\<forall>p < n. cdist n (home (key e)) p < cdist n (home (key e)) s \<longrightarrow> t ! p \<noteq> None))"

definition uniq :: "'e option list \<Rightarrow> bool" where
  "uniq t \<longleftrightarrow> (\<forall>s < n. \<forall>s' < n. \<forall>e e'. t ! s = Some e \<and> t ! s' = Some e' \<and> key e = key e' \<longrightarrow> s = s')"

definition inv :: "'e option list \<Rightarrow> bool" where
  "inv t \<longleftrightarrow> length t = n \<and> uniq t \<and> (\<forall>s < n. reached t s)"

definition lookup :: "'k \<Rightarrow> 'e option list \<Rightarrow> 'e option" where
  "lookup k t = (case oa_slot (\<lambda>e. key e = k) t (home k) of None \<Rightarrow> None | Some s \<Rightarrow> t ! s)"

definition ins :: "'e \<Rightarrow> 'e option list \<Rightarrow> 'e option list" where
  "ins e t = (case oa_slot (\<lambda>x. key x = key e) t (home (key e)) of None \<Rightarrow> t
     | Some s \<Rightarrow> if t ! s = None then t[s := Some e] else t)"

definition rem :: "'k \<Rightarrow> 'e option list \<Rightarrow> 'e option list option" where
  "rem k t = (case oa_slot (\<lambda>e. key e = k) t (home k) of None \<Rightarrow> Some t
     | Some s \<Rightarrow> if t ! s = None then Some t
                else oa_shift ins (n ^ 3) ((s + 1) mod length t) (t[s := None]))"

lemma inv_empty: "inv (replicate n None)"
  by (simp add: inv_def uniq_def reached_def)

lemma lookup_iff:
  assumes "inv t"
  shows "lookup k t = Some e \<longleftrightarrow> (\<exists>s < n. t ! s = Some e \<and> key e = k)"
proof -
  from assms have len: "length t = n" by (simp add: inv_def)
  have "home k < length t" using home_less len by simp
  then show ?thesis
  proof (cases rule: oa_slot_cases [where hit = "\<lambda>e. key e = k"])
    case none
    then show ?thesis using len by (auto simp: lookup_def)
  next
    case (some s)
    show ?thesis
    proof
      assume "lookup k t = Some e"
      with some len show "\<exists>s < n. t ! s = Some e \<and> key e = k" by (auto simp: lookup_def)
    next
      assume "\<exists>s < n. t ! s = Some e \<and> key e = k"
      then obtain x where x: "x < n" "t ! x = Some e" "key e = k" by blast
      have "\<not> cdist n (home k) x < cdist n (home k) s" using some(4) x len by auto
      moreover have "\<not> cdist n (home k) s < cdist n (home k) x"
      proof
        assume lt: "cdist n (home k) s < cdist n (home k) x"
        have "reached t x" using assms x(1) by (simp add: inv_def)
        with lt x some(2) len have "t ! s \<noteq> None" by (auto simp: reached_def)
        then obtain e' where "t ! s = Some e'" "key e' = k" using some(3) by (auto split: option.splits)
        with x assms some(2) len have "s = x" by (auto simp: inv_def uniq_def)
        with lt show False by simp
      qed
      ultimately have "s = x" using cdist_inj [OF home_less x(1), of s] some(2) len by (metis linorder_neqE_nat)
      with some(1) x show "lookup k t = Some e" by (simp add: lookup_def)
    qed
  qed
qed

lemma lookup_None_iff: "inv t \<Longrightarrow> lookup k t = None \<longleftrightarrow> (\<forall>s < n. \<forall>e. t ! s = Some e \<longrightarrow> key e \<noteq> k)"
  using lookup_iff [of t k] by (metis not_None_eq)

lemma ins_slot:
  assumes "length t = n" and "\<exists>x < n. t ! x = None" and "\<forall>s < n. \<forall>x. t ! s = Some x \<longrightarrow> key x \<noteq> key e"
  obtains s where "s < n" "t ! s = None" "ins e t = t[s := Some e]"
    "\<forall>p < n. cdist n (home (key e)) p < cdist n (home (key e)) s \<longrightarrow> t ! p \<noteq> None"
proof -
  have "home (key e) < length t" using home_less assms(1) by simp
  then show ?thesis
  proof (cases rule: oa_slot_cases [where hit = "\<lambda>x. key x = key e"])
    case none
    then show ?thesis using assms(1,2) by auto
  next
    case (some s)
    with assms have "t ! s = None" by (auto split: option.splits)
    moreover have "\<forall>p < n. cdist n (home (key e)) p < cdist n (home (key e)) s \<longrightarrow> t ! p \<noteq> None"
      using some(4) assms(1) by fastforce
    ultimately show ?thesis using that [of s] some assms(1) by (simp add: ins_def)
  qed
qed

text \<open>Filling an empty slot keeps what was reached.\<close>

lemma reached_fill:
  assumes "length t = n" and "reached t x" and "t ! s = None" and "x \<noteq> s"
  shows "reached (t[s := Some e]) x"
  using assms unfolding reached_def by (metis nth_list_update_neq)

text \<open>The entries after filling or clearing a slot.\<close>

lemma entries_fill:
  "s < length t \<Longrightarrow> t ! s = None \<Longrightarrow>
    (\<exists>x < length t. t[s := Some e] ! x = Some y \<and> P y) \<longleftrightarrow> (y = e \<and> P e) \<or> (\<exists>x < length t. t ! x = Some y \<and> P y)"
  by (metis nth_list_update_eq nth_list_update_neq option.distinct(1) option.inject)

lemma ins_inv:
  assumes "inv t" and "\<exists>x < n. t ! x = None" and "lookup (key e) t = None"
  shows "inv (ins e t)" and "lookup k (ins e t) = (if k = key e then Some e else lookup k t)"
proof -
  from assms(1) have len: "length t = n" by (simp add: inv_def)
  have new: "\<forall>s < n. \<forall>x. t ! s = Some x \<longrightarrow> key x \<noteq> key e" using lookup_None_iff [OF assms(1)] assms(3) by blast
  obtain s where s: "s < n" "t ! s = None" "ins e t = t[s := Some e]"
    "\<forall>p < n. cdist n (home (key e)) p < cdist n (home (key e)) s \<longrightarrow> t ! p \<noteq> None"
    by (rule ins_slot [OF len assms(2) new])
  have "reached (ins e t) x" if "x < n" for x
  proof (cases "x = s")
    case True
    then show ?thesis using s len by (auto simp: reached_def nth_list_update)
  next
    case False
    then show ?thesis using reached_fill [OF len _ s(2)] assms(1) that s(3) by (auto simp: inv_def)
  qed
  moreover have "uniq (ins e t)"
    using assms(1) new s len unfolding inv_def uniq_def by (auto simp: nth_list_update split: if_splits)
  ultimately show inv: "inv (ins e t)" using len s(3) by (simp add: inv_def)
  have "lookup k (ins e t) = Some x \<longleftrightarrow> (if k = key e then Some e else lookup k t) = Some x" for x
    unfolding lookup_iff [OF inv] using s len new lookup_iff [OF assms(1)] entries_fill [of s t e x "\<lambda>y. key y = k"]
    by auto
  then show "lookup k (ins e t) = (if k = key e then Some e else lookup k t)"
    by (metis not_None_eq)
qed

text \<open>
  The state of the re-insertion loop at slot \<open>j\<close>, with \<open>s\<close> the cleared slot and \<open>E\<close> the next empty
  slot after it in the original table \<open>t0\<close>: entries from \<open>j\<close> up to \<open>E\<close> may still have holes on
  their way between \<open>s\<close> and \<open>j\<close>, all others are reached.
\<close>

definition shifting :: "'e option list \<Rightarrow> nat \<Rightarrow> nat \<Rightarrow> nat \<Rightarrow> 'e option list \<Rightarrow> bool" where
  "shifting t0 s E j t \<longleftrightarrow> length t = n \<and> t ! E = None \<and> uniq t \<and> cdist n s j \<le> cdist n s E \<and>
    (\<forall>y. (\<exists>x < n. t ! x = Some y) \<longleftrightarrow> (\<exists>x < n. x \<noteq> s \<and> t0 ! x = Some y)) \<and>
    (\<forall>x < n. cdist n s j \<le> cdist n s x \<and> cdist n s x < cdist n s E \<longrightarrow> t ! x \<noteq> None) \<and>
    (\<forall>x < n. cdist n s x < cdist n s j \<or> cdist n s E \<le> cdist n s x \<longrightarrow> reached t x) \<and>
    (\<forall>x < n. cdist n s j \<le> cdist n s x \<and> cdist n s x < cdist n s E \<longrightarrow>
      (\<forall>e. t ! x = Some e \<longrightarrow> (\<forall>p < n. cdist n (home (key e)) p < cdist n (home (key e)) x \<longrightarrow>
         t ! p \<noteq> None \<or> cdist n s p < cdist n s j)))"

lemma shifting_end:
  assumes "shifting t0 s E E t" and "s < n"
  shows "inv t"
  using assms unfolding shifting_def inv_def by (metis linorder_not_le)

lemma cdist_succ:
  assumes "s < n" "j < n" "E < n" "cdist n s j < cdist n s E"
  shows "cdist n s ((j + 1) mod n) = Suc (cdist n s j)" and "(j + 1) mod n < n"
proof -
  have "cdist n s E < n" using assms by (simp add: cdist_less)
  with assms(4) have "Suc (cdist n s j) < n" by linarith
  from cdist_add [OF assms(1) this] add_cdist [OF assms(1,2)]
  show "cdist n s ((j + 1) mod n) = Suc (cdist n s j)"
    by (metis Suc_eq_plus1 add_Suc_right mod_Suc_eq)
  show "(j + 1) mod n < n" using assms by simp
qed

text \<open>One step of the loop: the entry at \<open>j\<close> is taken out and inserted again.\<close>

lemma shifting_step:
  assumes sh: "shifting t0 s E j t" and b: "s < n" "j < n" "E < n" and lt: "cdist n s j < cdist n s E"
    and e: "t ! j = Some e"
  shows "shifting t0 s E ((j + 1) mod n) (ins e (t[j := None]))"
proof -
  let ?t1 = "t[j := None]" and ?h = "home (key e)"
  note succ = cdist_succ [OF b lt]
  from sh have len: "length t = n" and tE: "t ! E = None" and u: "uniq t" by (simp_all add: shifting_def)
  have fresh: "\<forall>x < n. \<forall>y. ?t1 ! x = Some y \<longrightarrow> key y \<noteq> key e"
    using u e len b(2) unfolding uniq_def by (metis nth_list_update option.distinct(1))
  obtain q where q: "q < n" "?t1 ! q = None" "ins e ?t1 = ?t1[q := Some e]"
    "\<forall>p < n. cdist n ?h p < cdist n ?h q \<longrightarrow> ?t1 ! p \<noteq> None"
    using ins_slot [of ?t1 e] len b(2) fresh by (metis length_list_update nth_list_update_eq)
  define t2 where "t2 = ?t1[q := Some e]"
  have "\<not> cdist n ?h j < cdist n ?h q" using q(4) b(2) len by auto
  then have qpath: "q = j \<or> cdist n ?h q < cdist n ?h j"
    using cdist_inj [OF home_less q(1) b(2)] by (metis linorder_neqE_nat)
  have qk: "q = j \<or> cdist n s q < cdist n s j"
  proof (rule disjCI)
    assume "\<not> cdist n s q < cdist n s j"
    with sh b lt e qpath q(1,2) show "q = j" unfolding shifting_def by (metis nth_list_update_neq order_refl)
  qed
  have qE: "q \<noteq> E" "j \<noteq> E" using qk lt by auto
  have nth: "t2 ! x = (if x = q then Some e else if x = j then None else t ! x)" if "x < n" for x
    using that len q(1) b(2) by (auto simp: t2_def nth_list_update)
  have keep: "t2 ! p \<noteq> None" if "p < n" "t ! p \<noteq> None" "p \<noteq> j" for p
    using that nth by auto
  have content: "(\<exists>x < n. t2 ! x = Some y) \<longleftrightarrow> (\<exists>x < n. t ! x = Some y)" for y
    using nth e q(1,2) b(2) len by (metis nth_list_update_neq option.distinct(1))
  have uq: "uniq t2"
    unfolding uniq_def
  proof (intro allI impI)
    fix x x' y y' assume x: "x < n" "x' < n" and a: "t2 ! x = Some y \<and> t2 ! x' = Some y' \<and> key y = key y'"
    show "x = x'"
      using a x nth [OF x(1)] nth [OF x(2)] u fresh e b(2) unfolding uniq_def
      by (metis nth_list_update_neq option.distinct(1) option.inject)
  qed
  have rq: "reached t2 q" using q(1,4) nth keep unfolding reached_def
    by (metis less_irrefl nth_list_update_eq nth_list_update_neq len b(2) option.inject option.distinct(1))
  have reach: "reached t2 x" if x: "x < n" "cdist n s x < Suc (cdist n s j) \<or> cdist n s E \<le> cdist n s x" for x
  proof (cases "x = q \<or> x = j")
    case True
    then show ?thesis using rq nth [OF b(2)] by (auto simp: reached_def split: if_splits)
  next
    case False
    then have "cdist n s x \<noteq> cdist n s j" using cdist_inj [OF b(1) x(1) b(2)] by simp
    with sh x have rx: "reached t x" unfolding shifting_def by (metis less_Suc_eq)
    show ?thesis
      unfolding reached_def
    proof (intro allI impI)
      fix y p assume y: "t2 ! x = Some y" and p: "p < n" "cdist n (home (key y)) p < cdist n (home (key y)) x"
      have ty: "t ! x = Some y" using y False nth [OF x(1)] by simp
      then have tp: "t ! p \<noteq> None" using rx p by (simp add: reached_def)
      have "\<not> cdist n (home (key y)) E < cdist n (home (key y)) x" using rx ty b(3) tE by (auto simp: reached_def)
      then have "p \<noteq> j"
        using cdist_between [OF home_less x(1) b(2) b(1,3) _ _ lt, of "key y"] p x(2) lt ty tE
          cdist_inj [OF b(1) x(1) b(3)]
        by (metis le_antisym less_Suc_eq_le not_less option.distinct(1))
      with keep [OF p(1) tp] show "t2 ! p \<noteq> None" by simp
    qed
  qed
  have rest: "t2 ! p \<noteq> None \<or> cdist n s p < Suc (cdist n s j)"
    if "x < n" "Suc (cdist n s j) \<le> cdist n s x" "cdist n s x < cdist n s E" "t2 ! x = Some y" "p < n"
      "cdist n (home (key y)) p < cdist n (home (key y)) x" for x y p
  proof (cases "p = j")
    case False
    have "x \<noteq> q" "x \<noteq> j" using that(2) qk by auto
    then have "t ! x = Some y" using nth [OF that(1)] that(4) by simp
    with sh that have "t ! p \<noteq> None \<or> cdist n s p < cdist n s j"
      unfolding shifting_def by (metis Suc_leD)
    with keep [OF that(5) _ False] show ?thesis by auto
  qed simp
  have full: "t2 ! x \<noteq> None" if "x < n" "Suc (cdist n s j) \<le> cdist n s x" "cdist n s x < cdist n s E" for x
    using sh that keep [OF that(1)] unfolding shifting_def by (metis Suc_leD Suc_n_not_le_n)
  show ?thesis
    unfolding q(3) t2_def [symmetric] shifting_def succ(1)
    using len tE qE uq lt content sh reach rest full nth [OF b(3)] unfolding shifting_def
    by (auto simp: t2_def)
qed

lemma oa_shift_completes:
  assumes "shifting t0 s E j t" and "s < n" "j < n" "E < n" and "cdist n s E - cdist n s j < fuel"
  shows "\<exists>t'. oa_shift ins fuel j t = Some t' \<and> shifting t0 s E E t'"
  using assms
proof (induction fuel arbitrary: j t)
  case (Suc fuel)
  from Suc.prems(1) have le: "cdist n s j \<le> cdist n s E" and len: "length t = n" by (simp_all add: shifting_def)
  show ?case
  proof (cases "j = E")
    case True
    with Suc.prems(1) show ?thesis by (simp add: shifting_def)
  next
    case False
    then have lt: "cdist n s j < cdist n s E"
      using le cdist_inj [OF Suc.prems(2,3,4)] by (metis le_neq_implies_less)
    then obtain e where e: "t ! j = Some e"
      using Suc.prems(1,3) unfolding shifting_def by blast
    note st = shifting_step [OF Suc.prems(1-4) lt e] and sc = cdist_succ [OF Suc.prems(2-4) lt]
    have "cdist n s E - cdist n s ((j + 1) mod n) < fuel" using Suc.prems(5) lt sc(1) by linarith
    from Suc.IH [OF st Suc.prems(2) sc(2) Suc.prems(4) this] e len show ?thesis by simp
  qed
qed simp

lemma next_empty:
  assumes "s < n" and "x < n" and "t ! x = None" and "t ! s \<noteq> None"
  obtains E where "E < n" "E \<noteq> s" "t ! E = None"
    "\<forall>p < n. cdist n s p < cdist n s E \<longrightarrow> t ! p \<noteq> None"
proof -
  have "\<exists>E. (E < n \<and> t ! E = None) \<and> (\<forall>y. y < n \<and> t ! y = None \<longrightarrow> cdist n s E \<le> cdist n s y)"
    using ex_has_least_nat [of "\<lambda>y. y < n \<and> t ! y = None" x "cdist n s"] assms(2,3) by blast
  then show ?thesis using that assms(4) by (metis not_less)
qed

lemma shifting_start:
  assumes inv: "inv t0" and s: "s < n" "t0 ! s = Some e0"
    and E: "E < n" "E \<noteq> s" "t0 ! E = None" "\<forall>p < n. cdist n s p < cdist n s E \<longrightarrow> t0 ! p \<noteq> None"
  shows "shifting t0 s E ((s + 1) mod n) (t0[s := None])"
proof -
  have ss: "cdist n s s = 0" by (simp add: cdist_def)
  have lt: "cdist n s s < cdist n s E"
    using E(1,2) s(1) cdist_inj [OF s(1) s(1) E(1)] ss by (metis not_gr_zero)
  note sc = cdist_succ [OF s(1,1) E(1) lt]
  from inv have len: "length t0 = n" and u: "uniq t0" and r: "\<forall>x < n. reached t0 x" by (simp_all add: inv_def)
  have nth: "t0[s := None] ! x = (if x = s then None else t0 ! x)" if "x < n" for x
    using that len s(1) by (simp add: nth_list_update)
  have near: "cdist n s x < Suc 0 \<longleftrightarrow> x = s" if "x < n" for x
    using cdist_inj [OF s(1) that s(1)] ss by auto
  have uq: "uniq (t0[s := None])" using u nth unfolding uniq_def by (metis option.distinct(1))
  have reach: "reached (t0[s := None]) x" if x: "x < n" "cdist n s x < Suc 0 \<or> cdist n s E \<le> cdist n s x" for x
    unfolding reached_def
  proof (intro allI impI)
    fix y p assume y: "t0[s := None] ! x = Some y" and p: "p < n" "cdist n (home (key y)) p < cdist n (home (key y)) x"
    have ty: "t0 ! x = Some y" and xs: "x \<noteq> s" using y nth [OF x(1)] by (auto split: if_splits)
    have rx: "reached t0 x" using r x(1) by simp
    have "\<not> cdist n (home (key y)) E < cdist n (home (key y)) x" using rx ty E(1,3) by (auto simp: reached_def)
    then have "p \<noteq> s"
      using cdist_between [OF home_less x(1) s(1) s(1) E(1) _ _ lt, of "key y"] p x(2) near [OF x(1)] xs ty E(3)
        cdist_inj [OF s(1) x(1) E(1)] by (metis le_antisym option.distinct(1))
    moreover have "t0 ! p \<noteq> None" using rx ty p by (simp add: reached_def)
    ultimately show "t0[s := None] ! p \<noteq> None" using nth [OF p(1)] by simp
  qed
  have rest: "t0[s := None] ! p \<noteq> None \<or> cdist n s p < Suc 0"
    if "x < n" "t0[s := None] ! x = Some y" "p < n" "cdist n (home (key y)) p < cdist n (home (key y)) x" for x y p
    using that r nth [OF that(1)] nth [OF that(3)] near [OF that(3)] unfolding reached_def by (auto split: if_splits)
  have content: "(\<exists>x < n. t0[s := None] ! x = Some y) \<longleftrightarrow> (\<exists>x < n. x \<noteq> s \<and> t0 ! x = Some y)" for y
    using nth by (metis option.distinct(1))
  have full: "t0[s := None] ! x \<noteq> None" if "x < n" "Suc 0 \<le> cdist n s x" "cdist n s x < cdist n s E" for x
    using nth [OF that(1)] E(4) that ss by (metis not_one_le_zero One_nat_def)
  show ?thesis
    unfolding shifting_def sc(1) ss
  proof (intro conjI)
    show "\<forall>x < n. cdist n s x < Suc 0 \<or> cdist n s E \<le> cdist n s x \<longrightarrow> reached (t0[s := None]) x" using reach by blast
    show "\<forall>x < n. Suc 0 \<le> cdist n s x \<and> cdist n s x < cdist n s E \<longrightarrow> (\<forall>e. t0[s := None] ! x = Some e \<longrightarrow>
        (\<forall>p < n. cdist n (home (key e)) p < cdist n (home (key e)) x \<longrightarrow> t0[s := None] ! p \<noteq> None \<or> cdist n s p < Suc 0))"
      using rest by blast
  qed (use len uq E lt content full nth [OF E(1)] ss in auto)
qed

text \<open>
  A full table: after the removal there is a single hole \<open>h\<close>, and the loop is at the slot \<open>g\<close> places
  after it. The entries it has passed since the hole last moved are reached. Every move of
  the hole brings an entry closer to its home, so the loop ends.
\<close>

definition one_hole :: "'e option list \<Rightarrow> nat \<Rightarrow> nat \<Rightarrow> nat \<Rightarrow> 'e option list \<Rightarrow> bool" where
  "one_hole t0 s h g t \<longleftrightarrow> length t = n \<and> h < n \<and> 1 \<le> g \<and> g \<le> n \<and> (\<forall>x < n. t ! x = None \<longleftrightarrow> x = h) \<and> uniq t \<and>
    (\<forall>y. (\<exists>x < n. t ! x = Some y) \<longleftrightarrow> (\<exists>x < n. x \<noteq> s \<and> t0 ! x = Some y)) \<and>
    (\<forall>x < n. cdist n h x < g \<longrightarrow> reached t x)"

definition displacement :: "'e option list \<Rightarrow> nat \<Rightarrow> nat" where
  "displacement t x = (case t ! x of None \<Rightarrow> 0 | Some e \<Rightarrow> cdist n (home (key e)) x)"

lemma displacement_le: "x < n \<Longrightarrow> displacement t x \<le> n - 1"
proof (cases "t ! x")
  case (Some e)
  assume "x < n"
  from cdist_less [OF home_less this, of "key e"] Some show ?thesis by (simp add: displacement_def)
qed (simp add: displacement_def)

lemma sum_displacement_le: "sum (displacement t) {..<n} \<le> n * (n - 1)"
  using sum_bounded_above [of "{..<n}" "displacement t" "n - 1"] displacement_le by simp

lemma sum_two_points:
  fixes f :: "nat \<Rightarrow> nat"
  assumes "a < n" "b < n" "a \<noteq> b" and "\<And>x. x < n \<Longrightarrow> x \<noteq> a \<Longrightarrow> x \<noteq> b \<Longrightarrow> f x = g x" and "f a + f b < g a + g b"
  shows "sum f {..<n} < sum g {..<n}"
proof -
  have split: "sum u {..<n} = u a + u b + sum u ({..<n} - {a} - {b})" for u :: "nat \<Rightarrow> nat"
    using assms(1-3) by (simp add: sum.remove [of _ a] sum.remove [of _ b])
  have "sum f ({..<n} - {a} - {b}) = sum g ({..<n} - {a} - {b})" using assms(4) by (intro sum.cong) auto
  with assms(5) show ?thesis using split [of f] split [of g] by linarith
qed

text \<open>Moving the entry at \<open>j\<close> into the hole \<open>h\<close>.\<close>

lemma entry_move:
  assumes "h < n" "j < n" "j \<noteq> h" "t ! j = Some e"
    and "\<And>x. x < n \<Longrightarrow> t ! x = None \<longleftrightarrow> x = h"
    and "\<And>x. x < n \<Longrightarrow> t2 ! x = (if x = h then Some e else if x = j then None else t ! x)"
  shows "(\<exists>x < n. t2 ! x = Some y) \<longleftrightarrow> (\<exists>x < n. t ! x = Some y)"
proof
  assume "\<exists>x < n. t2 ! x = Some y"
  then obtain x where "x < n" "t2 ! x = Some y" by blast
  then show "\<exists>x < n. t ! x = Some y" using assms(2,4) assms(6) [of x] by (auto split: if_splits)
next
  assume "\<exists>x < n. t ! x = Some y"
  then obtain x where x: "x < n" "t ! x = Some y" by blast
  then have "x \<noteq> h" using assms(5) [of x] by auto
  then have "t2 ! (if x = j then h else x) = Some y" using x assms(1,3,4) assms(6) by auto
  then show "\<exists>x < n. t2 ! x = Some y" using x(1) assms(1) by (metis (full_types))
qed

lemma uniq_move:
  assumes u: "uniq t" and "h < n" "j < n" "j \<noteq> h" "t ! j = Some e"
    and hole: "\<And>x. x < n \<Longrightarrow> t ! x = None \<longleftrightarrow> x = h"
    and t2: "\<And>x. x < n \<Longrightarrow> t2 ! x = (if x = h then Some e else if x = j then None else t ! x)"
  shows "uniq t2"
  unfolding uniq_def
proof (intro allI impI)
  fix a b y z assume ab: "a < n" "b < n" and yz: "t2 ! a = Some y \<and> t2 ! b = Some z \<and> key y = key z"
  let ?o = "\<lambda>x. if x = h then j else x"
  have "t ! ?o a = Some y" "t ! ?o b = Some z" using yz t2 [OF ab(1)] t2 [OF ab(2)] assms(5) by (auto split: if_splits)
  moreover have "?o a < n" "?o b < n" using ab assms(3) by auto
  ultimately have "?o a = ?o b" using u yz unfolding uniq_def by blast
  moreover have "a \<noteq> j" "b \<noteq> j" using yz t2 [OF ab(1)] t2 [OF ab(2)] assms(4) by (auto split: if_splits)
  ultimately show "a = b" by (simp split: if_splits)
qed

lemma one_hole_step:
  assumes oh: "one_hole t0 s h g t" and g: "g < n" and j: "j = (h + g) mod n" and e: "t ! j = Some e"
  shows "one_hole t0 s h (Suc g) (ins e (t[j := None])) \<and> ins e (t[j := None]) = t \<or>
    one_hole t0 s j 1 (ins e (t[j := None])) \<and>
      sum (displacement (ins e (t[j := None]))) {..<n} < sum (displacement t) {..<n}"
proof -
  from oh have len: "length t = n" and h: "h < n" and hole: "\<And>x. x < n \<Longrightarrow> t ! x = None \<longleftrightarrow> x = h" and u: "uniq t"
    and content: "\<And>y. (\<exists>x < n. t ! x = Some y) \<longleftrightarrow> (\<exists>x < n. x \<noteq> s \<and> t0 ! x = Some y)"
    and r: "\<And>x. x < n \<Longrightarrow> cdist n h x < g \<Longrightarrow> reached t x" by (simp_all add: one_hole_def)
  have jn: "j < n" and jh: "j \<noteq> h" using j h hole [of j] e by auto
  have dj: "cdist n h j = g" using cdist_add [OF h g] j by simp
  define t1 where "t1 = t[j := None]"
  have nth: "t1 ! x = (if x = j then None else t ! x)" if "x < n" for x
    using that len jn by (simp add: t1_def nth_list_update)
  have new: "\<forall>x < n. \<forall>y. t1 ! x = Some y \<longrightarrow> key y \<noteq> key e"
    using u e jn nth unfolding uniq_def by (metis option.distinct(1))
  have l1: "length t1 = n" using len by (simp add: t1_def)
  have "\<exists>x < n. t1 ! x = None" using nth [OF jn] jn by auto
  from ins_slot [OF l1 this new] obtain q where q: "q < n" "t1 ! q = None" "ins e t1 = t1[q := Some e]"
    "\<forall>p < n. cdist n (home (key e)) p < cdist n (home (key e)) q \<longrightarrow> t1 ! p \<noteq> None" .
  have "q = j \<or> q = h" using q(1,2) nth [OF q(1)] hole by (auto split: if_splits)
  then show ?thesis
  proof
    assume "q = j"
    have t: "ins e t1 = t" using q(3) e jn len unfolding \<open>q = j\<close> t1_def by (metis list_update_id list_update_overwrite)
    have "reached t x" if x: "x < n" "cdist n h x < Suc g" for x
    proof (cases "x = j")
      case True
      then show ?thesis using q(4) \<open>q = j\<close> nth e unfolding reached_def by (metis option.inject)
    next
      case False
      with x have "cdist n h x < g" using cdist_inj [OF h x(1) jn] dj by (metis less_antisym)
      with r x(1) show ?thesis by simp
    qed
    then show ?thesis using oh g t by (simp add: one_hole_def t1_def)
  next
    assume qh: "q = h"
    define t2 where "t2 = t1[h := Some e]"
    have nth2: "t2 ! x = (if x = h then Some e else if x = j then None else t ! x)" if "x < n" for x
      using that l1 nth by (auto simp: t2_def nth_list_update)
    have "\<not> cdist n (home (key e)) j < cdist n (home (key e)) h" using q(4) jn nth [OF jn] qh by auto
    then have closer: "cdist n (home (key e)) h < cdist n (home (key e)) j"
      using cdist_inj [OF home_less h jn] jh by (metis linorder_neqE_nat)
    have "sum (displacement t2) {..<n} < sum (displacement t) {..<n}"
      by (rule sum_two_points [OF h jn]) (use jh nth2 h jn e hole closer in \<open>auto simp: displacement_def\<close>)
    moreover have "uniq t2"
      using uniq_move [OF u h jn jh e] hole nth2 by blast
    moreover have "(\<exists>x < n. t2 ! x = Some y) \<longleftrightarrow> (\<exists>x < n. t ! x = Some y)" for y
      using entry_move [OF h jn jh e] hole nth2 by blast
    moreover have "cdist n j x < 1 \<Longrightarrow> x < n \<Longrightarrow> reached t2 x" for x
      using cdist_inj [OF jn _ jn, of x] nth2 [OF jn] jh by (simp add: cdist_def reached_def)
    ultimately have "one_hole t0 s j 1 t2"
      using content nth2 hole jn jh g l1 h unfolding one_hole_def by (auto simp: t2_def)
    with \<open>sum (displacement t2) {..<n} < _\<close> q(3) show ?thesis by (simp add: t2_def t1_def qh)
  qed
qed

lemma one_hole_completes:
  assumes "one_hole t0 s h g t" and "sum (displacement t) {..<n} * n + (n - g) < fuel"
  shows "\<exists>t' h'. oa_shift ins fuel ((h + g) mod n) t = Some t' \<and> one_hole t0 s h' n t'"
  using assms
proof (induction fuel arbitrary: h g t)
  case (Suc fuel)
  from Suc.prems(1) have g: "1 \<le> g" "g \<le> n" and h: "h < n" and len: "length t = n"
    and hole: "\<And>x. x < n \<Longrightarrow> t ! x = None \<longleftrightarrow> x = h" by (simp_all add: one_hole_def)
  show ?case
  proof (cases "g = n")
    case True
    with hole [OF h] h Suc.prems(1) show ?thesis by auto
  next
    case False
    with g have g': "g < n" by simp
    let ?j = "(h + g) mod n"
    have "cdist n h ?j = g" by (rule cdist_add [OF h g'])
    then have "?j \<noteq> h" using g(1) by (auto simp: cdist_def)
    moreover have "?j < n" using h by simp
    ultimately obtain e where e: "t ! ?j = Some e" using hole [of ?j] by blast
    let ?t = "ins e (t[?j := None])"
    have step: "oa_shift ins (Suc fuel) ?j t = oa_shift ins fuel ((?j + 1) mod n) ?t" using e len by simp
    from one_hole_step [OF Suc.prems(1) g' refl e] show ?thesis
    proof
      assume a: "one_hole t0 s h (Suc g) ?t \<and> ?t = t"
      then have "sum (displacement ?t) {..<n} * n + (n - Suc g) < fuel" using Suc.prems(2) g' by simp
      from Suc.IH [OF a [THEN conjunct1] this] show ?thesis unfolding step by (simp add: mod_Suc_eq)
    next
      assume a: "one_hole t0 s ?j 1 ?t \<and> sum (displacement ?t) {..<n} < sum (displacement t) {..<n}"
      then have "(sum (displacement ?t) {..<n} + 1) * n \<le> sum (displacement t) {..<n} * n" by (intro mult_le_mono1) simp
      then have "sum (displacement ?t) {..<n} * n + (n - 1) < fuel" using Suc.prems(2) g g' by simp
      from Suc.IH [OF a [THEN conjunct1] this] show ?thesis unfolding step .
    qed
  qed
qed simp

lemma one_hole_end:
  assumes "one_hole t0 s h n t"
  shows "inv t"
  using assms cdist_less by (auto simp: one_hole_def inv_def)

lemma one_hole_start:
  assumes "inv t0" and "s < n" and "\<forall>x < n. t0 ! x \<noteq> None"
  shows "one_hole t0 s s 1 (t0[s := None])"
proof -
  from assms(1) have len: "length t0 = n" and u: "uniq t0" by (simp_all add: inv_def)
  have nth: "t0[s := None] ! x = (if x = s then None else t0 ! x)" if "x < n" for x
    using that len assms(2) by (simp add: nth_list_update)
  have "uniq (t0[s := None])" using u nth unfolding uniq_def by (metis option.distinct(1))
  moreover have "(\<exists>x < n. t0[s := None] ! x = Some y) \<longleftrightarrow> (\<exists>x < n. x \<noteq> s \<and> t0 ! x = Some y)" for y
    using nth by (metis option.distinct(1))
  moreover have "reached (t0[s := None]) x" if "x < n" "cdist n s x < 1" for x
    using cdist_inj [OF assms(2) that(1) assms(2)] that nth [OF assms(2)] by (simp add: cdist_def reached_def)
  ultimately show ?thesis using assms(2,3) len nth by (auto simp: one_hole_def)
qed

text \<open>Clearing the slot of an entry and re-inserting leaves the other entries, with or without room.\<close>

lemma shift_content:
  assumes inv: "inv t" and s: "s < n" "t ! s = Some e"
  shows "\<exists>t'. oa_shift ins (n ^ 3) ((s + 1) mod n) (t[s := None]) = Some t' \<and> inv t' \<and>
    (\<forall>y. (\<exists>x < n. t' ! x = Some y) \<longleftrightarrow> (\<exists>x < n. x \<noteq> s \<and> t ! x = Some y))"
proof (cases "\<exists>x < n. t ! x = None")
  case True
  then obtain x where "x < n" "t ! x = None" by blast
  from next_empty [OF s(1) this, unfolded s(2)] obtain E where E: "E < n" "E \<noteq> s" "t ! E = None"
    "\<forall>p < n. cdist n s p < cdist n s E \<longrightarrow> t ! p \<noteq> None" by blast
  have sn: "(s + 1) mod n < n" using s by simp
  have "cdist n s E < n" by (rule cdist_less [OF s(1) E(1)])
  moreover have "n \<le> n ^ 3" using s(1) by (intro self_le_power) simp_all
  ultimately have "cdist n s E - cdist n s ((s + 1) mod n) < n ^ 3" by linarith
  from oa_shift_completes [OF shifting_start [OF inv s E] s(1) sn E(1) this] obtain t' where
    t': "oa_shift ins (n ^ 3) ((s + 1) mod n) (t[s := None]) = Some t'" "shifting t s E E t'" by blast
  have "inv t'" by (rule shifting_end [OF t'(2) s(1)])
  moreover have "\<forall>y. (\<exists>x < n. t' ! x = Some y) \<longleftrightarrow> (\<exists>x < n. x \<noteq> s \<and> t ! x = Some y)"
    using t'(2) unfolding shifting_def by blast
  ultimately show ?thesis using t'(1) by (intro exI [of _ t'] conjI)
next
  case False
  have n: "n \<ge> 1" using s(1) by simp
  have "sum (displacement (t[s := None])) {..<n} * n + (n - 1) \<le> n * (n - 1) * n + (n - 1)"
    by (intro add_right_mono mult_le_mono1 sum_displacement_le)
  also have "\<dots> < n ^ 3" by (rule cube_bound [OF n])
  finally have fuel: "sum (displacement (t[s := None])) {..<n} * n + (n - 1) < n ^ 3" .
  have "one_hole t s s 1 (t[s := None])" by (rule one_hole_start [OF inv s(1)]) (use False in simp)
  from one_hole_completes [OF this fuel] obtain t' h' where
    t': "oa_shift ins (n ^ 3) ((s + 1) mod n) (t[s := None]) = Some t'" "one_hole t s h' n t'" by blast
  have "inv t'" by (rule one_hole_end [OF t'(2)])
  moreover have "\<forall>y. (\<exists>x < n. t' ! x = Some y) \<longleftrightarrow> (\<exists>x < n. x \<noteq> s \<and> t ! x = Some y)"
    using t'(2) unfolding one_hole_def by blast
  ultimately show ?thesis using t'(1) by (intro exI [of _ t'] conjI)
qed

lemma rem_refines:
  assumes inv: "inv t"
  shows "\<exists>t'. rem k t = Some t' \<and> inv t' \<and> (\<forall>k'. lookup k' t' = (if k' = k then None else lookup k' t))"
proof -
  from inv have len: "length t = n" by (simp add: inv_def)
  have "home k < length t" using home_less len by simp
  then show ?thesis
  proof (cases rule: oa_slot_cases [where hit = "\<lambda>e. key e = k"])
    case none
    then have "lookup k t = None" by (simp add: lookup_def)
    then show ?thesis using none inv by (auto simp: rem_def)
  next
    case (some s)
    show ?thesis
    proof (cases "t ! s")
      case None
      then have "lookup k t = None" using some by (simp add: lookup_def)
      then show ?thesis using some None inv by (auto simp: rem_def)
    next
      case (Some e)
      with some(3) have k: "key e = k" by simp
      have s: "s < n" using some(2) len by simp
      from shift_content [OF inv s Some] obtain t' where
        t': "oa_shift ins (n ^ 3) ((s + 1) mod n) (t[s := None]) = Some t'" and inv': "inv t'"
        and content: "\<And>y. (\<exists>x < n. t' ! x = Some y) \<longleftrightarrow> (\<exists>x < n. x \<noteq> s \<and> t ! x = Some y)" by blast
      have "lookup k' t' = Some y \<longleftrightarrow> (if k' = k then None else lookup k' t) = Some y" for k' y
      proof -
        have "lookup k' t' = Some y \<longleftrightarrow> (\<exists>x < n. x \<noteq> s \<and> t ! x = Some y) \<and> key y = k'"
          unfolding lookup_iff [OF inv'] using content [of y] by blast
        also have "\<dots> \<longleftrightarrow> (if k' = k then None else lookup k' t) = Some y"
          using inv k Some s lookup_iff [OF inv, of k' y] unfolding inv_def uniq_def
          by (cases "k' = k") (fastforce, metis option.inject)
        finally show ?thesis .
      qed
      then have "\<forall>k'. lookup k' t' = (if k' = k then None else lookup k' t)" by (metis not_None_eq)
      with t' inv' some(1) Some len show ?thesis by (simp add: rem_def)
    qed
  qed
qed

text \<open>Inserting into a full table changes nothing.\<close>

lemma ins_full:
  assumes "length t = n" and "\<forall>x < n. t ! x \<noteq> None"
  shows "ins e t = t"
proof -
  have "home (key e) < length t" using home_less assms(1) by simp
  then show ?thesis
    by (cases rule: oa_slot_cases [where hit = "\<lambda>x. key x = key e"]) (use assms in \<open>auto simp: ins_def\<close>)
qed

end

end
