(* ===== verification/CircuitTable.thy ===== *)
theory CircuitTable
  imports OpenTable
begin

text \<open>
  The circuit hash table of \<open>src/src/circuit.c\<close>: a circuit is found by the connection a cell
  arrives on and the circuit id it carries. Addresses of connections are 64-bit words (0 is
  \<open>NULL\<close>), circuits are named by numbers. A slot whose \<open>circ\<close> field is \<open>NULL\<close> is \<open>None\<close>. The table
  is an instance of the open-addressing contract and refines a finite map.
\<close>

definition CIRC_HT_SIZE :: nat where "CIRC_HT_SIZE = 4096"
definition CIRC_HT_MASK :: u32 where "CIRC_HT_MASK = 4095"

record circ_ht_entry =
  he_conn :: u64
  he_circuit_id :: u32
  he_circ :: nat

type_synonym circ_ht = "circ_ht_entry option list"

definition circ_ht_hash :: "u64 \<Rightarrow> u32 \<Rightarrow> nat" where
  "circ_ht_hash conn cid =
    (let k = conn XOR (ucast cid * 2654435769)
     in unat ((ucast (drop_bit 32 (k * 11400714819323198485)) :: u32) AND CIRC_HT_MASK))"

definition circ_ht_insert :: "u64 \<Rightarrow> u32 \<Rightarrow> nat \<Rightarrow> circ_ht \<Rightarrow> bool \<times> circ_ht" where
  "circ_ht_insert conn cid circ t =
    (if conn = 0 \<or> cid = 0 then (False, t)
     else case oa_slot (\<lambda>e. he_conn e = conn \<and> he_circuit_id e = cid) t (circ_ht_hash conn cid) of
         None \<Rightarrow> (False, t)
       | Some slot \<Rightarrow>
           (case t ! slot of
              None \<Rightarrow> (True, t[slot := Some \<lparr> he_conn = conn, he_circuit_id = cid, he_circ = circ \<rparr>])
            | Some e \<Rightarrow> (he_circ e = circ, t)))"

definition circ_ht_lookup :: "u64 \<Rightarrow> u32 \<Rightarrow> circ_ht \<Rightarrow> nat option" where
  "circ_ht_lookup conn cid t =
    (if conn = 0 \<or> cid = 0 then None
     else case oa_slot (\<lambda>e. he_conn e = conn \<and> he_circuit_id e = cid) t (circ_ht_hash conn cid) of
         None \<Rightarrow> None
       | Some slot \<Rightarrow> map_option he_circ (t ! slot))"

definition circ_ht_reinsert :: "circ_ht_entry \<Rightarrow> circ_ht \<Rightarrow> circ_ht" where
  "circ_ht_reinsert e t = snd (circ_ht_insert (he_conn e) (he_circuit_id e) (he_circ e) t)"

text \<open>
  \<open>None\<close> would mean that the re-insertion loop runs for more than 4096 cubed steps.
\<close>

definition circ_ht_remove :: "u64 \<Rightarrow> u32 \<Rightarrow> circ_ht \<Rightarrow> circ_ht option" where
  "circ_ht_remove conn cid t =
    (if conn = 0 \<or> cid = 0 then Some t
     else case oa_slot (\<lambda>e. he_conn e = conn \<and> he_circuit_id e = cid) t (circ_ht_hash conn cid) of
         None \<Rightarrow> Some t
       | Some slot \<Rightarrow>
           (case t ! slot of
              None \<Rightarrow> Some t
            | Some e \<Rightarrow> oa_shift circ_ht_reinsert (CIRC_HT_SIZE ^ 3) ((slot + 1) mod length t) (t[slot := None])))"

section \<open>The table as a map\<close>

definition he_key :: "circ_ht_entry \<Rightarrow> u64 \<times> u32" where
  "he_key e = (he_conn e, he_circuit_id e)"

lemma circ_ht_hash_less: "circ_ht_hash conn cid < CIRC_HT_SIZE"
proof -
  have m: "CIRC_HT_MASK = mask 12" by (simp add: CIRC_HT_MASK_def mask_eq_exp_minus_1)
  have "unat ((x :: u32) AND CIRC_HT_MASK) < 4096" for x
  proof -
    have "unat (x AND CIRC_HT_MASK) = take_bit 12 (unat x)"
      unfolding m by (simp add: take_bit_eq_mask [symmetric] unsigned_take_bit_eq)
    also have "\<dots> < 2 ^ 12" by (rule take_bit_nat_less_exp)
    finally show ?thesis by simp
  qed
  then show ?thesis by (simp add: circ_ht_hash_def Let_def CIRC_HT_SIZE_def)
qed

interpretation circ_table: open_table CIRC_HT_SIZE he_key "\<lambda>(conn, cid). circ_ht_hash conn cid"
  by unfold_locales (simp add: circ_ht_hash_less split: prod.split)

lemma he_key_match: "(\<lambda>e. he_key e = (conn, cid)) = (\<lambda>e. he_conn e = conn \<and> he_circuit_id e = cid)"
  by (auto simp: he_key_def)

lemma circ_ht_lookup_table:
  "conn \<noteq> 0 \<Longrightarrow> cid \<noteq> 0 \<Longrightarrow> circ_ht_lookup conn cid t = map_option he_circ (circ_table.lookup (conn, cid) t)"
  by (simp add: circ_ht_lookup_def circ_table.lookup_def he_key_match split: option.split)

lemma circ_ht_insert_table:
  "conn \<noteq> 0 \<Longrightarrow> cid \<noteq> 0 \<Longrightarrow> snd (circ_ht_insert conn cid circ t) =
    circ_table.ins \<lparr> he_conn = conn, he_circuit_id = cid, he_circ = circ \<rparr> t"
  by (simp add: circ_ht_insert_def circ_table.ins_def he_key_def split: option.split)

text \<open>Every entry has a non-zero key: \<open>circ_ht_insert\<close> refuses others.\<close>

definition ht_keys_ok :: "circ_ht \<Rightarrow> bool" where
  "ht_keys_ok t \<longleftrightarrow> (\<forall>e. Some e \<in> set t \<longrightarrow> he_conn e \<noteq> 0 \<and> he_circuit_id e \<noteq> 0)"

lemma ht_keys_ok_update: "ht_keys_ok t \<Longrightarrow> ht_keys_ok (t[i := None])"
  by (auto simp: ht_keys_ok_def dest!: set_update_subset_insert [THEN subsetD])

lemma ht_keys_ok_insert: "ht_keys_ok t \<Longrightarrow> ht_keys_ok (snd (circ_ht_insert conn cid circ t))"
  by (auto simp: ht_keys_ok_def circ_ht_insert_def split: option.splits
      dest!: set_update_subset_insert [THEN subsetD])

lemma circ_ht_reinsert_table:
  "he_conn e \<noteq> 0 \<Longrightarrow> he_circuit_id e \<noteq> 0 \<Longrightarrow> circ_ht_reinsert e t = circ_table.ins e t"
  by (cases e) (simp add: circ_ht_reinsert_def circ_ht_insert_table)

lemma length_circ_ht_insert [simp]: "length (snd (circ_ht_insert conn cid circ t)) = length t"
  by (auto simp: circ_ht_insert_def split: option.splits)

lemma circ_ht_shift_table:
  assumes "ht_keys_ok t" and "j < length t"
  shows "oa_shift circ_ht_reinsert fuel j t = oa_shift circ_table.ins fuel j t"
  using assms
proof (induction fuel arbitrary: j t)
  case (Suc fuel)
  show ?case
  proof (cases "t ! j")
    case (Some e)
    then have e: "he_conn e \<noteq> 0" "he_circuit_id e \<noteq> 0"
      using Suc.prems by (auto simp: ht_keys_ok_def) (metis nth_mem)+
    let ?t = "circ_ht_reinsert e (t[j := None])"
    have "ht_keys_ok ?t" using Suc.prems(1)
      by (simp add: circ_ht_reinsert_def ht_keys_ok_insert ht_keys_ok_update)
    moreover have "(j + 1) mod length t < length ?t"
      using Suc.prems(2) by (simp add: circ_ht_reinsert_def) (metis gr_implies_not0 mod_less_divisor not_gr0)
    ultimately show ?thesis using Suc.IH [of ?t "(j + 1) mod length t"] Some e
      by (simp add: circ_ht_reinsert_table)
  qed simp
qed simp

lemma circ_ht_remove_table:
  assumes "conn \<noteq> 0" and "cid \<noteq> 0" and "ht_keys_ok t" and "length t = CIRC_HT_SIZE"
  shows "circ_ht_remove conn cid t = circ_table.rem (conn, cid) t"
proof -
  have b: "(s + 1) mod length t < length (t[s := None])" for s
    using assms(4) by (simp add: CIRC_HT_SIZE_def)
  show ?thesis
    using assms circ_ht_shift_table [OF ht_keys_ok_update [OF assms(3)] b]
    by (simp add: circ_ht_remove_def circ_table.rem_def he_key_match split: option.split)
qed

lemma oa_shift_keys_ok:
  "ht_keys_ok t \<Longrightarrow> oa_shift circ_ht_reinsert fuel j t = Some t' \<Longrightarrow> ht_keys_ok t'"
proof (induction fuel arbitrary: j t)
  case (Suc fuel)
  show ?case
  proof (cases "t ! j")
    case (Some e)
    have "ht_keys_ok (circ_ht_reinsert e (t[j := None]))" using Suc.prems(1)
      by (simp add: circ_ht_reinsert_def ht_keys_ok_insert ht_keys_ok_update)
    from Suc.IH [OF this] Suc.prems(2) Some show ?thesis by simp
  qed (use Suc.prems in simp)
qed simp

text \<open>The invariant of the table and its meaning as a map from (connection, id) to circuits.\<close>

definition ht_inv :: "circ_ht \<Rightarrow> bool" where
  "ht_inv t \<longleftrightarrow> circ_table.inv t \<and> ht_keys_ok t"

definition ht_abs :: "circ_ht \<Rightarrow> u64 \<times> u32 \<Rightarrow> nat option" where
  "ht_abs t = (\<lambda>(conn, cid). circ_ht_lookup conn cid t)"

definition ht_room :: "circ_ht \<Rightarrow> bool" where
  "ht_room t \<longleftrightarrow> None \<in> set t"

lemma ht_room_nth: "length t = CIRC_HT_SIZE \<Longrightarrow> ht_room t \<longleftrightarrow> (\<exists>x < CIRC_HT_SIZE. t ! x = None)"
  by (auto simp: ht_room_def in_set_conv_nth)

lemma ht_abs_table: "ht_abs t k = (if fst k = 0 \<or> snd k = 0 then None else map_option he_circ (circ_table.lookup k t))"
proof (cases k)
  case (Pair conn cid)
  show ?thesis
  proof (cases "conn = 0 \<or> cid = 0")
    case True
    then show ?thesis by (auto simp: Pair ht_abs_def circ_ht_lookup_def)
  next
    case False
    then show ?thesis by (simp add: Pair ht_abs_def circ_ht_lookup_table)
  qed
qed

lemma ht_inv_length: "ht_inv t \<Longrightarrow> length t = CIRC_HT_SIZE"
  by (simp add: ht_inv_def circ_table.inv_def)

lemma ht_abs_entry:
  assumes "ht_inv t" and "ht_abs t k = Some c"
  shows "\<exists>e. Some e \<in> set t \<and> he_key e = k \<and> he_circ e = c"
proof -
  from assms(2) obtain e where "circ_table.lookup k t = Some e" "he_circ e = c"
    by (auto simp: ht_abs_table split: if_splits)
  then show ?thesis using circ_table.lookup_iff assms(1) ht_inv_length [OF assms(1)]
    by (metis ht_inv_def nth_mem)
qed

lemma ht_entry_abs:
  assumes "ht_inv t" and "Some e \<in> set t"
  shows "ht_abs t (he_key e) = Some (he_circ e)"
proof -
  from assms(2) obtain s where "s < CIRC_HT_SIZE" "t ! s = Some e"
    using ht_inv_length [OF assms(1)] by (auto simp: in_set_conv_nth)
  then have "circ_table.lookup (he_key e) t = Some e"
    using circ_table.lookup_iff assms(1) by (auto simp: ht_inv_def)
  moreover have "he_conn e \<noteq> 0 \<and> he_circuit_id e \<noteq> 0" using assms by (simp add: ht_inv_def ht_keys_ok_def)
  ultimately show ?thesis by (simp add: ht_abs_table he_key_def)
qed

lemma ht_inv_empty: "ht_inv (replicate CIRC_HT_SIZE None)"
  by (simp add: ht_inv_def circ_table.inv_empty ht_keys_ok_def)

lemma ht_insert:
  assumes "ht_inv t" and "conn \<noteq> 0" and "cid \<noteq> 0" and "ht_abs t (conn, cid) = None" and "ht_room t"
  shows "fst (circ_ht_insert conn cid c t)" and "ht_inv (snd (circ_ht_insert conn cid c t))"
    and "ht_abs (snd (circ_ht_insert conn cid c t)) = (ht_abs t)((conn, cid) \<mapsto> c)"
proof -
  let ?e = "\<lparr> he_conn = conn, he_circuit_id = cid, he_circ = c \<rparr>"
  have inv: "circ_table.inv t" using assms(1) by (simp add: ht_inv_def)
  have room: "\<exists>x < CIRC_HT_SIZE. t ! x = None" using assms(5) ht_room_nth [OF ht_inv_length [OF assms(1)]] by simp
  have new: "circ_table.lookup (he_key ?e) t = None"
    using assms(2-4) by (simp add: ht_abs_table he_key_def)
  note i = circ_table.ins_inv [OF inv room new]
  show "ht_inv (snd (circ_ht_insert conn cid c t))"
    using i(1) ht_keys_ok_insert [of t conn cid c] assms(1) circ_ht_insert_table [OF assms(2,3), of c t]
    by (simp add: ht_inv_def)
  show "ht_abs (snd (circ_ht_insert conn cid c t)) = (ht_abs t)((conn, cid) \<mapsto> c)"
    using i(2) assms(2,3) by (auto simp: fun_eq_iff ht_abs_table circ_ht_insert_table he_key_def)
  have l: "circ_ht_lookup conn cid t = None" using assms(4) by (simp add: ht_abs_def)
  have "circ_ht_hash conn cid < length t" using circ_ht_hash_less ht_inv_length [OF assms(1)] by simp
  then show "fst (circ_ht_insert conn cid c t)"
  proof (cases rule: oa_slot_cases [where hit = "\<lambda>e. he_conn e = conn \<and> he_circuit_id e = cid"])
    case none
    then show ?thesis using room ht_inv_length [OF assms(1)] by fastforce
  next
    case (some s)
    with l assms(2,3) have "t ! s = None" by (simp add: circ_ht_lookup_def)
    then show ?thesis using some assms(2,3) by (simp add: circ_ht_insert_def)
  qed
qed

lemma ht_insert_present:
  assumes "ht_inv t" and "conn \<noteq> 0" and "cid \<noteq> 0" and "ht_abs t (conn, cid) = Some c'"
  shows "circ_ht_insert conn cid c t = (c' = c, t)"
  using assms by (auto simp: ht_abs_def circ_ht_lookup_def circ_ht_insert_def split: option.splits)

lemma ht_insert_full:
  assumes "ht_inv t" and "\<not> ht_room t"
  shows "snd (circ_ht_insert conn cid c t) = t"
proof (cases "conn = 0 \<or> cid = 0")
  case False
  then show ?thesis
    using circ_table.ins_full [OF ht_inv_length [OF assms(1)]] assms(2) ht_room_nth [OF ht_inv_length [OF assms(1)]]
    by (simp add: circ_ht_insert_table)
qed (auto simp: circ_ht_insert_def)

lemma ht_remove:
  assumes "ht_inv t"
  shows "\<exists>t'. circ_ht_remove conn cid t = Some t' \<and> ht_inv t' \<and> ht_abs t' = (ht_abs t)((conn, cid) := None)"
proof (cases "conn = 0 \<or> cid = 0")
  case True
  then show ?thesis using assms by (auto simp: circ_ht_remove_def fun_eq_iff ht_abs_table)
next
  case False
  have inv: "circ_table.inv t" using assms(1) by (simp add: ht_inv_def)
  from circ_table.rem_refines [OF inv, of "(conn, cid)"] obtain t' where
    t': "circ_table.rem (conn, cid) t = Some t'" "circ_table.inv t'"
    "\<forall>k'. circ_table.lookup k' t' = (if k' = (conn, cid) then None else circ_table.lookup k' t)" by blast
  have rt: "circ_ht_remove conn cid t = Some t'"
    using circ_ht_remove_table [of conn cid t] False assms(1) t'(1) ht_inv_length [OF assms(1)]
    by (simp add: ht_inv_def)
  have "ht_keys_ok t'"
    using rt False assms(1) ht_keys_ok_update
    by (auto simp: circ_ht_remove_def ht_inv_def split: option.splits intro: oa_shift_keys_ok)
  then show ?thesis using rt t' by (auto simp: ht_inv_def fun_eq_iff ht_abs_table)
qed

section \<open>Runs of table operations\<close>

datatype ht_op = HtInsert u64 u32 nat | HtRemove u64 u32

fun ht_run :: "circ_ht \<Rightarrow> ht_op list \<Rightarrow> circ_ht option" where
  "ht_run t [] = Some t"
| "ht_run t (HtInsert conn cid c # ops) = ht_run (snd (circ_ht_insert conn cid c t)) ops"
| "ht_run t (HtRemove conn cid # ops) =
     (case circ_ht_remove conn cid t of None \<Rightarrow> None | Some t' \<Rightarrow> ht_run t' ops)"

text \<open>
  The same operations on a map of at most 4096 keys: the first circuit registered for a key
  keeps it, and a new key is dropped when the map is full.
\<close>

definition bounded_insert :: "(u64 \<times> u32 \<Rightarrow> nat option) \<Rightarrow> u64 \<times> u32 \<Rightarrow> nat \<Rightarrow> u64 \<times> u32 \<Rightarrow> nat option" where
  "bounded_insert m k c =
    (if fst k = 0 \<or> snd k = 0 \<or> m k \<noteq> None \<or> CIRC_HT_SIZE \<le> card (dom m) then m else m(k \<mapsto> c))"

fun map_step :: "(u64 \<times> u32 \<Rightarrow> nat option) \<Rightarrow> ht_op \<Rightarrow> u64 \<times> u32 \<Rightarrow> nat option" where
  "map_step m (HtInsert conn cid c) = bounded_insert m (conn, cid) c"
| "map_step m (HtRemove conn cid) = m((conn, cid) := None)"

lemma inj_keys:
  assumes "ht_inv t"
  shows "inj_on (\<lambda>s. he_key (the (t ! s))) {s. s < CIRC_HT_SIZE \<and> t ! s \<noteq> None}"
proof (rule inj_onI)
  fix s s' assume s: "s \<in> {s. s < CIRC_HT_SIZE \<and> t ! s \<noteq> None}" "s' \<in> {s. s < CIRC_HT_SIZE \<and> t ! s \<noteq> None}"
    and eq: "he_key (the (t ! s)) = he_key (the (t ! s'))"
  then obtain e e' where "t ! s = Some e" "t ! s' = Some e'" by auto
  moreover have "circ_table.uniq t" using assms by (simp add: ht_inv_def circ_table.inv_def)
  ultimately show "s = s'" using s eq unfolding circ_table.uniq_def by auto
qed

lemma dom_ht_abs:
  assumes "ht_inv t"
  shows "dom (ht_abs t) = (\<lambda>s. he_key (the (t ! s))) ` {s. s < CIRC_HT_SIZE \<and> t ! s \<noteq> None}"
proof
  note len = ht_inv_length [OF assms]
  show "dom (ht_abs t) \<subseteq> (\<lambda>s. he_key (the (t ! s))) ` {s. s < CIRC_HT_SIZE \<and> t ! s \<noteq> None}"
  proof
    fix k assume "k \<in> dom (ht_abs t)"
    then obtain e where e: "Some e \<in> set t" "he_key e = k" using ht_abs_entry [OF assms] by blast
    then obtain s where "s < CIRC_HT_SIZE" "t ! s = Some e" using len by (auto simp: in_set_conv_nth)
    with e(2) show "k \<in> (\<lambda>s. he_key (the (t ! s))) ` {s. s < CIRC_HT_SIZE \<and> t ! s \<noteq> None}" by force
  qed
  show "(\<lambda>s. he_key (the (t ! s))) ` {s. s < CIRC_HT_SIZE \<and> t ! s \<noteq> None} \<subseteq> dom (ht_abs t)"
  proof
    fix k assume "k \<in> (\<lambda>s. he_key (the (t ! s))) ` {s. s < CIRC_HT_SIZE \<and> t ! s \<noteq> None}"
    then obtain s e where s: "s < CIRC_HT_SIZE" "t ! s = Some e" "k = he_key e" by auto
    then have "Some e \<in> set t" using len nth_mem [of s t] by simp
    with ht_entry_abs [OF assms] s(3) show "k \<in> dom (ht_abs t)" by auto
  qed
qed

lemma card_below_iff: "card {s. s < N \<and> P s} < N \<longleftrightarrow> (\<exists>s < N. \<not> P s)" for N :: nat
proof (cases "\<exists>s < N. \<not> P s")
  case True
  then have "{s. s < N \<and> P s} \<subset> {..<N}" by blast
  from psubset_card_mono [OF _ this] True show ?thesis by simp
next
  case False
  then have "{s. s < N \<and> P s} = {..<N}" by blast
  with False show ?thesis by simp
qed

lemma ht_room_card:
  assumes "ht_inv t"
  shows "ht_room t \<longleftrightarrow> card (dom (ht_abs t)) < CIRC_HT_SIZE"
  unfolding dom_ht_abs [OF assms] card_image [OF inj_keys [OF assms]] card_below_iff
    ht_room_nth [OF ht_inv_length [OF assms]] not_not ..

lemma ht_insert_any:
  assumes "ht_inv t"
  shows "ht_inv (snd (circ_ht_insert conn cid c t)) \<and>
    ht_abs (snd (circ_ht_insert conn cid c t)) = bounded_insert (ht_abs t) (conn, cid) c"
proof -
  consider "conn = 0 \<or> cid = 0" | c' where "conn \<noteq> 0" "cid \<noteq> 0" "ht_abs t (conn, cid) = Some c'"
    | "conn \<noteq> 0" "cid \<noteq> 0" "ht_abs t (conn, cid) = None" "ht_room t"
    | "conn \<noteq> 0" "cid \<noteq> 0" "ht_abs t (conn, cid) = None" "\<not> ht_room t" by fastforce
  then show ?thesis
  proof cases
    case 1
    then show ?thesis using assms by (auto simp: circ_ht_insert_def bounded_insert_def)
  next
    case 2
    then show ?thesis using assms ht_insert_present [OF assms 2] by (simp add: bounded_insert_def)
  next
    case 3
    then show ?thesis using ht_insert [OF assms 3] ht_room_card [OF assms] by (simp add: bounded_insert_def)
  next
    case 4
    then show ?thesis using assms ht_insert_full [OF assms 4(4)] ht_room_card [OF assms] by (simp add: bounded_insert_def)
  qed
qed

lemma ht_run_refines:
  assumes "ht_inv t"
  shows "\<exists>t'. ht_run t ops = Some t' \<and> ht_inv t' \<and> ht_abs t' = foldl map_step (ht_abs t) ops"
  using assms
proof (induction ops arbitrary: t)
  case (Cons op ops)
  have "\<exists>t1. ht_run t (op # ops) = ht_run t1 ops \<and> ht_inv t1 \<and> ht_abs t1 = map_step (ht_abs t) op"
  proof (cases op)
    case (HtInsert conn cid c)
    with ht_insert_any [OF Cons.prems, of conn cid c] show ?thesis by auto
  next
    case (HtRemove conn cid)
    with ht_remove [OF Cons.prems, of conn cid] show ?thesis by auto
  qed
  then obtain t1 where "ht_run t (op # ops) = ht_run t1 ops" "ht_inv t1" "ht_abs t1 = map_step (ht_abs t) op" by blast
  with Cons.IH [of t1] show ?case by simp
qed simp

section \<open>Properties\<close>

text \<open>
  C7. The circuit hash table is a map of at most 4096 keys. After any sequence of insertions
  and removals, also on a full table, the re-insertion loop of every removal has ended, and a
  lookup finds exactly what the map has: the circuit first registered for the connection and
  id and not removed since.
\<close>

theorem circ_ht_is_map:
  "\<exists>t. ht_run (replicate CIRC_HT_SIZE None) ops = Some t \<and>
    (\<forall>conn cid. circ_ht_lookup conn cid t = foldl map_step Map.empty ops (conn, cid))"
proof -
  have e: "ht_abs (replicate CIRC_HT_SIZE None) = Map.empty"
    using ht_abs_entry [OF ht_inv_empty] by (fastforce simp: fun_eq_iff)
  from ht_run_refines [OF ht_inv_empty, of ops] obtain t where
    "ht_run (replicate CIRC_HT_SIZE None) ops = Some t" "ht_abs t = foldl map_step Map.empty ops"
    unfolding e by auto
  then show ?thesis by (auto simp: ht_abs_def fun_eq_iff)
qed

end
