(* ===== verification/CircuitPool.thy ===== *)
theory CircuitPool
  imports CircuitTable Cell "HOL-Library.Monad_Syntax"
begin

text \<open>
  Circuit lifetime (\<open>src/src/circuit.c\<close>): the tracking array, the hash table, the deferred close
  queue, time-outs and the out-of-memory killer. Memory is a function from circuit pointers
  (numbers) to records; \<open>cp_freed\<close> lists the pointers that have been passed to \<open>free\<close>, so that
  a pointer in that list is dangling. Calls into other modules, none of which changes the pool,
  are recorded in order in \<open>cp_trace\<close>. What the functions read from outside the pool is in the
  record \<open>circ_env\<close>: whether a connection is open and whether a circuit is a conflux leg may
  depend on the calls made so far.
\<close>

section \<open>State\<close>

definition MOOR_CIRCUIT_HOPS :: nat where "MOOR_CIRCUIT_HOPS = 3"
definition MOOR_MAX_STREAMS :: nat where "MOOR_MAX_STREAMS = 64"
definition MOOR_CIRCUIT_TIMEOUT :: u64 where "MOOR_CIRCUIT_TIMEOUT = 60"
definition MOOR_CIRCUIT_ROTATE_SECS :: u64 where "MOOR_CIRCUIT_ROTATE_SECS = 600"
definition MOOR_HS_CIRCUIT_MAX_AGE :: u64 where "MOOR_HS_CIRCUIT_MAX_AGE = 3600"
definition MOOR_RELAY_CIRCUIT_MAX_AGE :: u64 where "MOOR_RELAY_CIRCUIT_MAX_AGE = 86400"
definition MOOR_OOM_HIGH_WATER :: nat where "MOOR_OOM_HIGH_WATER = 8192"
definition MOOR_OOM_IDLE_SECS :: u64 where "MOOR_OOM_IDLE_SECS = 60"
definition MOOR_CC_PATH_ONION :: u8 where "MOOR_CC_PATH_ONION = 1"

definition DESTROY_CONNECTFAILED :: u8 where "DESTROY_CONNECTFAILED = 3"
definition DESTROY_FINISHED :: u8 where "DESTROY_FINISHED = 7"

record pool_circ =
  pc_circuit_id :: u32
  pc_marked_for_close :: u16
  pc_marked_for_close_reason :: u8
  pc_num_hops :: nat
  pc_conn :: u64
  pc_chan :: bool
  pc_streams :: "(u16 \<times> int) list"
  pc_next_stream_id :: u16
  pc_is_client :: bool
  pc_created_at :: u64
  pc_prev_conn :: u64
  pc_prev_circuit_id :: u32
  pc_next_conn :: u64
  pc_next_circuit_id :: u32
  pc_p_chan :: bool
  pc_n_chan :: bool
  pc_cc_path_type :: u8
  pc_pq_kem_pending :: bool
  pc_extend_pending :: bool
  pc_relay_early_count :: u8
  pc_last_cell_time :: u64
  pc_intro_service_pk :: bytes
  pc_rp_partner :: "nat option"
  pc_build_ctx :: "bool option"
  pc_relay_peer_ipv4 :: u32

text \<open>Calls into other modules, named after the function called.\<close>

datatype circ_effect =
    Send_cell u64 moor_cell
  | Socks5_invalidate nat | Hs_invalidate nat | Hs_event_invalidate nat
  | Queue_clear nat | Queue_flush nat u8
  | Mux_detach nat | Conflux_leg_failed nat | Rp_cookies_invalidate nat
  | Exit_fds_cleanup nat | Ip_circ_release u32 | Build_ctx_free nat | Keys_wiped nat
  | Close_fd int | Mix_flush u64 u32 | Notify_circ u32 string
  | Queue_cell nat moor_cell u8 | Mux_attach nat u32 | Event_add u64 | Conn_drop u64 | Extend_worker nat

record circ_env =
  env_conn_open :: "circ_effect list \<Rightarrow> u64 \<Rightarrow> bool"
  env_conflux_leg :: "circ_effect list \<Rightarrow> nat \<Rightarrow> bool"
  env_grow :: "nat list \<Rightarrow> bool"
  env_mix_enabled :: bool
  env_worker :: bool
  env_now :: u64

text \<open>
  \<open>env_grow xs\<close>: the array that holds \<open>xs\<close> has room or can be reallocated. \<open>env_worker\<close> is
  \<open>moor_is_worker()\<close>, \<open>env_now\<close> is \<open>time(NULL)\<close>.
\<close>

record circ_pool =
  cp_mem :: "nat \<Rightarrow> pool_circ"
  cp_circuits :: "nat list"
  cp_pending :: "nat list"
  cp_ht :: circ_ht
  cp_refcount :: "u64 \<Rightarrow> nat"
  cp_freed :: "nat list"
  cp_init_done :: bool
  cp_stat_created :: u64
  cp_stat_destroyed :: u64
  cp_stat_active :: u32
  cp_trace :: "circ_effect list"

definition zero_circ :: pool_circ where
  "zero_circ = \<lparr> pc_circuit_id = 0, pc_marked_for_close = 0, pc_marked_for_close_reason = 0,
    pc_num_hops = 0, pc_conn = 0, pc_chan = False, pc_streams = replicate MOOR_MAX_STREAMS (0, 0),
    pc_next_stream_id = 0, pc_is_client = False, pc_created_at = 0, pc_prev_conn = 0,
    pc_prev_circuit_id = 0, pc_next_conn = 0, pc_next_circuit_id = 0, pc_p_chan = False,
    pc_n_chan = False, pc_cc_path_type = 0, pc_pq_kem_pending = False, pc_extend_pending = False, pc_relay_early_count = 0,
    pc_last_cell_time = 0, pc_intro_service_pk = replicate 32 0,
    pc_rp_partner = None, pc_build_ctx = None, pc_relay_peer_ipv4 = 0 \<rparr>"

definition set_circ :: "nat \<Rightarrow> pool_circ \<Rightarrow> circ_pool \<Rightarrow> circ_pool" where
  "set_circ c v p = p\<lparr>cp_mem := (cp_mem p)(c := v)\<rparr>"

definition emit :: "circ_effect list \<Rightarrow> circ_pool \<Rightarrow> circ_pool" where
  "emit es p = p\<lparr>cp_trace := cp_trace p @ es\<rparr>"

section \<open>Registration\<close>

definition circ_register_unlocked :: "nat \<Rightarrow> circ_pool \<Rightarrow> circ_pool" where
  "circ_register_unlocked c p =
    (let r = cp_mem p c in
     if pc_circuit_id r = 0 then p
     else let t1 = (if pc_conn r \<noteq> 0 then snd (circ_ht_insert (pc_conn r) (pc_circuit_id r) c (cp_ht p)) else cp_ht p);
              t2 = (if pc_prev_conn r \<noteq> 0 then snd (circ_ht_insert (pc_prev_conn r) (pc_prev_circuit_id r) c t1) else t1);
              t3 = (if pc_next_conn r \<noteq> 0 then snd (circ_ht_insert (pc_next_conn r) (pc_next_circuit_id r) c t2) else t2)
          in p\<lparr>cp_ht := t3\<rparr>)"

text \<open>\<open>None\<close> if a re-insertion loop of the hash table does not end.\<close>

definition circ_unregister_unlocked :: "nat \<Rightarrow> circ_pool \<Rightarrow> circ_pool option" where
  "circ_unregister_unlocked c p =
    (let r = cp_mem p c in
     if pc_circuit_id r = 0 then Some p
     else do {
       t1 \<leftarrow> (if pc_conn r \<noteq> 0 then circ_ht_remove (pc_conn r) (pc_circuit_id r) (cp_ht p) else Some (cp_ht p));
       t2 \<leftarrow> (if pc_prev_conn r \<noteq> 0 then circ_ht_remove (pc_prev_conn r) (pc_prev_circuit_id r) t1 else Some t1);
       t3 \<leftarrow> (if pc_next_conn r \<noteq> 0 then circ_ht_remove (pc_next_conn r) (pc_next_circuit_id r) t2 else Some t2);
       Some (p\<lparr>cp_ht := t3\<rparr>)
     })"

section \<open>The tracking array and the pending list\<close>

definition circ_array_add :: "circ_env \<Rightarrow> nat \<Rightarrow> circ_pool \<Rightarrow> bool \<times> circ_pool" where
  "circ_array_add env c p = (if env_grow env (cp_circuits p) then (True, p\<lparr>cp_circuits := cp_circuits p @ [c]\<rparr>) else (False, p))"

text \<open>The removed entry is overwritten by the last one.\<close>

definition circ_array_remove :: "nat \<Rightarrow> circ_pool \<Rightarrow> circ_pool" where
  "circ_array_remove c p =
    (case first_index (\<lambda>x. x = c) (cp_circuits p) of
       None \<Rightarrow> p
     | Some i \<Rightarrow> p\<lparr>cp_circuits := butlast ((cp_circuits p)[i := last (cp_circuits p)])\<rparr>)"

definition pending_close_add :: "circ_env \<Rightarrow> nat \<Rightarrow> circ_pool \<Rightarrow> circ_pool" where
  "pending_close_add env c p = (if env_grow env (cp_pending p) then p\<lparr>cp_pending := cp_pending p @ [c]\<rparr> else p)"

definition moor_circuit_init_pool :: "circ_pool \<Rightarrow> circ_pool" where
  "moor_circuit_init_pool p = p\<lparr>cp_ht := replicate CIRC_HT_SIZE None, cp_pending := [], cp_init_done := True\<rparr>"

definition circ_init_fields :: "u64 \<Rightarrow> pool_circ \<Rightarrow> pool_circ" where
  "circ_init_fields now r = r\<lparr>pc_next_stream_id := 1, pc_created_at := now, pc_last_cell_time := now,
     pc_streams := map (\<lambda>(sid, fd). (sid, -1)) (pc_streams r)\<rparr>"

section \<open>Marking for close\<close>

text \<open>The flags; a build in progress is cancelled.\<close>

definition mark_flags :: "nat \<Rightarrow> u8 \<Rightarrow> int \<Rightarrow> circ_pool \<Rightarrow> circ_pool" where
  "mark_flags c reason line p =
    (let r = cp_mem p c
     in set_circ c (r\<lparr>pc_marked_for_close := word_of_int (if line > 0 then line else 1), pc_marked_for_close_reason := reason,
          pc_build_ctx := map_option (\<lambda>_. True) (pc_build_ctx r)\<rparr>) p)"

text \<open>
  The partner link is cleared on both sides before the partner is marked, so the recursive
  call of \<open>moor_circuit_mark_for_close_\<close> finds no partner; \<open>mark_single\<close> is that call.
\<close>

definition mark_single :: "circ_env \<Rightarrow> nat \<Rightarrow> u8 \<Rightarrow> int \<Rightarrow> circ_pool \<Rightarrow> circ_pool" where
  "mark_single env c reason line p =
    (if pc_circuit_id (cp_mem p c) = 0 \<or> pc_marked_for_close (cp_mem p c) \<noteq> 0 then p
     else pending_close_add env c (mark_flags c reason line p))"

definition moor_circuit_mark_for_close :: "circ_env \<Rightarrow> nat \<Rightarrow> u8 \<Rightarrow> int \<Rightarrow> circ_pool \<Rightarrow> circ_pool" where
  "moor_circuit_mark_for_close env c reason line p =
    (if pc_circuit_id (cp_mem p c) = 0 \<or> pc_marked_for_close (cp_mem p c) \<noteq> 0 then p
     else let p1 = mark_flags c reason line p;
              p2 = (case pc_rp_partner (cp_mem p1 c) of
                  None \<Rightarrow> p1
                | Some partner \<Rightarrow>
                    let q1 = set_circ partner ((cp_mem p1 partner)\<lparr>pc_rp_partner := None\<rparr>) p1;
                        q2 = set_circ c ((cp_mem q1 c)\<lparr>pc_rp_partner := None\<rparr>) q1
                    in if pc_circuit_id (cp_mem q2 partner) \<noteq> 0 \<and> pc_marked_for_close (cp_mem q2 partner) = 0
                       then mark_single env partner reason line q2 else q2)
          in pending_close_add env c p2)"

definition moor_circuit_destroy :: "circ_env \<Rightarrow> nat \<Rightarrow> circ_pool \<Rightarrow> bool \<times> circ_pool" where
  "moor_circuit_destroy env c p =
    (if pc_circuit_id (cp_mem p c) = 0 then (False, p)
     else if env_worker env
     then let p1 = set_circ c ((cp_mem p c)\<lparr>pc_circuit_id := 0\<rparr>) (emit [Queue_clear c, Queue_clear c, Keys_wiped c] p)
          in (True, p1\<lparr>cp_freed := cp_freed p1 @ [c]\<rparr>)
     else (True, moor_circuit_mark_for_close env c DESTROY_FINISHED 2162 p))"

section \<open>Cleaning up\<close>

definition drop_ref :: "u64 \<Rightarrow> circ_pool \<Rightarrow> circ_pool" where
  "drop_ref conn p =
    (if conn \<noteq> 0 \<and> cp_refcount p conn > 0 then p\<lparr>cp_refcount := (cp_refcount p)(conn := cp_refcount p conn - 1)\<rparr> else p)"

definition unlink_partner :: "nat \<Rightarrow> circ_pool \<Rightarrow> circ_pool" where
  "unlink_partner c p =
    (case pc_rp_partner (cp_mem p c) of None \<Rightarrow> p
     | Some q \<Rightarrow> let p' = set_circ q ((cp_mem p q)\<lparr>pc_rp_partner := None\<rparr>) p
                 in set_circ c ((cp_mem p' c)\<lparr>pc_rp_partner := None\<rparr>) p')"

definition circ_cleanup_unlocked :: "circ_env \<Rightarrow> nat \<Rightarrow> circ_pool \<Rightarrow> circ_pool option" where
  "circ_cleanup_unlocked env c p0 = do {
     p1 \<leftarrow> circ_unregister_unlocked c p0;
     let p2 = emit [Socks5_invalidate c, Hs_invalidate c, Hs_event_invalidate c, Queue_clear c, Queue_clear c] p1;
     let p3 = p2\<lparr>cp_stat_destroyed := cp_stat_destroyed p2 + 1,
                cp_stat_active := (if cp_stat_active p2 > 0 then cp_stat_active p2 - 1 else cp_stat_active p2)\<rparr>;
     let r = cp_mem p3 c;
     let p4 = drop_ref (pc_next_conn r) (drop_ref (pc_prev_conn r) (drop_ref (pc_conn r) p3));
     let p5 = emit ((if pc_chan r then [Mux_detach c] else []) @ (if pc_p_chan r then [Mux_detach c] else []) @
                (if pc_n_chan r then [Mux_detach c] else [])) p4;
     let p6 = emit (if env_conflux_leg env (cp_trace p5) c then [Conflux_leg_failed c] else []) p5;
     let p7 = unlink_partner c p6;
     let p8 = emit ([Rp_cookies_invalidate c, Exit_fds_cleanup c, Ip_circ_release (pc_relay_peer_ipv4 r)] @
                (if pc_build_ctx r \<noteq> None then [Build_ctx_free c] else []) @ [Keys_wiped c]) p7;
     Some (set_circ c ((cp_mem p8 c)\<lparr>pc_build_ctx := None, pc_circuit_id := 0, pc_marked_for_close := 0\<rparr>) p8)
   }"

definition circ_release_unlocked :: "nat \<Rightarrow> circ_pool \<Rightarrow> circ_pool" where
  "circ_release_unlocked c p = (let p' = circ_array_remove c p in p'\<lparr>cp_freed := cp_freed p' @ [c]\<rparr>)"

definition moor_circuit_free :: "circ_env \<Rightarrow> nat \<Rightarrow> circ_pool \<Rightarrow> circ_pool option" where
  "moor_circuit_free env c p =
    (if env_worker env
     then let p1 = set_circ c zero_circ (emit [Queue_clear c, Queue_clear c, Keys_wiped c] p)
          in Some (p1\<lparr>cp_freed := cp_freed p1 @ [c]\<rparr>)
     else if pc_marked_for_close (cp_mem p c) \<noteq> 0 then Some p
     else map_option (circ_release_unlocked c) (circ_cleanup_unlocked env c p))"

text \<open>A DESTROY cell goes out when the connection is there and open.\<close>

definition send_destroy :: "circ_env \<Rightarrow> u64 \<Rightarrow> moor_cell \<Rightarrow> circ_pool \<Rightarrow> circ_pool" where
  "send_destroy env conn cell p =
    (if conn \<noteq> 0 \<and> env_conn_open env (cp_trace p) conn then emit [Send_cell conn cell] p else p)"

definition destroy_cell :: "u32 \<Rightarrow> u8 \<Rightarrow> moor_cell" where
  "destroy_cell cid reason = (let d = moor_cell_destroy cid in d\<lparr>c_payload := (c_payload d)[0 := reason]\<rparr>)"

definition close_streams :: "nat \<Rightarrow> circ_pool \<Rightarrow> circ_pool" where
  "close_streams c p =
    (let r = cp_mem p c
     in set_circ c (r\<lparr>pc_streams := map (\<lambda>(sid, fd). (sid, if fd \<ge> 0 then -1 else fd)) (pc_streams r)\<rparr>)
          (emit (map (\<lambda>(sid, fd). Close_fd fd) (filter (\<lambda>(sid, fd). fd \<ge> 0) (pc_streams r))) p))"

text \<open>Phases 0 to 5 for one circuit of the batch.\<close>

definition close_one :: "circ_env \<Rightarrow> nat \<Rightarrow> circ_pool \<Rightarrow> circ_pool option" where
  "close_one env c p =
    (let r = cp_mem p c in
     if pc_circuit_id r = 0 \<and> pc_marked_for_close r = 0 then Some p
     else let reason = pc_marked_for_close_reason r;
              p1 = emit [Queue_flush c 0, Queue_flush c 1] p;
              p2 = send_destroy env (pc_prev_conn r) (destroy_cell (pc_prev_circuit_id r) reason) p1;
              p3 = send_destroy env (pc_next_conn r) (destroy_cell (pc_next_circuit_id r) reason) p2;
              p4 = send_destroy env (pc_conn r) (destroy_cell (pc_circuit_id r) reason) p3;
              p5 = close_streams c (emit [Exit_fds_cleanup c] p4);
              p6 = emit ((if env_mix_enabled env
                       then (if pc_next_conn r \<noteq> 0 then [Mix_flush (pc_next_conn r) (pc_next_circuit_id r)] else []) @
                            (if pc_prev_conn r \<noteq> 0 then [Mix_flush (pc_prev_conn r) (pc_prev_circuit_id r)] else [])
                       else []) @ [Notify_circ (pc_circuit_id r) ''CLOSED'', Rp_cookies_invalidate c, Socks5_invalidate c]) p5
          in circ_cleanup_unlocked env c p6)"

fun close_batch :: "circ_env \<Rightarrow> nat list \<Rightarrow> circ_pool \<Rightarrow> circ_pool option" where
  "close_batch env [] p = Some p"
| "close_batch env (c # cs) p = do { p' \<leftarrow> close_one env c p; close_batch env cs p' }"

fun release_batch :: "nat list \<Rightarrow> circ_pool \<Rightarrow> circ_pool" where
  "release_batch [] p = p"
| "release_batch (c # cs) p =
     release_batch cs (if pc_circuit_id (cp_mem p c) = 0 then circ_release_unlocked c p else p)"

text \<open>\<open>alloc_ok\<close>: the array for the snapshot of the pending list can be allocated.\<close>

definition moor_circuit_close_all_marked :: "circ_env \<Rightarrow> bool \<Rightarrow> circ_pool \<Rightarrow> circ_pool option" where
  "moor_circuit_close_all_marked env alloc_ok p =
    (if cp_pending p = [] then Some p
     else if \<not> alloc_ok then Some (p\<lparr>cp_pending := []\<rparr>)
     else do {
       p' \<leftarrow> close_batch env (cp_pending p) (p\<lparr>cp_pending := []\<rparr>);
       Some (release_batch (cp_pending p) p')
     })"

section \<open>Connections going away\<close>

definition uses_conn :: "u64 \<Rightarrow> pool_circ \<Rightarrow> bool" where
  "uses_conn conn r \<longleftrightarrow> pc_conn r = conn \<or> pc_prev_conn r = conn \<or> pc_next_conn r = conn"

definition moor_circuit_mark_all_for_conn :: "circ_env \<Rightarrow> u64 \<Rightarrow> u8 \<Rightarrow> circ_pool \<Rightarrow> circ_pool" where
  "moor_circuit_mark_all_for_conn env conn reason p =
    (if conn = 0 then p
     else fold (\<lambda>c q. if pc_circuit_id (cp_mem q c) = 0 \<or> pc_marked_for_close (cp_mem q c) \<noteq> 0 then q
                 else if uses_conn conn (cp_mem q c) then moor_circuit_mark_for_close env c reason 634 q else q)
            (cp_circuits p) p)"

definition nullify_field ::
    "u64 \<Rightarrow> (pool_circ \<Rightarrow> u64) \<Rightarrow> (pool_circ \<Rightarrow> u32) \<Rightarrow> (pool_circ \<Rightarrow> pool_circ) \<Rightarrow> nat \<Rightarrow> circ_pool \<Rightarrow> circ_pool option" where
  "nullify_field conn field cid clear c p =
    (if field (cp_mem p c) = conn
     then do {
       t \<leftarrow> circ_ht_remove conn (cid (cp_mem p c)) (cp_ht p);
       let p1 = drop_ref conn (p\<lparr>cp_ht := t\<rparr>);
       Some (set_circ c (clear (cp_mem p1 c)) p1)
     }
     else Some p)"

fun circ_nullify_conn_unlocked :: "u64 \<Rightarrow> nat list \<Rightarrow> circ_pool \<Rightarrow> circ_pool option" where
  "circ_nullify_conn_unlocked conn [] p = Some p"
| "circ_nullify_conn_unlocked conn (c # cs) p =
     (if pc_circuit_id (cp_mem p c) = 0 then circ_nullify_conn_unlocked conn cs p
      else do {
        p1 \<leftarrow> nullify_field conn pc_conn pc_circuit_id (pc_conn_update (\<lambda>_. 0)) c p;
        p2 \<leftarrow> nullify_field conn pc_next_conn pc_next_circuit_id (pc_next_conn_update (\<lambda>_. 0)) c p1;
        p3 \<leftarrow> nullify_field conn pc_prev_conn pc_prev_circuit_id (pc_prev_conn_update (\<lambda>_. 0)) c p2;
        circ_nullify_conn_unlocked conn cs p3
      })"

definition moor_circuit_nullify_conn :: "u64 \<Rightarrow> circ_pool \<Rightarrow> circ_pool option" where
  "moor_circuit_nullify_conn conn p = (if conn = 0 then Some p else circ_nullify_conn_unlocked conn (cp_circuits p) p)"

definition moor_circuit_conn_in_use :: "u64 \<Rightarrow> circ_pool \<Rightarrow> bool" where
  "moor_circuit_conn_in_use conn p \<longleftrightarrow> conn \<noteq> 0 \<and>
    (\<exists>c \<in> set (cp_circuits p). pc_circuit_id (cp_mem p c) \<noteq> 0 \<and> uses_conn conn (cp_mem p c))"

definition moor_circuit_teardown_for_conn :: "circ_env \<Rightarrow> u64 \<Rightarrow> circ_pool \<Rightarrow> circ_pool option" where
  "moor_circuit_teardown_for_conn env conn p =
    moor_circuit_nullify_conn conn (moor_circuit_mark_all_for_conn env conn DESTROY_CONNECTFAILED p)"

section \<open>Lookups\<close>

definition find_scan_hit :: "u32 \<Rightarrow> u64 \<Rightarrow> pool_circ \<Rightarrow> bool" where
  "find_scan_hit cid conn r \<longleftrightarrow> pc_marked_for_close r = 0 \<and>
    (pc_circuit_id r = cid \<and> (uses_conn conn r \<or> pc_is_client r \<and> pc_conn r = conn) \<or>
     pc_prev_circuit_id r = cid \<and> pc_prev_conn r = conn \<or>
     pc_next_circuit_id r = cid \<and> pc_next_conn r = conn)"

definition moor_circuit_find :: "u32 \<Rightarrow> u64 \<Rightarrow> circ_pool \<Rightarrow> nat option" where
  "moor_circuit_find cid conn p =
    (case circ_ht_lookup conn cid (cp_ht p) of
       Some c \<Rightarrow> if pc_marked_for_close (cp_mem p c) = 0 then Some c
                 else List.find (\<lambda>c. find_scan_hit cid conn (cp_mem p c)) (cp_circuits p)
     | None \<Rightarrow> List.find (\<lambda>c. find_scan_hit cid conn (cp_mem p c)) (cp_circuits p))"

definition moor_circuit_find_by_intro_pk :: "circ_env \<Rightarrow> nat option \<Rightarrow> bytes option \<Rightarrow> circ_pool \<Rightarrow> nat option" where
  "moor_circuit_find_by_intro_pk env exclude blinded_pk p =
    List.find (\<lambda>c. let r = cp_mem p c in pc_circuit_id r \<noteq> 0 \<and> Some c \<noteq> exclude \<and> pc_intro_service_pk r ! 0 \<noteq> 0 \<and>
        pc_prev_conn r \<noteq> 0 \<and> env_conn_open env (cp_trace p) (pc_prev_conn r) \<and>
        (case blinded_pk of None \<Rightarrow> True | Some pk \<Rightarrow> pc_intro_service_pk r = pk))
      (cp_circuits p)"

text \<open>\<open>randoms\<close> are the values the random generator gives, one per attempt.\<close>

definition moor_circuit_gen_id :: "u32 list \<Rightarrow> u32" where
  "moor_circuit_gen_id randoms = (case List.find (\<lambda>i. i \<noteq> 0) (take 16 randoms) of Some i \<Rightarrow> i | None \<Rightarrow> 1)"

section \<open>Memory pressure and time-outs\<close>

text \<open>Pass 1 of the killer: idle relay circuits, in the order of the array.\<close>

fun oom_pass1 :: "circ_env \<Rightarrow> int \<Rightarrow> nat list \<Rightarrow> int \<Rightarrow> circ_pool \<Rightarrow> int \<times> circ_pool" where
  "oom_pass1 env target [] killed p = (killed, p)"
| "oom_pass1 env target (c # cs) killed p =
     (if \<not> killed < target then (killed, p)
      else let r = cp_mem p c; now = env_now env in
        if pc_circuit_id r = 0 \<or> pc_is_client r \<or> now < pc_last_cell_time r \<or> now - pc_last_cell_time r < MOOR_OOM_IDLE_SECS
        then oom_pass1 env target cs killed p
        else let p1 = emit [Socks5_invalidate c] p in
          if pc_circuit_id (cp_mem p1 c) \<noteq> pc_circuit_id r then oom_pass1 env target cs killed p1
          else oom_pass1 env target cs (killed + 1) (snd (moor_circuit_destroy env c p1)))"

definition oldest_relay_circ :: "circ_pool \<Rightarrow> nat option" where
  "oldest_relay_circ p =
    fold (\<lambda>c best. let r = cp_mem p c in
        if pc_circuit_id r = 0 \<or> pc_is_client r then best
        else case best of None \<Rightarrow> Some c
             | Some b \<Rightarrow> if pc_created_at r < pc_created_at (cp_mem p b) then Some c else best)
      (cp_circuits p) None"

text \<open>
  Pass 2: the oldest relay circuit, until the target is reached. The recursion is on the
  number still to kill.
\<close>

fun oom_pass2 :: "circ_env \<Rightarrow> nat \<Rightarrow> int \<Rightarrow> circ_pool \<Rightarrow> int \<times> circ_pool" where
  "oom_pass2 env 0 killed p = (killed, p)"
| "oom_pass2 env (Suc n) killed p =
     (case oldest_relay_circ p of
        None \<Rightarrow> (killed, p)
      | Some c \<Rightarrow>
          let r = cp_mem p c;
              p1 = emit [Socks5_invalidate c] (send_destroy env (pc_conn r) (moor_cell_destroy (pc_circuit_id r)) p)
          in oom_pass2 env n (killed + 1) (snd (moor_circuit_destroy env c p1)))"

definition moor_circuit_oom_kill :: "circ_env \<Rightarrow> int \<Rightarrow> circ_pool \<Rightarrow> int \<times> circ_pool" where
  "moor_circuit_oom_kill env target_free p =
    (if \<not> cp_init_done p \<or> target_free \<le> 0 then (0, p)
     else let (killed, p1) = oom_pass1 env target_free (cp_circuits p) 0 p
          in oom_pass2 env (nat (target_free - killed)) killed p1)"

text \<open>
  \<open>calloc1\<close> and \<open>calloc2\<close> tell whether the first and the second allocation succeed; the new
  circuit has the address \<open>addr\<close>, which is no longer a freed one.
\<close>

definition moor_circuit_alloc :: "circ_env \<Rightarrow> bool \<Rightarrow> bool \<Rightarrow> nat \<Rightarrow> circ_pool \<Rightarrow> nat option \<times> circ_pool" where
  "moor_circuit_alloc env calloc1 calloc2 addr p =
    (let p0 = (if cp_init_done p then p else moor_circuit_init_pool p);
         p1 = (if calloc1 then p0 else snd (moor_circuit_oom_kill env 1 p0))
     in if \<not> calloc1 \<and> \<not> calloc2 then (None, p1)
        else let p2 = set_circ addr (circ_init_fields (env_now env) zero_circ)
                   (p1\<lparr>cp_freed := filter (\<lambda>x. x \<noteq> addr) (cp_freed p1)\<rparr>)
             in if env_worker env then (Some addr, p2)
                else let (ok, p3) = circ_array_add env addr p2
                     in if ok
                        then (Some addr, p3\<lparr>cp_stat_created := cp_stat_created p3 + 1, cp_stat_active := cp_stat_active p3 + 1\<rparr>)
                        else (None, p3\<lparr>cp_freed := cp_freed p3 @ [addr]\<rparr>))"

definition moor_circuit_adopt :: "circ_env \<Rightarrow> nat \<Rightarrow> circ_pool \<Rightarrow> circ_pool" where
  "moor_circuit_adopt env c p =
    (let p1 = (if c \<in> set (cp_circuits p) then p
               else let q = snd (circ_array_add env c p)
                    in q\<lparr>cp_stat_created := cp_stat_created q + 1, cp_stat_active := cp_stat_active q + 1\<rparr>)
     in circ_register_unlocked c p1)"

text \<open>What the time-out pass does with one circuit of its snapshot: pointer, age, id.\<close>

definition check_timeout_one :: "circ_env \<Rightarrow> nat \<times> u64 \<times> u32 \<Rightarrow> circ_pool \<Rightarrow> circ_pool" where
  "check_timeout_one env = (\<lambda>(c, age, sid) p.
    let r = cp_mem p c;
        destroy = (\<lambda>q. snd (moor_circuit_destroy env c q));
        teardown = (\<lambda>q. destroy (emit [Socks5_invalidate c] (send_destroy env (pc_conn r) (moor_cell_destroy (pc_circuit_id r)) q)));
        rotate_age = (if pc_cc_path_type r = MOOR_CC_PATH_ONION then MOOR_HS_CIRCUIT_MAX_AGE else MOOR_CIRCUIT_ROTATE_SECS)
    in if pc_circuit_id r = 0 \<or> pc_circuit_id r \<noteq> sid then p
       else if pc_is_client r \<and> pc_num_hops r < MOOR_CIRCUIT_HOPS \<and> age > MOOR_CIRCUIT_TIMEOUT then teardown p
       else if \<not> pc_is_client r \<and> pc_pq_kem_pending r \<and> age > MOOR_CIRCUIT_TIMEOUT
       then destroy (set_circ c (r\<lparr>pc_pq_kem_pending := False\<rparr>) p)
       else if \<not> pc_is_client r \<and> pc_extend_pending r \<and> age > MOOR_CIRCUIT_TIMEOUT then destroy p
       else if \<not> pc_is_client r \<and> age > MOOR_RELAY_CIRCUIT_MAX_AGE then destroy p
       else if pc_is_client r \<and> age > rotate_age
       then if \<exists>s \<in> set (pc_streams r). fst s \<noteq> 0
            then if age > rotate_age * 2 then teardown p else p
            else teardown p
       else p)"

definition moor_circuit_active_count :: "circ_pool \<Rightarrow> nat" where
  "moor_circuit_active_count p = (if cp_init_done p then length (cp_circuits p) else 0)"

text \<open>\<open>snap_ok\<close>: the three arrays of the snapshot can be allocated.\<close>

definition moor_circuit_check_timeouts :: "circ_env \<Rightarrow> bool \<Rightarrow> circ_pool \<Rightarrow> circ_pool" where
  "moor_circuit_check_timeouts env snap_ok p =
    (if \<not> cp_init_done p \<or> cp_circuits p = [] \<or> \<not> snap_ok then p
     else let now = env_now env;
              snap = map (\<lambda>c. (c, now - pc_created_at (cp_mem p c), pc_circuit_id (cp_mem p c)))
                       (filter (\<lambda>c. pc_circuit_id (cp_mem p c) \<noteq> 0 \<and> \<not> now < pc_created_at (cp_mem p c)) (cp_circuits p));
              p1 = fold (check_timeout_one env) snap p;
              active = moor_circuit_active_count p1
          in if active > MOOR_OOM_HIGH_WATER
             then snd (moor_circuit_oom_kill env (int (active - MOOR_OOM_HIGH_WATER)) p1)
             else p1)"

section \<open>The invariant\<close>

text \<open>
  The keys under which a circuit may be in the table, and the invariant: the arrays hold no
  freed pointer, marked circuits have no partner, partner links are symmetric, and the table
  points only to tracked circuits, under one of their own keys.
\<close>

definition circ_keys :: "pool_circ \<Rightarrow> (u64 \<times> u32) set" where
  "circ_keys r = (if pc_circuit_id r = 0 then {} else
    {k \<in> {(pc_conn r, pc_circuit_id r), (pc_prev_conn r, pc_prev_circuit_id r), (pc_next_conn r, pc_next_circuit_id r)}.
      fst k \<noteq> 0 \<and> snd k \<noteq> 0})"

definition partners_ok :: "(nat \<Rightarrow> pool_circ) \<Rightarrow> nat list \<Rightarrow> bool" where
  "partners_ok mem cs \<longleftrightarrow>
    (\<forall>c \<in> set cs. \<forall>d. pc_rp_partner (mem c) = Some d \<longrightarrow>
       d \<in> set cs \<and> d \<noteq> c \<and> pc_rp_partner (mem d) = Some c \<and> pc_marked_for_close (mem c) = 0)"

definition pending_ok :: "(nat \<Rightarrow> pool_circ) \<Rightarrow> nat list \<Rightarrow> nat list \<Rightarrow> bool" where
  "pending_ok mem cs pend \<longleftrightarrow> distinct pend \<and>
    (\<forall>c \<in> set pend. c \<in> set cs \<and> pc_circuit_id (mem c) \<noteq> 0 \<and> pc_marked_for_close (mem c) \<noteq> 0)"

definition table_ok :: "(nat \<Rightarrow> pool_circ) \<Rightarrow> nat list \<Rightarrow> circ_ht \<Rightarrow> bool" where
  "table_ok mem cs t \<longleftrightarrow> ht_inv t \<and> (\<forall>k c. ht_abs t k = Some c \<longrightarrow> c \<in> set cs \<and> k \<in> circ_keys (mem c))"

definition arrays_ok :: "nat list \<Rightarrow> nat list \<Rightarrow> bool" where
  "arrays_ok cs freed \<longleftrightarrow> distinct cs \<and> set cs \<inter> set freed = {}"

definition pool_inv :: "circ_pool \<Rightarrow> bool" where
  "pool_inv p \<longleftrightarrow> arrays_ok (cp_circuits p) (cp_freed p) \<and> pending_ok (cp_mem p) (cp_circuits p) (cp_pending p) \<and>
    partners_ok (cp_mem p) (cp_circuits p) \<and> table_ok (cp_mem p) (cp_circuits p) (cp_ht p)"

lemmas pool_parts = arrays_ok_def pending_ok_def partners_ok_def table_ok_def

lemma set_circ_simps [simp]:
  "cp_mem (set_circ c v p) = (cp_mem p)(c := v)" "cp_circuits (set_circ c v p) = cp_circuits p"
  "cp_pending (set_circ c v p) = cp_pending p" "cp_ht (set_circ c v p) = cp_ht p"
  "cp_freed (set_circ c v p) = cp_freed p" "cp_trace (set_circ c v p) = cp_trace p"
  "cp_init_done (set_circ c v p) = cp_init_done p"
  by (simp_all add: set_circ_def)

lemma emit_simps [simp]:
  "cp_mem (emit es p) = cp_mem p" "cp_circuits (emit es p) = cp_circuits p" "cp_pending (emit es p) = cp_pending p"
  "cp_ht (emit es p) = cp_ht p" "cp_freed (emit es p) = cp_freed p" "cp_trace (emit es p) = cp_trace p @ es"
  "cp_init_done (emit es p) = cp_init_done p"
  by (simp_all add: emit_def)

lemma drop_ref_simps [simp]:
  "cp_mem (drop_ref n p) = cp_mem p" "cp_circuits (drop_ref n p) = cp_circuits p" "cp_pending (drop_ref n p) = cp_pending p"
  "cp_ht (drop_ref n p) = cp_ht p" "cp_freed (drop_ref n p) = cp_freed p" "cp_trace (drop_ref n p) = cp_trace p"
  "cp_init_done (drop_ref n p) = cp_init_done p"
  by (simp_all add: drop_ref_def)

lemma send_destroy_simps [simp]:
  "cp_mem (send_destroy env n d p) = cp_mem p" "cp_circuits (send_destroy env n d p) = cp_circuits p"
  "cp_pending (send_destroy env n d p) = cp_pending p" "cp_ht (send_destroy env n d p) = cp_ht p"
  "cp_freed (send_destroy env n d p) = cp_freed p" "cp_init_done (send_destroy env n d p) = cp_init_done p"
  by (simp_all add: send_destroy_def)

lemma pending_close_add_simps [simp]:
  "cp_mem (pending_close_add env c p) = cp_mem p" "cp_circuits (pending_close_add env c p) = cp_circuits p"
  "cp_ht (pending_close_add env c p) = cp_ht p" "cp_freed (pending_close_add env c p) = cp_freed p"
  "cp_trace (pending_close_add env c p) = cp_trace p" "cp_init_done (pending_close_add env c p) = cp_init_done p"
  by (simp_all add: pending_close_add_def)

text \<open>Updates that keep ids, marks, partners and links keep the invariant.\<close>

definition same_links :: "pool_circ \<Rightarrow> pool_circ \<Rightarrow> bool" where
  "same_links r r' \<longleftrightarrow> pc_circuit_id r' = pc_circuit_id r \<and> pc_marked_for_close r' = pc_marked_for_close r \<and>
    pc_rp_partner r' = pc_rp_partner r \<and> circ_keys r' = circ_keys r"

lemma pool_inv_same:
  assumes "pool_inv p" and "\<And>c. same_links (cp_mem p c) (cp_mem p' c)" and "cp_circuits p' = cp_circuits p"
    and "cp_pending p' = cp_pending p" and "cp_ht p' = cp_ht p" and "cp_freed p' = cp_freed p"
  shows "pool_inv p'"
proof -
  have e: "pc_circuit_id (cp_mem p' c) = pc_circuit_id (cp_mem p c)"
    "pc_marked_for_close (cp_mem p' c) = pc_marked_for_close (cp_mem p c)"
    "pc_rp_partner (cp_mem p' c) = pc_rp_partner (cp_mem p c)" "circ_keys (cp_mem p' c) = circ_keys (cp_mem p c)" for c
    using assms(2) [of c] by (simp_all add: same_links_def)
  show ?thesis using assms(1) unfolding pool_inv_def pool_parts e assms(3-6) .
qed

lemma pool_inv_partnerD:
  assumes "pool_inv p" and "c \<in> set (cp_circuits p)" and "pc_rp_partner (cp_mem p c) = Some d"
  shows "d \<in> set (cp_circuits p)" "d \<noteq> c" "pc_rp_partner (cp_mem p d) = Some c" "pc_marked_for_close (cp_mem p c) = 0"
  using assms unfolding pool_inv_def partners_ok_def by blast+

lemma pool_inv_pendingD:
  assumes "pool_inv p" and "c \<in> set (cp_pending p)"
  shows "c \<in> set (cp_circuits p)" "pc_circuit_id (cp_mem p c) \<noteq> 0" "pc_marked_for_close (cp_mem p c) \<noteq> 0"
  using assms unfolding pool_inv_def pending_ok_def by blast+

lemma pool_inv_tableD:
  assumes "pool_inv p" and "ht_abs (cp_ht p) k = Some c"
  shows "c \<in> set (cp_circuits p)" "k \<in> circ_keys (cp_mem p c)"
  using assms unfolding pool_inv_def table_ok_def by blast+

lemma pool_invD:
  assumes "pool_inv p"
  shows "ht_inv (cp_ht p)" "distinct (cp_circuits p)" "set (cp_circuits p) \<inter> set (cp_freed p) = {}" "distinct (cp_pending p)"
  using assms unfolding pool_inv_def pool_parts by blast+

lemma pool_inv_emit [simp]: "pool_inv (emit es p) \<longleftrightarrow> pool_inv p"
  by (simp add: pool_inv_def)

lemma pool_inv_send_destroy [simp]: "pool_inv (send_destroy env n d p) \<longleftrightarrow> pool_inv p"
  by (simp add: pool_inv_def)

section \<open>Marking keeps the invariant\<close>

lemma circ_keys_simps [simp]:
  "circ_keys (r\<lparr>pc_rp_partner := x\<rparr>) = circ_keys r" "circ_keys (r\<lparr>pc_marked_for_close := m\<rparr>) = circ_keys r"
  "circ_keys (r\<lparr>pc_marked_for_close_reason := y\<rparr>) = circ_keys r" "circ_keys (r\<lparr>pc_build_ctx := b\<rparr>) = circ_keys r"
  "circ_keys (r\<lparr>pc_streams := z\<rparr>) = circ_keys r" "circ_keys (r\<lparr>pc_pq_kem_pending := q\<rparr>) = circ_keys r"
  by (simp_all add: circ_keys_def)

text \<open>The circuits a mark sets: the circuit itself and its partner.\<close>

definition mark_target :: "circ_pool \<Rightarrow> nat \<Rightarrow> nat \<Rightarrow> bool" where
  "mark_target p c x \<longleftrightarrow> pc_circuit_id (cp_mem p x) \<noteq> 0 \<and> pc_marked_for_close (cp_mem p x) = 0 \<and>
    (x = c \<or> pc_rp_partner (cp_mem p c) = Some x \<and> pc_circuit_id (cp_mem p c) \<noteq> 0 \<and> pc_marked_for_close (cp_mem p c) = 0)"

definition line_ok :: "int \<Rightarrow> bool" where
  "line_ok line \<longleftrightarrow> 0 < line \<and> line < 65536"

lemma line_ok_nonzero: "line_ok line \<Longrightarrow> (word_of_int line :: u16) \<noteq> 0"
  by (simp add: line_ok_def word_of_int_eq_0_iff zdvd_not_zless)

lemma line_ok_examples [simp]: "line_ok 2162" "line_ok 634"
  by (simp_all add: line_ok_def)

lemma mark_frame [simp]:
  "cp_circuits (moor_circuit_mark_for_close env c reason line p) = cp_circuits p"
  "cp_ht (moor_circuit_mark_for_close env c reason line p) = cp_ht p"
  "cp_freed (moor_circuit_mark_for_close env c reason line p) = cp_freed p"
  "cp_init_done (moor_circuit_mark_for_close env c reason line p) = cp_init_done p"
  by (auto simp: moor_circuit_mark_for_close_def mark_single_def mark_flags_def Let_def split: option.splits)

lemma mark_mem:
  assumes "pool_inv p" and "c \<in> set (cp_circuits p)" and "line_ok line"
  shows "circ_keys (cp_mem (moor_circuit_mark_for_close env c reason line p) x) = circ_keys (cp_mem p x)"
    and "pc_circuit_id (cp_mem (moor_circuit_mark_for_close env c reason line p) x) = pc_circuit_id (cp_mem p x)"
    and "pc_marked_for_close (cp_mem (moor_circuit_mark_for_close env c reason line p) x) =
      (if mark_target p c x then word_of_int line else pc_marked_for_close (cp_mem p x))"
    and "pc_rp_partner (cp_mem (moor_circuit_mark_for_close env c reason line p) x) =
      (if pc_circuit_id (cp_mem p c) \<noteq> 0 \<and> pc_marked_for_close (cp_mem p c) = 0 \<and>
          (x = c \<or> pc_rp_partner (cp_mem p c) = Some x) then None else pc_rp_partner (cp_mem p x))"
proof -
  have "pc_rp_partner (cp_mem p c) \<noteq> Some c" using pool_inv_partnerD [OF assms(1,2)] by blast
  then show "circ_keys (cp_mem (moor_circuit_mark_for_close env c reason line p) x) = circ_keys (cp_mem p x)"
    and "pc_circuit_id (cp_mem (moor_circuit_mark_for_close env c reason line p) x) = pc_circuit_id (cp_mem p x)"
    and "pc_marked_for_close (cp_mem (moor_circuit_mark_for_close env c reason line p) x) =
      (if mark_target p c x then word_of_int line else pc_marked_for_close (cp_mem p x))"
    and "pc_rp_partner (cp_mem (moor_circuit_mark_for_close env c reason line p) x) =
      (if pc_circuit_id (cp_mem p c) \<noteq> 0 \<and> pc_marked_for_close (cp_mem p c) = 0 \<and>
          (x = c \<or> pc_rp_partner (cp_mem p c) = Some x) then None else pc_rp_partner (cp_mem p x))"
    using assms(3) by (auto simp: moor_circuit_mark_for_close_def mark_single_def mark_flags_def mark_target_def
        line_ok_def Let_def split: option.splits)
qed

lemma mark_pending:
  assumes "pool_inv p" and "c \<in> set (cp_circuits p)"
  shows "\<exists>ys. cp_pending (moor_circuit_mark_for_close env c reason line p) = cp_pending p @ ys \<and>
    distinct ys \<and> (\<forall>y \<in> set ys. mark_target p c y)"
proof -
  have "pc_rp_partner (cp_mem p c) \<noteq> Some c" using pool_inv_partnerD [OF assms(1,2)] by blast
  then show ?thesis
    by (auto simp: moor_circuit_mark_for_close_def mark_single_def mark_flags_def mark_target_def pending_close_add_def
        Let_def split: option.splits)
qed

lemma mark_target_tracked:
  "pool_inv p \<Longrightarrow> c \<in> set (cp_circuits p) \<Longrightarrow> mark_target p c x \<Longrightarrow> x \<in> set (cp_circuits p)"
  using pool_inv_partnerD(1) unfolding mark_target_def by blast

lemma mark_inv:
  assumes inv: "pool_inv p" and c: "c \<in> set (cp_circuits p)" and l: "line_ok line"
  shows "pool_inv (moor_circuit_mark_for_close env c reason line p)"
proof -
  note mm = mark_mem [OF inv c l, of env reason]
  obtain ys where ys: "cp_pending (moor_circuit_mark_for_close env c reason line p) = cp_pending p @ ys"
    "distinct ys" "\<forall>y \<in> set ys. mark_target p c y" using mark_pending [OF inv c] by blast
  have "pending_ok (cp_mem (moor_circuit_mark_for_close env c reason line p)) (cp_circuits p) (cp_pending p @ ys)"
    unfolding pending_ok_def
  proof (intro conjI ballI)
    have "set (cp_pending p) \<inter> set ys = {}" using pool_inv_pendingD(3) [OF inv] ys(3) by (auto simp: mark_target_def)
    then show "distinct (cp_pending p @ ys)" using pool_invD(4) [OF inv] ys(2) by simp
    fix x assume "x \<in> set (cp_pending p @ ys)"
    then consider "x \<in> set (cp_pending p)" | "mark_target p c x" using ys(3) by auto
    note x = this
    from x show "x \<in> set (cp_circuits p)" by cases (use pool_inv_pendingD [OF inv] mark_target_tracked [OF inv c] in blast)+
    from x show "pc_circuit_id (cp_mem (moor_circuit_mark_for_close env c reason line p) x) \<noteq> 0"
      unfolding mm by cases (use pool_inv_pendingD [OF inv] in \<open>auto simp: mark_target_def\<close>)
    from x show "pc_marked_for_close (cp_mem (moor_circuit_mark_for_close env c reason line p) x) \<noteq> 0"
      unfolding mm by cases (use pool_inv_pendingD [OF inv] line_ok_nonzero [OF l] in auto)
  qed
  moreover have "partners_ok (cp_mem (moor_circuit_mark_for_close env c reason line p)) (cp_circuits p)"
    unfolding partners_ok_def mm
  proof (intro ballI allI impI)
    let ?cut = "\<lambda>x. pc_circuit_id (cp_mem p c) \<noteq> 0 \<and> pc_marked_for_close (cp_mem p c) = 0 \<and>
        (x = c \<or> pc_rp_partner (cp_mem p c) = Some x)"
    fix x d assume x: "x \<in> set (cp_circuits p)" and "(if ?cut x then None else pc_rp_partner (cp_mem p x)) = Some d"
    then have nc: "\<not> ?cut x" and d: "pc_rp_partner (cp_mem p x) = Some d" by (auto split: if_splits)
    note pd = pool_inv_partnerD [OF inv x d]
    have "\<not> ?cut d" using nc pd d pool_inv_partnerD(3) [OF inv c] by auto
    moreover have "\<not> mark_target p c x" using nc unfolding mark_target_def by blast
    ultimately show "d \<in> set (cp_circuits p) \<and> d \<noteq> x \<and> (if ?cut d then None else pc_rp_partner (cp_mem p d)) = Some x \<and>
        (if mark_target p c x then word_of_int line else pc_marked_for_close (cp_mem p x)) = 0"
      using pd by simp
  qed
  ultimately show ?thesis using inv ys(1) by (simp add: pool_inv_def table_ok_def mm)
qed

lemma destroy_inv:
  assumes "pool_inv p" and "c \<in> set (cp_circuits p)" and "\<not> env_worker env"
  shows "pool_inv (snd (moor_circuit_destroy env c p))"
  using assms mark_inv by (simp add: moor_circuit_destroy_def)

lemma destroy_frame:
  assumes "\<not> env_worker env"
  shows "cp_circuits (snd (moor_circuit_destroy env c p)) = cp_circuits p"
    "cp_freed (snd (moor_circuit_destroy env c p)) = cp_freed p"
    "cp_init_done (snd (moor_circuit_destroy env c p)) = cp_init_done p"
  using assms by (simp_all add: moor_circuit_destroy_def)

text \<open>The recursive call of the source is the call itself on a circuit without a partner.\<close>

lemma mark_single_is_mark:
  "pc_rp_partner (cp_mem p c) = None \<Longrightarrow> mark_single env c reason line p = moor_circuit_mark_for_close env c reason line p"
  by (simp add: mark_single_def moor_circuit_mark_for_close_def mark_flags_def Let_def)
section \<open>Registering and unregistering\<close>

definition table_sub :: "circ_ht \<Rightarrow> circ_ht \<Rightarrow> bool" where
  "table_sub t t' \<longleftrightarrow> ht_inv t' \<and> (\<forall>k c. ht_abs t' k = Some c \<longrightarrow> ht_abs t k = Some c)"

lemma remove_if:
  assumes "ht_inv t"
  shows "\<exists>t'. (if conn \<noteq> 0 then circ_ht_remove conn cid t else Some t) = Some t' \<and> table_sub t t' \<and> ht_abs t' (conn, cid) = None"
proof (cases "conn = 0")
  case True
  then show ?thesis using assms by (simp add: table_sub_def ht_abs_table)
next
  case False
  with ht_remove [OF assms, of conn cid] show ?thesis by (auto simp: table_sub_def split: if_splits)
qed

lemma table_sub_trans: "table_sub t t1 \<Longrightarrow> table_sub t1 t2 \<Longrightarrow> table_sub t t2"
  by (auto simp: table_sub_def)

lemma table_sub_None: "table_sub t t' \<Longrightarrow> ht_abs t k = None \<Longrightarrow> ht_abs t' k = None"
  unfolding table_sub_def by (metis option.distinct(1) option.exhaust)

text \<open>After unregistering, no entry is under a key of the circuit.\<close>

lemma unregister_table:
  assumes "ht_inv (cp_ht p)"
  shows "\<exists>t. circ_unregister_unlocked c p = Some (p\<lparr>cp_ht := t\<rparr>) \<and> table_sub (cp_ht p) t \<and>
    (\<forall>k \<in> circ_keys (cp_mem p c). ht_abs t k = None)"
proof (cases "pc_circuit_id (cp_mem p c) = 0")
  case True
  then show ?thesis using assms by (intro exI [of _ "cp_ht p"]) (simp add: circ_unregister_unlocked_def table_sub_def circ_keys_def)
next
  case False
  let ?r = "cp_mem p c"
  from remove_if [OF assms] obtain t1 where
    t1: "(if pc_conn ?r \<noteq> 0 then circ_ht_remove (pc_conn ?r) (pc_circuit_id ?r) (cp_ht p) else Some (cp_ht p)) = Some t1"
    "table_sub (cp_ht p) t1" "ht_abs t1 (pc_conn ?r, pc_circuit_id ?r) = None" by blast
  then have "ht_inv t1" by (simp add: table_sub_def)
  from remove_if [OF this] obtain t2 where
    t2: "(if pc_prev_conn ?r \<noteq> 0 then circ_ht_remove (pc_prev_conn ?r) (pc_prev_circuit_id ?r) t1 else Some t1) = Some t2"
    "table_sub t1 t2" "ht_abs t2 (pc_prev_conn ?r, pc_prev_circuit_id ?r) = None" by blast
  then have "ht_inv t2" by (simp add: table_sub_def)
  from remove_if [OF this] obtain t3 where
    t3: "(if pc_next_conn ?r \<noteq> 0 then circ_ht_remove (pc_next_conn ?r) (pc_next_circuit_id ?r) t2 else Some t2) = Some t3"
    "table_sub t2 t3" "ht_abs t3 (pc_next_conn ?r, pc_next_circuit_id ?r) = None" by blast
  have "circ_unregister_unlocked c p = Some (p\<lparr>cp_ht := t3\<rparr>)"
    unfolding circ_unregister_unlocked_def Let_def if_not_P [OF False] t1(1) Option.bind.bind_lunit t2(1) t3(1) ..
  moreover have "table_sub (cp_ht p) t3" using t1(2) t2(2) t3(2) table_sub_trans by blast
  moreover have "\<forall>k \<in> circ_keys ?r. ht_abs t3 k = None"
    using t1(3) t2(2,3) t3(2,3) table_sub_None by (auto simp: circ_keys_def split: if_splits)
  ultimately show ?thesis by blast
qed

lemma insert_if_table:
  assumes "table_ok mem cs t" and "c \<in> set cs" and "conn \<noteq> 0 \<Longrightarrow> cid \<noteq> 0 \<Longrightarrow> (conn, cid) \<in> circ_keys (mem c)"
  shows "table_ok mem cs (if conn \<noteq> 0 then snd (circ_ht_insert conn cid c t) else t)"
proof (cases "conn = 0")
  case False
  have "ht_inv t" using assms(1) by (simp add: table_ok_def)
  note h = ht_insert_any [OF this, of conn cid c]
  have "k \<in> circ_keys (mem d) \<and> d \<in> set cs" if "ht_abs (snd (circ_ht_insert conn cid c t)) k = Some d" for k d
    using that h assms unfolding table_ok_def bounded_insert_def
    by (auto split: if_splits simp del: split_paired_All)
  with h False show ?thesis by (simp add: table_ok_def)
qed (use assms in simp)

lemma register_inv:
  assumes "pool_inv p" and "c \<in> set (cp_circuits p)"
  shows "pool_inv (circ_register_unlocked c p)"
proof (cases "pc_circuit_id (cp_mem p c) = 0")
  case False
  have t: "table_ok (cp_mem p) (cp_circuits p) (cp_ht p)" using assms(1) by (simp add: pool_inv_def)
  note t1 = insert_if_table [OF t assms(2), of "pc_conn (cp_mem p c)" "pc_circuit_id (cp_mem p c)"]
  note t2 = insert_if_table [OF t1 assms(2), of "pc_prev_conn (cp_mem p c)" "pc_prev_circuit_id (cp_mem p c)"]
  note t3 = insert_if_table [OF t2 assms(2), of "pc_next_conn (cp_mem p c)" "pc_next_circuit_id (cp_mem p c)"]
  show ?thesis using assms(1) t3 False
    by (simp add: pool_inv_def circ_register_unlocked_def Let_def circ_keys_def)
qed (use assms in \<open>simp add: circ_register_unlocked_def\<close>)

section \<open>Cleaning up keeps the invariant\<close>

text \<open>A circuit that nothing refers to any more but the tracking array.\<close>

definition detached :: "circ_pool \<Rightarrow> nat \<Rightarrow> bool" where
  "detached p c \<longleftrightarrow> pc_circuit_id (cp_mem p c) = 0 \<and> pc_marked_for_close (cp_mem p c) = 0 \<and>
    pc_rp_partner (cp_mem p c) = None \<and> c \<notin> set (cp_pending p)"

lemma unlink_frame [simp]:
  "cp_circuits (unlink_partner c p) = cp_circuits p" "cp_pending (unlink_partner c p) = cp_pending p"
  "cp_ht (unlink_partner c p) = cp_ht p" "cp_freed (unlink_partner c p) = cp_freed p"
  "cp_init_done (unlink_partner c p) = cp_init_done p"
  by (simp_all add: unlink_partner_def Let_def split: option.split)

lemma unlink_mem:
  "circ_keys (cp_mem (unlink_partner c p) x) = circ_keys (cp_mem p x)"
  "pc_circuit_id (cp_mem (unlink_partner c p) x) = pc_circuit_id (cp_mem p x)"
  "pc_marked_for_close (cp_mem (unlink_partner c p) x) = pc_marked_for_close (cp_mem p x)"
  "pc_rp_partner (cp_mem (unlink_partner c p) x) =
    (if x = c \<or> pc_rp_partner (cp_mem p c) = Some x then None else pc_rp_partner (cp_mem p x))"
  by (simp_all add: unlink_partner_def Let_def split: option.split)

text \<open>What cleaning up does to the parts of the pool the invariant is about.\<close>

definition cleaned :: "nat \<Rightarrow> circ_pool \<Rightarrow> circ_pool \<Rightarrow> bool" where
  "cleaned c p p' \<longleftrightarrow> cp_circuits p' = cp_circuits p \<and> cp_pending p' = cp_pending p \<and> cp_freed p' = cp_freed p \<and>
    cp_init_done p' = cp_init_done p \<and>
    table_sub (cp_ht p) (cp_ht p') \<and> (\<forall>k \<in> circ_keys (cp_mem p c). ht_abs (cp_ht p') k = None) \<and>
    (\<forall>x. x \<noteq> c \<longrightarrow> circ_keys (cp_mem p' x) = circ_keys (cp_mem p x) \<and> pc_circuit_id (cp_mem p' x) = pc_circuit_id (cp_mem p x) \<and>
       pc_marked_for_close (cp_mem p' x) = pc_marked_for_close (cp_mem p x) \<and>
       pc_rp_partner (cp_mem p' x) = (if pc_rp_partner (cp_mem p c) = Some x then None else pc_rp_partner (cp_mem p x))) \<and>
    pc_circuit_id (cp_mem p' c) = 0 \<and> pc_marked_for_close (cp_mem p' c) = 0 \<and> pc_rp_partner (cp_mem p' c) = None"

lemma cleanup_cleaned:
  assumes "ht_inv (cp_ht p)"
  shows "\<exists>p'. circ_cleanup_unlocked env c p = Some p' \<and> cleaned c p p'"
proof -
  from unregister_table [OF assms, of c] obtain t where
    t: "circ_unregister_unlocked c p = Some (p\<lparr>cp_ht := t\<rparr>)" "table_sub (cp_ht p) t"
    "\<forall>k \<in> circ_keys (cp_mem p c). ht_abs t k = None" by blast
  then show ?thesis by (simp add: circ_cleanup_unlocked_def cleaned_def Let_def unlink_mem)
qed

lemma cleaned_inv:
  assumes inv: "pool_inv p" and cl: "cleaned c p p'" and c: "c \<in> set (cp_circuits p)" and np: "c \<notin> set (cp_pending p)"
  shows "pool_inv p' \<and> detached p' c"
proof -
  have e: "cp_circuits p' = cp_circuits p" "cp_pending p' = cp_pending p" "cp_freed p' = cp_freed p"
    and tb: "table_sub (cp_ht p) (cp_ht p')" "\<And>k. k \<in> circ_keys (cp_mem p c) \<Longrightarrow> ht_abs (cp_ht p') k = None"
    and k: "\<And>x. x \<noteq> c \<Longrightarrow> circ_keys (cp_mem p' x) = circ_keys (cp_mem p x)"
      "\<And>x. x \<noteq> c \<Longrightarrow> pc_circuit_id (cp_mem p' x) = pc_circuit_id (cp_mem p x)"
      "\<And>x. x \<noteq> c \<Longrightarrow> pc_marked_for_close (cp_mem p' x) = pc_marked_for_close (cp_mem p x)"
      "\<And>x. x \<noteq> c \<Longrightarrow> pc_rp_partner (cp_mem p' x) = (if pc_rp_partner (cp_mem p c) = Some x then None else pc_rp_partner (cp_mem p x))"
    and d: "pc_circuit_id (cp_mem p' c) = 0" "pc_marked_for_close (cp_mem p' c) = 0" "pc_rp_partner (cp_mem p' c) = None"
    using cl unfolding cleaned_def by blast+
  have "pending_ok (cp_mem p') (cp_circuits p) (cp_pending p)"
    unfolding pending_ok_def using pool_inv_pendingD [OF inv] pool_invD(4) [OF inv] np k(2,3) by metis
  moreover have "partners_ok (cp_mem p') (cp_circuits p)"
    unfolding partners_ok_def
  proof (intro ballI allI impI)
    fix x y assume x: "x \<in> set (cp_circuits p)" and y: "pc_rp_partner (cp_mem p' x) = Some y"
    have xc: "x \<noteq> c" using y d(3) by auto
    with y k(4) have o: "pc_rp_partner (cp_mem p x) = Some y" "pc_rp_partner (cp_mem p c) \<noteq> Some x"
      by (auto split: if_splits)
    note pd = pool_inv_partnerD [OF inv x o(1)]
    have yc: "y \<noteq> c" using pd(3) o(2) by blast
    have "pc_rp_partner (cp_mem p c) \<noteq> Some y" using pool_inv_partnerD(3) [OF inv c] pd(3) xc by auto
    then show "y \<in> set (cp_circuits p) \<and> y \<noteq> x \<and> pc_rp_partner (cp_mem p' y) = Some x \<and> pc_marked_for_close (cp_mem p' x) = 0"
      using pd k(3) [OF xc] k(4) [OF yc] by simp
  qed
  moreover have "table_ok (cp_mem p') (cp_circuits p) (cp_ht p')"
    unfolding table_ok_def
  proof (intro conjI allI impI)
    show "ht_inv (cp_ht p')" using tb(1) by (simp add: table_sub_def)
    fix q x assume q: "ht_abs (cp_ht p') q = Some x"
    then have "ht_abs (cp_ht p) q = Some x" using tb(1) unfolding table_sub_def by blast
    note td = pool_inv_tableD [OF inv this]
    have "x \<noteq> c" using td(2) tb(2) q by (metis option.distinct(1))
    then show "x \<in> set (cp_circuits p)" "q \<in> circ_keys (cp_mem p' x)" using td k(1) by auto
  qed
  ultimately show ?thesis using inv np d by (simp add: pool_inv_def detached_def e)
qed

section \<open>Releasing\<close>

lemma array_remove_set:
  assumes "distinct (cp_circuits p)"
  shows "set (cp_circuits (circ_array_remove c p)) = set (cp_circuits p) - {c}"
    and "distinct (cp_circuits (circ_array_remove c p))"
proof -
  let ?xs = "cp_circuits p"
  have "set (cp_circuits (circ_array_remove c p)) = set ?xs - {c} \<and> distinct (cp_circuits (circ_array_remove c p))"
  proof (cases "first_index (\<lambda>x. x = c) ?xs")
    case None
    then have "c \<notin> set ?xs" by (auto simp: first_index_None)
    with None show ?thesis using assms by (auto simp: circ_array_remove_def)
  next
    case (Some i)
    then have i: "i < length ?xs" "?xs ! i = c" by (auto dest: first_index_Some)
    then have ne: "?xs \<noteq> []" by auto
    obtain ys z where yz: "?xs = ys @ [z]" using ne by (metis append_butlast_last_id)
    show ?thesis
    proof (cases "i = length ys")
      case True
      then show ?thesis using Some assms i by (auto simp: circ_array_remove_def yz)
    next
      case False
      then have il: "i < length ys" using i(1) yz by simp
      have ic: "ys ! i = c" using i(2) il by (simp add: yz nth_append)
      have "set (ys[i := z]) = insert z (set ys - {c})"
        using assms il ic set_update_distinct [of ys i z] by (simp add: yz)
      moreover have "distinct (ys[i := z])" using assms by (simp add: yz distinct_list_update)
      moreover have "z \<noteq> c" using assms il ic nth_mem [OF il] by (auto simp: yz)
      ultimately show ?thesis using Some il by (auto simp: circ_array_remove_def yz list_update_append)
    qed
  qed
  then show "set (cp_circuits (circ_array_remove c p)) = set ?xs - {c}" "distinct (cp_circuits (circ_array_remove c p))"
    by simp_all
qed

lemma array_remove_frame [simp]:
  "cp_mem (circ_array_remove c p) = cp_mem p" "cp_pending (circ_array_remove c p) = cp_pending p"
  "cp_ht (circ_array_remove c p) = cp_ht p" "cp_freed (circ_array_remove c p) = cp_freed p"
  "cp_trace (circ_array_remove c p) = cp_trace p" "cp_init_done (circ_array_remove c p) = cp_init_done p"
  by (simp_all add: circ_array_remove_def split: option.split)

lemma release_simps [simp]:
  "cp_mem (circ_release_unlocked c p) = cp_mem p" "cp_pending (circ_release_unlocked c p) = cp_pending p"
  "cp_ht (circ_release_unlocked c p) = cp_ht p" "cp_freed (circ_release_unlocked c p) = cp_freed p @ [c]"
  "cp_trace (circ_release_unlocked c p) = cp_trace p" "cp_init_done (circ_release_unlocked c p) = cp_init_done p"
  "cp_circuits (circ_release_unlocked c p) = cp_circuits (circ_array_remove c p)"
  by (simp_all add: circ_release_unlocked_def Let_def)

lemma release_inv:
  assumes inv: "pool_inv p" and d: "detached p c"
  shows "pool_inv (circ_release_unlocked c p)"
proof -
  note ar = array_remove_set [OF pool_invD(2) [OF inv], of c]
  have np: "c \<notin> set (cp_pending p)" and n: "pc_rp_partner (cp_mem p c) = None" and z: "pc_circuit_id (cp_mem p c) = 0"
    using d by (simp_all add: detached_def)
  have "pc_rp_partner (cp_mem p x) \<noteq> Some c" if "x \<in> set (cp_circuits p)" for x
    using pool_inv_partnerD(3) [OF inv that, of c] n by auto
  then have "partners_ok (cp_mem p) (cp_circuits (circ_array_remove c p))"
    using pool_inv_partnerD [OF inv] unfolding partners_ok_def ar by blast
  moreover have "pending_ok (cp_mem p) (cp_circuits (circ_array_remove c p)) (cp_pending p)"
    using pool_inv_pendingD [OF inv] pool_invD(4) [OF inv] np unfolding pending_ok_def ar by blast
  moreover have "x \<noteq> c" if "ht_abs (cp_ht p) k = Some x" for x k
    using pool_inv_tableD(2) [OF inv that] z by (auto simp: circ_keys_def)
  then have "table_ok (cp_mem p) (cp_circuits (circ_array_remove c p)) (cp_ht p)"
    using pool_inv_tableD [OF inv] pool_invD(1) [OF inv] unfolding table_ok_def ar by blast
  ultimately show ?thesis using pool_invD(3) [OF inv] ar by (auto simp: pool_inv_def arrays_ok_def)
qed

lemma free_inv:
  assumes inv: "pool_inv p" and c: "c \<in> set (cp_circuits p)" and w: "\<not> env_worker env"
  shows "\<exists>p'. moor_circuit_free env c p = Some p' \<and> pool_inv p'"
proof (cases "pc_marked_for_close (cp_mem p c) = 0")
  case True
  from cleanup_cleaned [OF pool_invD(1) [OF inv], of env c] obtain p' where
    p': "circ_cleanup_unlocked env c p = Some p'" "cleaned c p p'" by blast
  have "c \<notin> set (cp_pending p)" using pool_inv_pendingD(3) [OF inv] True by blast
  from cleaned_inv [OF inv p'(2) c this] release_inv [of p' c] p'(1) w True show ?thesis
    by (simp add: moor_circuit_free_def)
qed (use inv w in \<open>simp add: moor_circuit_free_def\<close>)
section \<open>The deferred close\<close>

lemma close_streams_frame [simp]:
  "cp_circuits (close_streams c p) = cp_circuits p" "cp_pending (close_streams c p) = cp_pending p"
  "cp_ht (close_streams c p) = cp_ht p" "cp_freed (close_streams c p) = cp_freed p"
  "cp_init_done (close_streams c p) = cp_init_done p"
  by (simp_all add: close_streams_def Let_def)

lemma close_streams_links: "same_links (cp_mem p x) (cp_mem (close_streams c p) x)"
  by (simp add: close_streams_def same_links_def Let_def)

lemma close_streams_keeps:
  "pc_circuit_id (cp_mem (close_streams c p) x) = pc_circuit_id (cp_mem p x)"
  "pc_marked_for_close (cp_mem (close_streams c p) x) = pc_marked_for_close (cp_mem p x)"
  "pc_rp_partner (cp_mem (close_streams c p) x) = pc_rp_partner (cp_mem p x)"
  "circ_keys (cp_mem (close_streams c p) x) = circ_keys (cp_mem p x)"
  using close_streams_links [of p x c] by (simp_all add: same_links_def)

lemma close_one_cleaned:
  assumes "ht_inv (cp_ht p)" and "pc_marked_for_close (cp_mem p c) \<noteq> 0"
  shows "\<exists>p'. close_one env c p = Some p' \<and> cleaned c p p'"
proof -
  from assms(2) obtain q where q: "close_one env c p = circ_cleanup_unlocked env c q"
    "cp_circuits q = cp_circuits p" "cp_pending q = cp_pending p" "cp_ht q = cp_ht p" "cp_freed q = cp_freed p"
    "cp_init_done q = cp_init_done p" "\<And>x. same_links (cp_mem p x) (cp_mem q x)"
    by (auto simp: close_one_def Let_def same_links_def close_streams_keeps)
  have "ht_inv (cp_ht q)" using assms(1) q(4) by simp
  from cleanup_cleaned [OF this, of env c] obtain p' where p': "circ_cleanup_unlocked env c q = Some p'" "cleaned c q p'" by blast
  have "cleaned c p p'" using p'(2) q(2-7) unfolding cleaned_def same_links_def by simp
  with p'(1) q(1) show ?thesis by simp
qed

lemma close_batch_inv:
  assumes "pool_inv p" and "cp_pending p = []" and "distinct cs"
    and "\<forall>c \<in> set cs. c \<in> set (cp_circuits p) \<and> pc_marked_for_close (cp_mem p c) \<noteq> 0"
  shows "\<exists>p'. close_batch env cs p = Some p' \<and> pool_inv p' \<and> cp_pending p' = [] \<and> cp_circuits p' = cp_circuits p \<and>
    cp_freed p' = cp_freed p \<and> cp_init_done p' = cp_init_done p \<and>
    (\<forall>c. (detached p c \<or> c \<in> set cs) \<longrightarrow> detached p' c) \<and>
    (\<forall>c. c \<notin> set cs \<longrightarrow> pc_marked_for_close (cp_mem p' c) = pc_marked_for_close (cp_mem p c))"
  using assms
proof (induction cs arbitrary: p)
  case (Cons c cs)
  have c: "c \<in> set (cp_circuits p)" "pc_marked_for_close (cp_mem p c) \<noteq> 0" using Cons.prems(4) by simp_all
  from close_one_cleaned [OF pool_invD(1) [OF Cons.prems(1)] c(2)] obtain p1 where
    p1: "close_one env c p = Some p1" "cleaned c p p1" by blast
  have np: "c \<notin> set (cp_pending p)" using Cons.prems(2) by simp
  note ci = cleaned_inv [OF Cons.prems(1) p1(2) c(1) np]
  have e: "cp_pending p1 = []" "cp_circuits p1 = cp_circuits p" "cp_freed p1 = cp_freed p" "cp_init_done p1 = cp_init_done p"
    and o: "\<And>x. x \<noteq> c \<Longrightarrow> pc_marked_for_close (cp_mem p1 x) = pc_marked_for_close (cp_mem p x)"
    and d: "\<And>x. x \<noteq> c \<Longrightarrow> detached p x \<Longrightarrow> detached p1 x"
    using p1(2) Cons.prems(2) by (auto simp: cleaned_def detached_def)
  have "\<forall>x \<in> set cs. x \<in> set (cp_circuits p1) \<and> pc_marked_for_close (cp_mem p1 x) \<noteq> 0"
    using Cons.prems(3,4) o e(2) by (metis distinct.simps(2) list.set_intros(2))
  from Cons.IH [OF conjunct1 [OF ci] e(1) _ this] Cons.prems(3) obtain p' where
    p': "close_batch env cs p1 = Some p'" "pool_inv p'" "cp_pending p' = []" "cp_circuits p' = cp_circuits p1"
    "cp_freed p' = cp_freed p1" "cp_init_done p' = cp_init_done p1"
    "\<And>x. detached p1 x \<or> x \<in> set cs \<Longrightarrow> detached p' x"
    "\<And>x. x \<notin> set cs \<Longrightarrow> pc_marked_for_close (cp_mem p' x) = pc_marked_for_close (cp_mem p1 x)" by auto
  have "\<forall>x. (detached p x \<or> x \<in> set (c # cs)) \<longrightarrow> detached p' x"
    using p'(7) d conjunct2 [OF ci] by (metis set_ConsD)
  moreover have "\<forall>x. x \<notin> set (c # cs) \<longrightarrow> pc_marked_for_close (cp_mem p' x) = pc_marked_for_close (cp_mem p x)"
    using p'(8) o by auto
  ultimately show ?case using p'(1-6) p1(1) e by simp
qed simp

lemma release_batch_inv:
  assumes "pool_inv p" and "\<forall>c \<in> set cs. detached p c" and "distinct cs"
  shows "pool_inv (release_batch cs p) \<and> cp_freed (release_batch cs p) = cp_freed p @ cs \<and>
    set (cp_circuits (release_batch cs p)) = set (cp_circuits p) - set cs \<and>
    cp_mem (release_batch cs p) = cp_mem p \<and> cp_pending (release_batch cs p) = cp_pending p \<and>
    cp_trace (release_batch cs p) = cp_trace p \<and> cp_init_done (release_batch cs p) = cp_init_done p"
  using assms
proof (induction cs arbitrary: p)
  case (Cons c cs)
  have d: "detached p c" using Cons.prems(2) by simp
  then have z: "pc_circuit_id (cp_mem p c) = 0" by (simp add: detached_def)
  have "\<forall>x \<in> set cs. detached (circ_release_unlocked c p) x" using Cons.prems(2) by (simp add: detached_def)
  with Cons.IH [OF release_inv [OF Cons.prems(1) d]] Cons.prems(3) z
    array_remove_set(1) [OF pool_invD(2) [OF Cons.prems(1)], of c]
  show ?case by auto
qed simp

lemma pending_clear_inv: "pool_inv p \<Longrightarrow> pool_inv (p\<lparr>cp_pending := []\<rparr>)"
  by (simp add: pool_inv_def pending_ok_def)

lemma close_all_inv:
  assumes inv: "pool_inv p"
  shows "\<exists>p'. moor_circuit_close_all_marked env alloc_ok p = Some p' \<and> pool_inv p' \<and> cp_pending p' = [] \<and>
    (alloc_ok \<longrightarrow> cp_freed p' = cp_freed p @ cp_pending p \<and> set (cp_circuits p') = set (cp_circuits p) - set (cp_pending p)) \<and>
    (\<not> alloc_ok \<longrightarrow> p' = p\<lparr>cp_pending := []\<rparr>)"
proof -
  consider "cp_pending p = []" | "cp_pending p \<noteq> []" "\<not> alloc_ok" | "cp_pending p \<noteq> []" "alloc_ok" by blast
  then show ?thesis
  proof cases
    case 1
    then show ?thesis using inv by (cases p) (simp add: moor_circuit_close_all_marked_def)
  next
    case 2
    then show ?thesis using pending_clear_inv [OF inv] by (simp add: moor_circuit_close_all_marked_def)
  next
    case 3
    let ?q = "p\<lparr>cp_pending := []\<rparr>"
    have "\<forall>c \<in> set (cp_pending p). c \<in> set (cp_circuits ?q) \<and> pc_marked_for_close (cp_mem ?q c) \<noteq> 0"
      using pool_inv_pendingD [OF inv] by simp
    from close_batch_inv [OF pending_clear_inv [OF inv] _ pool_invD(4) [OF inv] this, of env] obtain p' where
      p': "close_batch env (cp_pending p) ?q = Some p'" "pool_inv p'" "cp_pending p' = []" "cp_circuits p' = cp_circuits p"
      "cp_freed p' = cp_freed p" "\<And>c. c \<in> set (cp_pending p) \<Longrightarrow> detached p' c" by auto
    from release_batch_inv [OF p'(2) _ pool_invD(4) [OF inv]] p' 3 show ?thesis
      by (simp add: moor_circuit_close_all_marked_def)
  qed
qed

section \<open>Connections going away\<close>

text \<open>One link of a circuit is removed from the table and cleared.\<close>

lemma nullify_field_inv:
  assumes inv: "pool_inv p" and c: "c \<in> set (cp_circuits p)"
    and clear: "pc_circuit_id (clear (cp_mem p c)) = pc_circuit_id (cp_mem p c)"
      "pc_marked_for_close (clear (cp_mem p c)) = pc_marked_for_close (cp_mem p c)"
      "pc_rp_partner (clear (cp_mem p c)) = pc_rp_partner (cp_mem p c)"
      "circ_keys (cp_mem p c) - {(conn, cid (cp_mem p c))} \<subseteq> circ_keys (clear (cp_mem p c))"
  shows "\<exists>p'. nullify_field conn field cid clear c p = Some p' \<and> pool_inv p' \<and> cp_circuits p' = cp_circuits p \<and>
    cp_freed p' = cp_freed p \<and> cp_init_done p' = cp_init_done p \<and>
    cp_mem p' = (cp_mem p)(c := if field (cp_mem p c) = conn then clear (cp_mem p c) else cp_mem p c)"
proof (cases "field (cp_mem p c) = conn")
  case True
  let ?k = "(conn, cid (cp_mem p c))"
  from ht_remove [OF pool_invD(1) [OF inv], of conn "cid (cp_mem p c)"] obtain t where
    t: "circ_ht_remove conn (cid (cp_mem p c)) (cp_ht p) = Some t" "ht_inv t" "ht_abs t = (ht_abs (cp_ht p))(?k := None)" by blast
  let ?m = "(cp_mem p)(c := clear (cp_mem p c))"
  have "x \<in> set (cp_circuits p) \<and> k \<in> circ_keys (?m x)" if "ht_abs t k = Some x" for k x
  proof -
    from that t(3) have "ht_abs (cp_ht p) k = Some x" "k \<noteq> ?k" by (auto split: if_splits)
    with pool_inv_tableD [OF inv this(1)] clear(4) show ?thesis by auto
  qed
  then have "table_ok ?m (cp_circuits p) t" using t(2) by (simp add: table_ok_def)
  moreover have "pending_ok ?m (cp_circuits p) (cp_pending p)"
    using pool_inv_pendingD [OF inv] pool_invD(4) [OF inv] clear(1,2) unfolding pending_ok_def by auto
  moreover have "partners_ok ?m (cp_circuits p)"
    using pool_inv_partnerD [OF inv] clear(2,3) unfolding partners_ok_def by (metis (no_types, lifting) fun_upd_apply)
  ultimately show ?thesis using inv True t(1)
    by (simp add: nullify_field_def pool_inv_def Let_def)
qed (use inv in \<open>simp add: nullify_field_def\<close>)

lemma nullify_loop_inv:
  assumes "pool_inv p" and "set cs \<subseteq> set (cp_circuits p)"
  shows "\<exists>p'. circ_nullify_conn_unlocked conn cs p = Some p' \<and> pool_inv p' \<and> cp_circuits p' = cp_circuits p \<and>
    cp_freed p' = cp_freed p \<and> cp_init_done p' = cp_init_done p"
  using assms
proof (induction cs arbitrary: p)
  case (Cons c cs)
  have c: "c \<in> set (cp_circuits p)" using Cons.prems(2) by simp
  show ?case
  proof (cases "pc_circuit_id (cp_mem p c) = 0")
    case True
    then show ?thesis using Cons by simp
  next
    case False
    let ?cl1 = "pc_conn_update (\<lambda>_. 0)" and ?cl2 = "pc_next_conn_update (\<lambda>_. 0)" and ?cl3 = "pc_prev_conn_update (\<lambda>_. 0)"
    have k: "circ_keys r - {(pc_conn r, pc_circuit_id r)} \<subseteq> circ_keys (?cl1 r)"
      "circ_keys r - {(pc_next_conn r, pc_next_circuit_id r)} \<subseteq> circ_keys (?cl2 r)"
      "circ_keys r - {(pc_prev_conn r, pc_prev_circuit_id r)} \<subseteq> circ_keys (?cl3 r)" for r
      by (auto simp: circ_keys_def)
    obtain p1 where p1: "nullify_field conn pc_conn pc_circuit_id ?cl1 c p = Some p1" "pool_inv p1"
      "cp_circuits p1 = cp_circuits p" "cp_freed p1 = cp_freed p" "cp_init_done p1 = cp_init_done p"
    proof (cases "pc_conn (cp_mem p c) = conn")
      case True
      then show ?thesis using nullify_field_inv [OF Cons.prems(1) c, of ?cl1 conn pc_circuit_id pc_conn] k that by auto
    qed (use Cons.prems(1) that in \<open>simp add: nullify_field_def\<close>)
    have c1: "c \<in> set (cp_circuits p1)" using c p1(3) by simp
    obtain p2 where p2: "nullify_field conn pc_next_conn pc_next_circuit_id ?cl2 c p1 = Some p2" "pool_inv p2"
      "cp_circuits p2 = cp_circuits p1" "cp_freed p2 = cp_freed p1" "cp_init_done p2 = cp_init_done p1"
    proof (cases "pc_next_conn (cp_mem p1 c) = conn")
      case True
      then show ?thesis using nullify_field_inv [OF p1(2) c1, of ?cl2 conn pc_next_circuit_id pc_next_conn] k that by auto
    qed (use p1(2) that in \<open>simp add: nullify_field_def\<close>)
    have c2: "c \<in> set (cp_circuits p2)" using c1 p2(3) by simp
    obtain p3 where p3: "nullify_field conn pc_prev_conn pc_prev_circuit_id ?cl3 c p2 = Some p3" "pool_inv p3"
      "cp_circuits p3 = cp_circuits p2" "cp_freed p3 = cp_freed p2" "cp_init_done p3 = cp_init_done p2"
    proof (cases "pc_prev_conn (cp_mem p2 c) = conn")
      case True
      then show ?thesis using nullify_field_inv [OF p2(2) c2, of ?cl3 conn pc_prev_circuit_id pc_prev_conn] k that by auto
    qed (use p2(2) that in \<open>simp add: nullify_field_def\<close>)
    have "set cs \<subseteq> set (cp_circuits p3)" using Cons.prems(2) p1(3) p2(3) p3(3) by simp
    from Cons.IH [OF p3(2) this] p1 p2 p3 False show ?thesis by simp
  qed
qed simp

lemma nullify_inv:
  "pool_inv p \<Longrightarrow> \<exists>p'. moor_circuit_nullify_conn conn p = Some p' \<and> pool_inv p' \<and> cp_circuits p' = cp_circuits p \<and>
    cp_freed p' = cp_freed p \<and> cp_init_done p' = cp_init_done p"
  using nullify_loop_inv [of p "cp_circuits p" conn] by (simp add: moor_circuit_nullify_conn_def)

text \<open>Marking a list of tracked circuits, one after the other.\<close>

lemma fold_inv:
  assumes "pool_inv p" and "set cs \<subseteq> set (cp_circuits p)"
    and "\<And>c q. pool_inv q \<Longrightarrow> g c \<in> set (cp_circuits q) \<Longrightarrow> pool_inv (f c q) \<and> cp_circuits (f c q) = cp_circuits q \<and>
      cp_freed (f c q) = cp_freed q \<and> cp_init_done (f c q) = cp_init_done q"
    and "g ` set xs \<subseteq> set cs"
  shows "pool_inv (fold f xs p) \<and> cp_circuits (fold f xs p) = cp_circuits p \<and> cp_freed (fold f xs p) = cp_freed p \<and>
    cp_init_done (fold f xs p) = cp_init_done p"
  using assms
proof (induction xs arbitrary: p)
  case (Cons x xs)
  have "g x \<in> set (cp_circuits p)" using Cons.prems(2,4) by auto
  from Cons.prems(3) [OF Cons.prems(1) this] have s: "pool_inv (f x p)" "cp_circuits (f x p) = cp_circuits p"
    "cp_freed (f x p) = cp_freed p" "cp_init_done (f x p) = cp_init_done p" by simp_all
  have "set cs \<subseteq> set (cp_circuits (f x p))" using Cons.prems(2) s(2) by simp
  from Cons.IH [OF s(1) this Cons.prems(3)] Cons.prems(4) s show ?case by simp
qed simp

lemma mark_all_inv:
  assumes "pool_inv p"
  shows "pool_inv (moor_circuit_mark_all_for_conn env conn reason p) \<and>
    cp_circuits (moor_circuit_mark_all_for_conn env conn reason p) = cp_circuits p \<and>
    cp_freed (moor_circuit_mark_all_for_conn env conn reason p) = cp_freed p \<and>
    cp_init_done (moor_circuit_mark_all_for_conn env conn reason p) = cp_init_done p"
proof (cases "conn = 0")
  case False
  then show ?thesis
    using fold_inv [OF assms subset_refl, where g = "\<lambda>c. c" and xs = "cp_circuits p" and
        f = "\<lambda>c q. if pc_circuit_id (cp_mem q c) = 0 \<or> pc_marked_for_close (cp_mem q c) \<noteq> 0 then q
                 else if uses_conn conn (cp_mem q c) then moor_circuit_mark_for_close env c reason 634 q else q"] mark_inv
    by (simp add: moor_circuit_mark_all_for_conn_def)
qed (use assms in \<open>simp add: moor_circuit_mark_all_for_conn_def\<close>)

lemma teardown_inv:
  "pool_inv p \<Longrightarrow> \<exists>p'. moor_circuit_teardown_for_conn env conn p = Some p' \<and> pool_inv p' \<and>
    cp_circuits p' = cp_circuits p \<and> cp_freed p' = cp_freed p \<and> cp_init_done p' = cp_init_done p"
  using nullify_inv [of "moor_circuit_mark_all_for_conn env conn DESTROY_CONNECTFAILED p" conn]
    mark_all_inv [of p env conn DESTROY_CONNECTFAILED] by (simp add: moor_circuit_teardown_for_conn_def)
section \<open>Time-outs, memory pressure and allocation\<close>

lemma destroy_step:
  "pool_inv q \<Longrightarrow> c \<in> set (cp_circuits q) \<Longrightarrow> \<not> env_worker env \<Longrightarrow>
    pool_inv (snd (moor_circuit_destroy env c q)) \<and> cp_circuits (snd (moor_circuit_destroy env c q)) = cp_circuits q \<and>
    cp_freed (snd (moor_circuit_destroy env c q)) = cp_freed q \<and>
    cp_init_done (snd (moor_circuit_destroy env c q)) = cp_init_done q"
  by (simp add: destroy_inv destroy_frame)

lemma clear_kem_inv: "pool_inv q \<Longrightarrow> pool_inv (set_circ c ((cp_mem q c)\<lparr>pc_pq_kem_pending := b\<rparr>) q)"
  by (rule pool_inv_same) (simp_all add: same_links_def)

lemma check_timeout_one_step:
  assumes "\<not> env_worker env" and "pool_inv q" and "fst s \<in> set (cp_circuits q)"
  shows "pool_inv (check_timeout_one env s q) \<and> cp_circuits (check_timeout_one env s q) = cp_circuits q \<and>
    cp_freed (check_timeout_one env s q) = cp_freed q \<and> cp_init_done (check_timeout_one env s q) = cp_init_done q"
proof -
  obtain c age sid where s: "s = (c, age, sid)" by (cases s)
  let ?td = "emit [Socks5_invalidate c] (send_destroy env (pc_conn (cp_mem q c)) (moor_cell_destroy (pc_circuit_id (cp_mem q c))) q)"
  let ?kem = "set_circ c ((cp_mem q c)\<lparr>pc_pq_kem_pending := False\<rparr>) q"
  have "check_timeout_one env s q \<in> {q, snd (moor_circuit_destroy env c ?td), snd (moor_circuit_destroy env c ?kem),
      snd (moor_circuit_destroy env c q)}"
    by (simp add: s check_timeout_one_def Let_def)
  then show ?thesis
    using destroy_step [of ?td c env] destroy_step [of ?kem c env] destroy_step [of q c env] clear_kem_inv [OF assms(2)] assms s
    by auto
qed

lemma oom_pass1_inv:
  assumes "\<not> env_worker env" and "pool_inv p" and "set cs \<subseteq> set (cp_circuits p)"
  shows "pool_inv (snd (oom_pass1 env target cs killed p)) \<and>
    cp_circuits (snd (oom_pass1 env target cs killed p)) = cp_circuits p \<and>
    cp_freed (snd (oom_pass1 env target cs killed p)) = cp_freed p \<and>
    cp_init_done (snd (oom_pass1 env target cs killed p)) = cp_init_done p"
  using assms(2,3)
proof (induction cs arbitrary: killed p)
  case (Cons c cs)
  let ?q = "snd (moor_circuit_destroy env c (emit [Socks5_invalidate c] p))"
  have "pool_inv ?q" "cp_circuits ?q = cp_circuits p" "cp_freed ?q = cp_freed p" "cp_init_done ?q = cp_init_done p"
    using destroy_step [of "emit [Socks5_invalidate c] p" c env] Cons.prems assms(1) by simp_all
  with Cons.IH [of ?q "killed + 1"] Cons.IH [of p killed] Cons.prems show ?case by (simp add: Let_def)
qed simp

lemma oldest_fold_tracked:
  "fold (\<lambda>c best. let r = m c in if pc_circuit_id r = 0 \<or> pc_is_client r then best
      else case best of None \<Rightarrow> Some c | Some b \<Rightarrow> if pc_created_at r < pc_created_at (m b) then Some c else best) xs b0 = Some c \<Longrightarrow>
    c \<in> set xs \<or> b0 = Some c"
  by (induction xs arbitrary: b0) (fastforce simp: Let_def split: if_splits option.splits)+

lemma oldest_tracked: "oldest_relay_circ p = Some c \<Longrightarrow> c \<in> set (cp_circuits p)"
  using oldest_fold_tracked [of "cp_mem p" "cp_circuits p" None c] by (simp add: oldest_relay_circ_def)

lemma oom_pass2_inv:
  assumes "\<not> env_worker env" and "pool_inv p"
  shows "pool_inv (snd (oom_pass2 env n killed p)) \<and>
    cp_circuits (snd (oom_pass2 env n killed p)) = cp_circuits p \<and>
    cp_freed (snd (oom_pass2 env n killed p)) = cp_freed p \<and> cp_init_done (snd (oom_pass2 env n killed p)) = cp_init_done p"
  using assms(2)
proof (induction n arbitrary: killed p)
  case (Suc n)
  show ?case
  proof (cases "oldest_relay_circ p")
    case (Some c)
    let ?p1 = "emit [Socks5_invalidate c] (send_destroy env (pc_conn (cp_mem p c)) (moor_cell_destroy (pc_circuit_id (cp_mem p c))) p)"
    let ?q = "snd (moor_circuit_destroy env c ?p1)"
    have "pool_inv ?q" "cp_circuits ?q = cp_circuits p" "cp_freed ?q = cp_freed p" "cp_init_done ?q = cp_init_done p"
      using destroy_step [of ?p1 c env] oldest_tracked [OF Some] Suc.prems assms(1) by simp_all
    with Suc.IH [of ?q "killed + 1"] Some show ?thesis by (simp add: Let_def)
  qed (use Suc.prems in simp)
qed simp

lemma oom_kill_inv:
  assumes "\<not> env_worker env" and "pool_inv p"
  shows "pool_inv (snd (moor_circuit_oom_kill env n p)) \<and>
    cp_circuits (snd (moor_circuit_oom_kill env n p)) = cp_circuits p \<and>
    cp_freed (snd (moor_circuit_oom_kill env n p)) = cp_freed p \<and>
    cp_init_done (snd (moor_circuit_oom_kill env n p)) = cp_init_done p"
  using oom_pass1_inv [OF assms subset_refl, of n 0] oom_pass2_inv [OF assms(1)] assms(2)
  by (auto simp: moor_circuit_oom_kill_def split: prod.split)

lemma timeouts_inv:
  assumes w: "\<not> env_worker env" and inv: "pool_inv p"
  shows "pool_inv (moor_circuit_check_timeouts env ok p)"
proof -
  let ?snap = "map (\<lambda>c. (c, env_now env - pc_created_at (cp_mem p c), pc_circuit_id (cp_mem p c)))
      (filter (\<lambda>c. pc_circuit_id (cp_mem p c) \<noteq> 0 \<and> \<not> env_now env < pc_created_at (cp_mem p c)) (cp_circuits p))"
  have "pool_inv (fold (check_timeout_one env) ?snap p)"
    using fold_inv [OF inv subset_refl, of fst "check_timeout_one env" ?snap] check_timeout_one_step [OF w] by fastforce
  then show ?thesis using inv oom_kill_inv [OF w] by (simp add: moor_circuit_check_timeouts_def Let_def)
qed

text \<open>A new circuit has no links, no mark and no partner.\<close>

lemma init_fields_blank:
  "pc_rp_partner (circ_init_fields now zero_circ) = None" "pc_marked_for_close (circ_init_fields now zero_circ) = 0"
  "pc_circuit_id (circ_init_fields now zero_circ) = 0" "circ_keys (circ_init_fields now zero_circ) = {}"
  by (simp_all add: circ_init_fields_def zero_circ_def circ_keys_def)

lemma fresh_inv:
  assumes inv: "pool_inv p" and a: "a \<notin> set (cp_circuits p)" and r: "pc_rp_partner r = None"
  shows "set fr \<subseteq> set (cp_freed p) - {a} \<Longrightarrow>
      pool_inv (p\<lparr>cp_mem := (cp_mem p)(a := r), cp_freed := fr, cp_circuits := cp_circuits p @ [a]\<rparr>)"
    and "set fr' \<subseteq> insert a (set (cp_freed p)) \<Longrightarrow> pool_inv (p\<lparr>cp_mem := (cp_mem p)(a := r), cp_freed := fr'\<rparr>)"
proof -
  let ?m = "(cp_mem p)(a := r)"
  have np: "a \<notin> set (cp_pending p)" using pool_inv_pendingD(1) [OF inv] a by blast
  have pa: "pc_rp_partner (cp_mem p x) \<noteq> Some a" if "x \<in> set (cp_circuits p)" for x
    using pool_inv_partnerD(1) [OF inv that] a by blast
  have ta: "ht_abs (cp_ht p) k = Some x \<Longrightarrow> x \<noteq> a" for k x using pool_inv_tableD(1) [OF inv] a by blast
  have pe: "pending_ok ?m cs (cp_pending p)" if "set (cp_circuits p) \<subseteq> set cs" for cs
    using pool_inv_pendingD [OF inv] pool_invD(4) [OF inv] np that unfolding pending_ok_def by auto
  have ta2: "table_ok ?m cs (cp_ht p)" if "set (cp_circuits p) \<subseteq> set cs" for cs
    unfolding table_ok_def
  proof (intro conjI allI impI)
    fix k x assume h: "ht_abs (cp_ht p) k = Some x"
    from pool_inv_tableD [OF inv h] ta [OF h] that show "x \<in> set cs" "k \<in> circ_keys (?m x)" by auto
  qed (rule pool_invD(1) [OF inv])
  have pr: "partners_ok ?m cs" if "set (cp_circuits p) \<subseteq> set cs" "set cs \<subseteq> insert a (set (cp_circuits p))" for cs
    unfolding partners_ok_def
  proof (intro ballI allI impI)
    fix x d assume x: "x \<in> set cs" and d: "pc_rp_partner (?m x) = Some d"
    have xa: "x \<noteq> a" using d r by auto
    with x that have xc: "x \<in> set (cp_circuits p)" by auto
    have pd: "pc_rp_partner (cp_mem p x) = Some d" using d xa by simp
    from pool_inv_partnerD [OF inv xc pd] pa [OF xc] pd xa that
    show "d \<in> set cs \<and> d \<noteq> x \<and> pc_rp_partner (?m d) = Some x \<and> pc_marked_for_close (?m x) = 0" by auto
  qed
  show "pool_inv (p\<lparr>cp_mem := ?m, cp_freed := fr, cp_circuits := cp_circuits p @ [a]\<rparr>)" if "set fr \<subseteq> set (cp_freed p) - {a}"
    using pe [of "cp_circuits p @ [a]"] pr [of "cp_circuits p @ [a]"] ta2 [of "cp_circuits p @ [a]"] pool_invD [OF inv] a that
    by (auto simp: pool_inv_def arrays_ok_def)
  show "pool_inv (p\<lparr>cp_mem := ?m, cp_freed := fr'\<rparr>)" if "set fr' \<subseteq> insert a (set (cp_freed p))"
    using pe [of "cp_circuits p"] pr [of "cp_circuits p"] ta2 [of "cp_circuits p"] pool_invD [OF inv] a that
    by (auto simp: pool_inv_def arrays_ok_def)
qed

lemma alloc_inv:
  assumes w: "\<not> env_worker env" and inv: "pool_inv p" and a: "addr \<notin> set (cp_circuits p)" and i: "cp_init_done p"
  shows "pool_inv (snd (moor_circuit_alloc env ok1 ok2 addr p))"
proof -
  define p1 where "p1 = (if ok1 then p else snd (moor_circuit_oom_kill env 1 p))"
  have p1: "pool_inv p1" "cp_circuits p1 = cp_circuits p" "addr \<notin> set (cp_circuits p1)"
    using inv oom_kill_inv [OF w inv, of 1] a by (auto simp: p1_def)
  let ?r = "circ_init_fields (env_now env) zero_circ"
  note f = fresh_inv [OF p1(1,3) init_fields_blank(1)]
  have "pool_inv (p1\<lparr>cp_mem := (cp_mem p1)(addr := ?r), cp_freed := filter (\<lambda>x. x \<noteq> addr) (cp_freed p1),
      cp_circuits := cp_circuits p1 @ [addr]\<rparr>)" by (rule f(1)) auto
  moreover have "pool_inv (p1\<lparr>cp_mem := (cp_mem p1)(addr := ?r), cp_freed := filter (\<lambda>x. x \<noteq> addr) (cp_freed p1) @ [addr]\<rparr>)"
    by (rule f(2)) auto
  moreover have "snd (moor_circuit_alloc env ok1 ok2 addr p) = (if \<not> ok1 \<and> \<not> ok2 then p1
      else let p2 = set_circ addr ?r (p1\<lparr>cp_freed := filter (\<lambda>x. x \<noteq> addr) (cp_freed p1)\<rparr>)
           in if env_grow env (cp_circuits p2)
              then p2\<lparr>cp_circuits := cp_circuits p2 @ [addr], cp_stat_created := cp_stat_created p2 + 1, cp_stat_active := cp_stat_active p2 + 1\<rparr>
              else p2\<lparr>cp_freed := cp_freed p2 @ [addr]\<rparr>)"
    using i w by (simp add: moor_circuit_alloc_def p1_def circ_array_add_def Let_def)
  ultimately show ?thesis using p1(1) by (simp add: pool_inv_def set_circ_def Let_def)
qed

end
