(* ===== verification/NetText.thy ===== *)
theory NetText
  imports Prelude
begin

text \<open>
  C strings as byte lists without the terminating zero, and the standard library functions
  that the address and policy code calls on them: \<open>strchr\<close>, \<open>strrchr\<close>, \<open>strtol\<close> in base 10,
  \<open>atoi\<close>, \<open>strcasecmp\<close>, \<open>snprintf\<close> of a number, and \<open>inet_pton\<close> for both address families.
  The lemmas relate printing and reading of numbers and dotted quads.
\<close>

section \<open>Strings\<close>

definition str :: "string \<Rightarrow> bytes" where
  "str s = map of_char s"

text \<open>\<open>strchr\<close> and \<open>strrchr\<close>, giving the text before and after the character.\<close>

fun split_first :: "'a \<Rightarrow> 'a list \<Rightarrow> ('a list \<times> 'a list) option" where
  "split_first c [] = None"
| "split_first c (x # xs) =
     (if x = c then Some ([], xs) else map_option (\<lambda>(a, b). (x # a, b)) (split_first c xs))"

definition split_last :: "'a \<Rightarrow> 'a list \<Rightarrow> ('a list \<times> 'a list) option" where
  "split_last c xs = map_option (\<lambda>(b, a). (rev a, rev b)) (split_first c (rev xs))"

fun split_all :: "'a \<Rightarrow> 'a list \<Rightarrow> 'a list list" where
  "split_all c [] = [[]]"
| "split_all c (x # xs) =
     (if x = c then [] # split_all c xs
      else (case split_all c xs of [] \<Rightarrow> [[x]] | p # ps \<Rightarrow> (x # p) # ps))"

definition to_lower :: "byte \<Rightarrow> byte" where
  "to_lower b = (if 65 \<le> b \<and> b \<le> 90 then b + 32 else b)"

definition strcasecmp_eq :: "bytes \<Rightarrow> bytes \<Rightarrow> bool" where
  "strcasecmp_eq s t \<longleftrightarrow> map to_lower s = map to_lower t"

section \<open>Numbers\<close>

definition is_digit :: "byte \<Rightarrow> bool" where
  "is_digit b \<longleftrightarrow> 48 \<le> b \<and> b \<le> 57"

definition is_space :: "byte \<Rightarrow> bool" where
  "is_space b \<longleftrightarrow> b = 32 \<or> 9 \<le> b \<and> b \<le> 13"

definition dec_value :: "bytes \<Rightarrow> nat" where
  "dec_value ds = foldl (\<lambda>v b. 10 * v + (unat b - 48)) 0 ds"

definition clamp_long :: "int \<Rightarrow> int" where
  "clamp_long v = max (- (2 ^ 63)) (min (2 ^ 63 - 1) v)"

text \<open>The value and, when there was a number, the rest of the text.\<close>

definition strtol10 :: "bytes \<Rightarrow> int \<times> bytes option" where
  "strtol10 s =
    (let s1 = dropWhile is_space s;
         neg = (case s1 of [] \<Rightarrow> False | c # r \<Rightarrow> c = 45);
         s2 = (case s1 of [] \<Rightarrow> [] | c # r \<Rightarrow> if c = 45 \<or> c = 43 then r else s1);
         ds = takeWhile is_digit s2;
         v = int (dec_value ds)
     in if ds = [] then (0, None)
        else (clamp_long (if neg then - v else v), Some (dropWhile is_digit s2)))"

definition atoi :: "bytes \<Rightarrow> int" where
  "atoi s = sint (word_of_int (fst (strtol10 s)) :: 32 word)"

text \<open>A number in decimal with at most \<open>k\<close> digits.\<close>

fun dec_digits :: "nat \<Rightarrow> nat \<Rightarrow> bytes" where
  "dec_digits 0 n = []"
| "dec_digits (Suc k) n = (if n < 10 then [of_nat (48 + n)] else dec_digits k (n div 10) @ [of_nat (48 + n mod 10)])"

section \<open>Addresses\<close>

text \<open>\<open>inet_pton(AF_INET)\<close>: four decimal numbers up to 255 without leading zeros.\<close>

definition octet_ok :: "bytes \<Rightarrow> bool" where
  "octet_ok p \<longleftrightarrow> p \<noteq> [] \<and> list_all is_digit p \<and> (length p = 1 \<or> hd p \<noteq> 48) \<and> dec_value p \<le> 255"

definition inet_pton4 :: "bytes \<Rightarrow> bytes option" where
  "inet_pton4 s =
    (let ps = split_all 46 s
     in if length ps = 4 \<and> list_all octet_ok ps then Some (map (\<lambda>p. of_nat (dec_value p)) ps) else None)"

definition hex_val :: "byte \<Rightarrow> nat option" where
  "hex_val b =
    (if 48 \<le> b \<and> b \<le> 57 then Some (unat b - 48)
     else if 97 \<le> b \<and> b \<le> 102 then Some (unat b - 87)
     else if 65 \<le> b \<and> b \<le> 70 then Some (unat b - 55)
     else None)"

text \<open>
  \<open>inet_pton(AF_INET6)\<close>: one pass over the text with the start of the current token, the
  number of hexadecimal digits seen in it, its value, the bytes written so far and the place
  of the double colon.
\<close>

fun pton6_loop :: "bytes \<Rightarrow> bytes \<Rightarrow> nat \<Rightarrow> nat \<Rightarrow> bytes \<Rightarrow> nat option \<Rightarrow> (nat \<times> nat \<times> bytes \<times> nat option) option" where
  "pton6_loop [] curtok xd v out colon = Some (xd, v, out, colon)"
| "pton6_loop (ch # src) curtok xd v out colon =
     (case hex_val ch of
        Some d \<Rightarrow> if xd = 4 then None else pton6_loop src curtok (xd + 1) (v * 16 + d) out colon
      | None \<Rightarrow>
          if ch = 58
          then if xd = 0
               then if colon \<noteq> None then None else pton6_loop src src 0 v out (Some (length out))
               else if src = [] then None
               else if length out + 2 > 16 then None
               else pton6_loop src src 0 0 (out @ be16 (of_nat v)) colon
          else if ch = 46 \<and> length out + 4 \<le> 16
          then (case inet_pton4 curtok of None \<Rightarrow> None | Some b \<Rightarrow> Some (0, v, out @ b, colon))
          else None)"

definition pton6_finish :: "bytes \<Rightarrow> nat option \<Rightarrow> bytes option" where
  "pton6_finish out colon =
    (case colon of
       None \<Rightarrow> if length out = 16 then Some out else None
     | Some k \<Rightarrow> if length out \<ge> 16 then None else Some (take k out @ replicate (16 - length out) 0 @ drop k out))"

definition inet_pton6 :: "bytes \<Rightarrow> bytes option" where
  "inet_pton6 s =
    (let start = (case s of [] \<Rightarrow> None
                  | c # r \<Rightarrow> if c = 58 then (case r of [] \<Rightarrow> None | d # _ \<Rightarrow> if d = 58 then Some r else None) else Some s)
     in case start of None \<Rightarrow> None
        | Some s1 \<Rightarrow>
            (case pton6_loop s1 s1 0 0 [] None of
               None \<Rightarrow> None
             | Some (xd, v, out, colon) \<Rightarrow>
                 if xd > 0
                 then if length out + 2 > 16 then None else pton6_finish (out @ be16 (of_nat v)) colon
                 else pton6_finish out colon))"

text \<open>A dotted quad.\<close>

definition quad :: "byte \<Rightarrow> byte \<Rightarrow> byte \<Rightarrow> byte \<Rightarrow> bytes" where
  "quad a b c d = dec_digits 3 (unat a) @ [46] @ dec_digits 3 (unat b) @ [46] @ dec_digits 3 (unat c) @ [46] @ dec_digits 3 (unat d)"

section \<open>Splitting\<close>

lemma split_first_append:
  "c \<notin> set a \<Longrightarrow> split_first c (a @ c # b) = Some (a, b)"
  by (induction a) auto

lemma split_first_None: "split_first c xs = None \<longleftrightarrow> c \<notin> set xs"
  by (induction xs) auto

lemma split_first_Some: "split_first c xs = Some (a, b) \<Longrightarrow> xs = a @ c # b \<and> c \<notin> set a"
  by (induction xs arbitrary: a) (auto split: if_splits)

lemma split_last_append:
  "c \<notin> set b \<Longrightarrow> split_last c (a @ c # b) = Some (a, b)"
  by (simp add: split_last_def split_first_append)

lemma split_last_None: "split_last c xs = None \<longleftrightarrow> c \<notin> set xs"
  by (simp add: split_last_def split_first_None)

lemma split_last_Some: "split_last c xs = Some (a, b) \<Longrightarrow> xs = a @ c # b \<and> c \<notin> set b"
proof -
  assume "split_last c xs = Some (a, b)"
  then have "split_first c (rev xs) = Some (rev b, rev a)" by (auto simp: split_last_def)
  then have "rev xs = rev b @ c # rev a \<and> c \<notin> set b" by (auto dest: split_first_Some)
  then show ?thesis by (metis append.assoc append_Cons append_Nil rev.simps(2) rev_append rev_rev_ident)
qed

lemma split_all_none: "c \<notin> set p \<Longrightarrow> split_all c p = [p]"
  by (induction p) auto

lemma split_all_append: "c \<notin> set p \<Longrightarrow> split_all c (p @ c # xs) = p # split_all c xs"
  by (induction p) auto

section \<open>Printing and reading numbers\<close>

lemma digit_byte:
  assumes "n < 10"
  shows "is_digit (of_nat (48 + n))" and "unat (of_nat (48 + n) :: byte) = 48 + n"
proof -
  show u: "unat (of_nat (48 + n) :: byte) = 48 + n" using assms by (simp only: unat_of_nat) simp
  show "is_digit (of_nat (48 + n))" using assms by (simp only: is_digit_def word_le_nat_alt u) simp
qed

lemma dec_value_snoc: "dec_value (ds @ [b]) = 10 * dec_value ds + (unat b - 48)"
  by (simp add: dec_value_def)

lemma dec_digits_value:
  "n < 10 ^ k \<Longrightarrow> 0 < k \<Longrightarrow> list_all is_digit (dec_digits k n) \<and> dec_digits k n \<noteq> [] \<and> dec_value (dec_digits k n) = n"
proof (induction k arbitrary: n)
  case (Suc k)
  show ?case
  proof (cases "n < 10")
    case True
    then show ?thesis using digit_byte [OF True] by (simp add: dec_value_def)
  next
    case False
    then have "0 < k" using Suc.prems by (cases k) auto
    moreover have "n div 10 < 10 ^ k" using Suc.prems by (simp add: less_mult_imp_div_less mult.commute)
    ultimately have "list_all is_digit (dec_digits k (n div 10)) \<and> dec_value (dec_digits k (n div 10)) = n div 10"
      using Suc.IH by blast
    moreover have "n mod 10 < 10" by simp
    note digit_byte [OF this]
    ultimately show ?thesis using False by (simp add: dec_value_snoc)
  qed
qed simp

lemma dec_digits_head: "0 < n \<Longrightarrow> n < 10 ^ k \<Longrightarrow> hd (dec_digits k n) \<noteq> 48"
proof (induction k arbitrary: n)
  case (Suc k)
  show ?case
  proof (cases "n < 10")
    case True
    then have "unat (of_nat (48 + n) :: byte) \<noteq> 48" using Suc.prems digit_byte(2) [OF True] by simp
    then show ?thesis using True by auto
  next
    case False
    then have k: "0 < k" using Suc.prems by (cases k) auto
    have d: "n div 10 < 10 ^ k" using Suc.prems by (simp add: less_mult_imp_div_less mult.commute)
    have "hd (dec_digits k (n div 10)) \<noteq> 48" using Suc.IH [OF _ d] False by simp
    moreover have "dec_digits k (n div 10) \<noteq> []" using dec_digits_value [OF d k] by blast
    ultimately show ?thesis using False by simp
  qed
qed simp

lemma dec_digits_chars: "n < 10 ^ k \<Longrightarrow> 0 < k \<Longrightarrow> b \<in> set (dec_digits k n) \<Longrightarrow> is_digit b"
  using dec_digits_value [of n k] by (auto simp: list_all_iff)

lemma takeWhile_all_stop: "list_all P ds \<Longrightarrow> (case rest of [] \<Rightarrow> True | c # r \<Rightarrow> \<not> P c) \<Longrightarrow>
    takeWhile P (ds @ rest) = ds \<and> dropWhile P (ds @ rest) = rest"
  by (induction ds) (auto split: list.splits)

lemma strtol10_digits:
  assumes "list_all is_digit ds" and "ds \<noteq> []" and "case rest of [] \<Rightarrow> True | c # r \<Rightarrow> \<not> is_digit c"
    and "dec_value ds < 2 ^ 63"
  shows "strtol10 (ds @ rest) = (int (dec_value ds), Some rest)"
proof -
  obtain c r where ds: "ds = c # r" using assms(2) by (cases ds) auto
  then have c: "is_digit c" using assms(1) by simp
  have n: "\<not> is_space c" "c \<noteq> 45" "c \<noteq> 43" using c by (auto simp: is_digit_def is_space_def word_le_nat_alt)
  have "dropWhile is_space (ds @ rest) = ds @ rest" using ds n by simp
  moreover note takeWhile_all_stop [OF assms(1) assms(3)]
  moreover have "clamp_long (int (dec_value ds)) = int (dec_value ds)" using assms(4) by (simp add: clamp_long_def)
  ultimately show ?thesis using ds n by (simp add: strtol10_def Let_def)
qed

lemma strtol10_dec:
  assumes "n < 10 ^ k" and "0 < k" and "k \<le> 18"
  shows "strtol10 (dec_digits k n) = (int n, Some [])"
proof -
  have "(10 :: nat) ^ k \<le> 10 ^ 18" using assms(3) by (intro power_increasing) auto
  then have "n < 2 ^ 63" using assms(1) by simp
  then show ?thesis
    using strtol10_digits [of "dec_digits k n" "[]"] dec_digits_value [OF assms(1,2)] by simp
qed

section \<open>Dotted quads\<close>

lemma byte_digits: "unat (a :: byte) < 10 ^ 3"
  using unsigned_less [where 'b = 8 and 'a = nat, of a] by simp

lemma octet_digits: "octet_ok (dec_digits 3 (unat (a :: byte)))"
proof -
  have v: "list_all is_digit (dec_digits 3 (unat a))" "dec_digits 3 (unat a) \<noteq> []" "dec_value (dec_digits 3 (unat a)) = unat a"
    using dec_digits_value [OF byte_digits, of a] by auto
  have "unat a = 0 \<Longrightarrow> dec_digits 3 (unat a) = [48]" by (simp add: numeral_3_eq_3)
  moreover have "unat a \<noteq> 0 \<Longrightarrow> hd (dec_digits 3 (unat a)) \<noteq> 48" using dec_digits_head [OF _ byte_digits] by simp
  moreover have "unat a \<le> 255" using unsigned_less [where 'b = 8 and 'a = nat, of a] by simp
  ultimately show ?thesis unfolding octet_ok_def using v by (cases "unat a = 0") auto
qed

lemma no_dot_digits: "c \<notin> {48..57} \<Longrightarrow> c \<notin> set (dec_digits 3 (unat (a :: byte)))"
  using dec_digits_chars [OF byte_digits] by (auto simp: is_digit_def)

theorem inet_pton4_quad: "inet_pton4 (quad a b c d) = Some [a, b, c, d]"
proof -
  have nd: "46 \<notin> set (dec_digits 3 (unat x))" for x :: byte by (rule no_dot_digits) (simp add: word_le_nat_alt)
  have v: "of_nat (dec_value (dec_digits 3 (unat x))) = x" for x :: byte
    using dec_digits_value [OF byte_digits, of x] by simp
  have "split_all 46 (quad a b c d) = [dec_digits 3 (unat a), dec_digits 3 (unat b), dec_digits 3 (unat c), dec_digits 3 (unat d)]"
    unfolding quad_def by (simp add: split_all_append split_all_none nd)
  then show ?thesis by (simp add: inet_pton4_def octet_digits v)
qed

lemma quad_chars: "ch \<in> set (quad a b c d) \<Longrightarrow> is_digit ch \<or> ch = 46"
  unfolding quad_def using dec_digits_chars [OF byte_digits] by auto

lemma quad_free: "\<not> is_digit ch \<Longrightarrow> ch \<noteq> 46 \<Longrightarrow> ch \<notin> set (quad a b c d)"
  using quad_chars by blast

section \<open>Shape of addresses\<close>

lemma inet_pton4_length: "inet_pton4 s = Some b \<Longrightarrow> length b = 4"
  by (auto simp: inet_pton4_def Let_def split: if_splits)

lemma pton6_finish_length: "pton6_finish out colon = Some b \<Longrightarrow> length b = 16"
  by (auto simp: pton6_finish_def split: option.splits if_splits)

lemma inet_pton6_length: "inet_pton6 s = Some b \<Longrightarrow> length b = 16"
  by (auto simp: inet_pton6_def Let_def dest!: pton6_finish_length split: option.splits list.splits if_splits prod.splits)

end
