(* ===== verification/FlowControl.thy ===== *)
theory FlowControl
  imports Onion NetText "HOL-Library.Signed_Division"
begin

text \<open>
  Streams and flow control on a client circuit (\<open>src/src/circuit.c\<close>): stream ids, sending data
  under the package windows, authenticated SENDME cells, round-trip estimation and the
  delay-based congestion window. The windows, the congestion window and the cells in flight
  are 32-bit signed counters of the C code; they are integers here, and the bounds proved
  below keep them far from overflow. Round-trip times are 64-bit words.
\<close>

section \<open>State\<close>

definition MOOR_CIRCUIT_WINDOW :: int where "MOOR_CIRCUIT_WINDOW = 1000"
definition MOOR_STREAM_WINDOW :: int where "MOOR_STREAM_WINDOW = 100"
definition MOOR_SENDME_INCREMENT :: int where "MOOR_SENDME_INCREMENT = 100"
definition MOOR_SENDME_AUTH_MAX :: nat where "MOOR_SENDME_AUTH_MAX = 10"
definition MOOR_SENDME_AUTH_LEN :: nat where "MOOR_SENDME_AUTH_LEN = 20"
definition MOOR_CC_SENDME_TS_MAX :: nat where "MOOR_CC_SENDME_TS_MAX = 20"
definition MOOR_CC_CWND_INIT :: int where "MOOR_CC_CWND_INIT = 124"
definition MOOR_CC_CWND_MIN :: int where "MOOR_CC_CWND_MIN = MOOR_SENDME_INCREMENT"
definition MOOR_CC_CWND_MAX :: int where "MOOR_CC_CWND_MAX = 2000"
definition MOOR_CC_SSTHRESH_INIT :: int where "MOOR_CC_SSTHRESH_INIT = 1000"
definition MOOR_CC_SS_RTT_EXIT_PCT :: u64 where "MOOR_CC_SS_RTT_EXIT_PCT = 50"

record moor_stream =
  st_stream_id :: u16
  st_target_fd :: int
  st_target_addr :: bytes
  st_target_port :: u16
  st_connected :: bool
  st_deliver_window :: int
  st_package_window :: int
  st_xoff_sent :: bool
  st_xoff_recv :: bool

datatype cc_state = MOOR_CC_SLOW_START | MOOR_CC_CONG_AVOIDANCE

text \<open>\<open>fc_sent\<close> holds the cells that \<open>moor_circuit_queue_cell\<close> has taken, in order.\<close>

record flow_circ =
  fc_circuit_id :: u32
  fc_num_hops :: nat
  fc_hops :: "hop list"
  fc_streams :: "moor_stream list"
  fc_next_stream_id :: u16
  fc_is_client :: bool
  fc_circ_package_window :: int
  fc_circ_deliver_window :: int
  fc_cc_state :: cc_state
  fc_cwnd :: int
  fc_ssthresh :: int
  fc_inflight :: int
  fc_srtt_us :: u64
  fc_rtt_var_us :: u64
  fc_sendme_timestamps :: "u64 list"
  fc_sendme_ts_head :: nat
  fc_sendme_ts_count :: nat
  fc_rtt_initialized :: bool
  fc_cc_path_type :: u8
  fc_min_rtt_us :: u64
  fc_bdp :: int
  fc_cwnd_full :: bool
  fc_sendme_ack_count :: u32
  fc_sendme_auth_expected :: "bytes list"
  fc_sendme_auth_head :: nat
  fc_sendme_auth_count :: nat
  fc_sent :: "moor_cell list"
  fc_resumes :: nat

record cc_params =
  ccp_alpha :: int
  ccp_beta :: int
  ccp_gamma :: int
  ccp_delta :: int

text \<open>Exit, onion-service and measurement circuits; any other path type counts as an exit circuit.\<close>

definition cc_params_for :: "flow_circ \<Rightarrow> cc_params" where
  "cc_params_for c =
    (if fc_cc_path_type c = 1 then \<lparr> ccp_alpha = 60, ccp_beta = 200, ccp_gamma = 100, ccp_delta = 15 \<rparr>
     else if fc_cc_path_type c = 2 then \<lparr> ccp_alpha = 10, ccp_beta = 31, ccp_gamma = 20, ccp_delta = 5 \<rparr>
     else \<lparr> ccp_alpha = 30, ccp_beta = 100, ccp_gamma = 50, ccp_delta = 10 \<rparr>)"

text \<open>
  The primitives and the environment: whether \<open>moor_circuit_queue_cell\<close> takes a cell and what
  \<open>moor_time_ms\<close> reads may depend on the cells sent so far.
\<close>

record flow_env =
  fe_chacha :: chacha20
  fe_blake2b :: "bytes \<Rightarrow> bytes"
  fe_queue :: "moor_cell list \<Rightarrow> moor_cell \<Rightarrow> bool"
  fe_clock :: "moor_cell list \<Rightarrow> u64"

definition flow_init_fields :: "flow_circ \<Rightarrow> flow_circ" where
  "flow_init_fields c = c\<lparr>fc_next_stream_id := 1, fc_circ_package_window := MOOR_CIRCUIT_WINDOW,
     fc_circ_deliver_window := MOOR_CIRCUIT_WINDOW, fc_cc_state := MOOR_CC_SLOW_START, fc_cwnd := MOOR_CC_CWND_INIT,
     fc_ssthresh := MOOR_CC_SSTHRESH_INIT, fc_min_rtt_us := UINT64_MAX,
     fc_streams := map (\<lambda>st. st\<lparr>st_target_fd := -1\<rparr>) (fc_streams c)\<rparr>"

section \<open>Sending a cell\<close>

text \<open>\<open>moor_circuit_encrypt_forward\<close> followed by \<open>moor_circuit_queue_cell\<close>.\<close>

definition flow_send_cell :: "flow_env \<Rightarrow> moor_cell \<Rightarrow> flow_circ \<Rightarrow> bool \<times> flow_circ" where
  "flow_send_cell env cell c =
    (case moor_circuit_encrypt_forward (fe_chacha env) (fe_blake2b env) (fc_num_hops c) (fc_hops c) (c_payload cell) of
       (ok, hs, p) \<Rightarrow>
         let c1 = c\<lparr>fc_hops := hs\<rparr>; cell1 = cell\<lparr>c_payload := p\<rparr>
         in if \<not> ok then (False, c1)
            else if \<not> fe_queue env (fc_sent c1) cell1 then (False, c1)
            else (True, c1\<lparr>fc_sent := fc_sent c1 @ [cell1]\<rparr>))"

section \<open>Streams\<close>

definition moor_circuit_find_stream :: "flow_circ \<Rightarrow> u16 \<Rightarrow> nat option" where
  "moor_circuit_find_stream c stream_id =
    (if stream_id = 0 then None else first_index (\<lambda>st. st_stream_id st = stream_id) (fc_streams c))"

text \<open>
  The search for a stream id: the counter skips 0 and the ids of other streams. The first
  argument is the number of attempts left, 65535 at the start.
\<close>

definition next_id :: "u16 \<Rightarrow> u16" where
  "next_id n = (if n + 1 = 0 then 1 else n + 1)"

definition id_in_use :: "moor_stream list \<Rightarrow> nat \<Rightarrow> u16 \<Rightarrow> bool" where
  "id_in_use sts i candidate \<longleftrightarrow> (\<exists>j < length sts. j \<noteq> i \<and> st_stream_id (sts ! j) = candidate)"

fun alloc_stream_id :: "nat \<Rightarrow> moor_stream list \<Rightarrow> nat \<Rightarrow> u16 \<Rightarrow> u16 option \<times> u16" where
  "alloc_stream_id 0 sts i n = (None, n)"
| "alloc_stream_id (Suc left) sts i n =
     (if \<not> id_in_use sts i n then (Some n, next_id n) else alloc_stream_id left sts i (next_id n))"

text \<open>
  \<open>snprintf("%s:%u", addr, port)\<close> with the terminating zero. The buffer of 280 bytes holds it for
  every address of at most 273 bytes; SOCKS5 has no longer ones.
\<close>

definition begin_data :: "bytes \<Rightarrow> u16 \<Rightarrow> bytes" where
  "begin_data addr port = addr @ [58] @ dec_digits 5 (unat port) @ [0]"

text \<open>
  \<open>strncpy\<close> copies at most 255 bytes of the address; the byte after them is zero from the
  allocation of the circuit.
\<close>

definition moor_circuit_open_stream :: "flow_env \<Rightarrow> bytes \<Rightarrow> u16 \<Rightarrow> flow_circ \<Rightarrow> u16 option \<times> flow_circ" where
  "moor_circuit_open_stream env addr port c =
    (case first_index (\<lambda>st. st_stream_id st = 0) (fc_streams c) of
       None \<Rightarrow> (None, c)
     | Some i \<Rightarrow>
         (case alloc_stream_id 65535 (fc_streams c) i (fc_next_stream_id c) of
            (None, n) \<Rightarrow> (None, c\<lparr>fc_next_stream_id := n\<rparr>)
          | (Some sid, n) \<Rightarrow>
              let st = (fc_streams c ! i)\<lparr>st_stream_id := sid, st_target_addr := take 255 addr, st_target_port := port,
                    st_target_fd := -1, st_connected := False, st_deliver_window := MOOR_STREAM_WINDOW,
                    st_package_window := MOOR_STREAM_WINDOW\<rparr>;
                  c1 = c\<lparr>fc_next_stream_id := n, fc_streams := (fc_streams c)[i := st]\<rparr>;
                  d = begin_data addr port;
                  (ok, c2) = flow_send_cell env
                    (moor_cell_relay (fc_circuit_id c1) (relay_cmd_code RELAY_BEGIN) sid (Some d) (of_nat (length d))) c1
              in (if ok then Some sid else None, c2)))"

section \<open>Sending data\<close>

text \<open>Bookkeeping after a data cell: in-flight count, windows, time stamp and expected digest.\<close>

definition count_inflight :: "flow_circ \<Rightarrow> flow_circ" where
  "count_inflight c = c\<lparr>fc_inflight := fc_inflight c + 1, fc_cwnd_full := (fc_cwnd_full c \<or> fc_inflight c + 1 \<ge> fc_cwnd c)\<rparr>"

definition spend_circ_window :: "flow_circ \<Rightarrow> flow_circ" where
  "spend_circ_window c =
    (if fc_circ_package_window c > 0 then c\<lparr>fc_circ_package_window := fc_circ_package_window c - 1\<rparr> else c)"

definition spend_stream_window :: "nat option \<Rightarrow> flow_circ \<Rightarrow> flow_circ" where
  "spend_stream_window stream c =
    (case stream of None \<Rightarrow> c
     | Some i \<Rightarrow> let st = fc_streams c ! i in
         if st_package_window st > 0
         then c\<lparr>fc_streams := (fc_streams c)[i := st\<lparr>st_package_window := st_package_window st - 1\<rparr>]\<rparr> else c)"

definition record_timestamp :: "u64 \<Rightarrow> flow_circ \<Rightarrow> flow_circ" where
  "record_timestamp now c =
    (if fc_sendme_ts_count c < MOOR_CC_SENDME_TS_MAX
     then c\<lparr>fc_sendme_timestamps := (fc_sendme_timestamps c)[fc_sendme_ts_head c := now],
            fc_sendme_ts_head := (fc_sendme_ts_head c + 1) mod MOOR_CC_SENDME_TS_MAX,
            fc_sendme_ts_count := fc_sendme_ts_count c + 1\<rparr> else c)"

definition record_auth :: "flow_circ \<Rightarrow> flow_circ" where
  "record_auth c =
    (if fc_num_hops c > 0 \<and> fc_sendme_auth_count c < MOOR_SENDME_AUTH_MAX
     then c\<lparr>fc_sendme_auth_expected := (fc_sendme_auth_expected c)[fc_sendme_auth_head c :=
              take MOOR_SENDME_AUTH_LEN (h_forward_digest (fc_hops c ! (fc_num_hops c - 1)))],
            fc_sendme_auth_head := (fc_sendme_auth_head c + 1) mod MOOR_SENDME_AUTH_MAX,
            fc_sendme_auth_count := fc_sendme_auth_count c + 1\<rparr> else c)"

definition note_sent :: "flow_env \<Rightarrow> nat option \<Rightarrow> flow_circ \<Rightarrow> flow_circ" where
  "note_sent env stream c =
    (let c1 = spend_stream_window stream (spend_circ_window (count_inflight c))
     in if fc_inflight c1 > 0 \<and> fc_inflight c1 mod MOOR_SENDME_INCREMENT = 0
        then record_auth (record_timestamp (fe_clock env (fc_sent c1)) c1)
        else c1)"

text \<open>\<open>sent\<close> counts the bytes of this call that are already out; the result is C's return value.\<close>

function send_data_loop :: "flow_env \<Rightarrow> u16 \<Rightarrow> nat option \<Rightarrow> nat \<Rightarrow> bytes \<Rightarrow> flow_circ \<Rightarrow> int \<times> flow_circ" where
  "send_data_loop env sid stream sent data c =
    (if data = [] then (0, c)
     else if fc_circ_package_window c \<le> 0 then (if sent > 0 then int sent else -1, c)
     else if (case stream of None \<Rightarrow> False | Some i \<Rightarrow> st_package_window (fc_streams c ! i) \<le> 0)
     then (if sent > 0 then int sent else -1, c)
     else let chunk = min (length data) MOOR_RELAY_DATA;
              (ok, c1) = flow_send_cell env
                (moor_cell_relay (fc_circuit_id c) (relay_cmd_code RELAY_DATA) sid (Some data) (of_nat chunk)) c
          in if \<not> ok then (-1, c1)
             else send_data_loop env sid stream (sent + chunk) (drop chunk data) (note_sent env stream c1))"
  by pat_completeness auto

termination
  by (relation "measure (\<lambda>(env, sid, stream, sent, data, c). length data)") (auto simp: MOOR_RELAY_DATA_def)

declare send_data_loop.simps [simp del]

definition moor_circuit_send_data :: "flow_env \<Rightarrow> u16 \<Rightarrow> bytes \<Rightarrow> flow_circ \<Rightarrow> int \<times> flow_circ" where
  "moor_circuit_send_data env sid data c = send_data_loop env sid (moor_circuit_find_stream c sid) 0 data c"

section \<open>SENDME cells\<close>

definition ring_tail :: "nat \<Rightarrow> nat \<Rightarrow> nat \<Rightarrow> nat" where
  "ring_tail n head count = (head + n - count) mod n"

text \<open>Round-trip measurement from the oldest time stamp.\<close>

definition update_rtt :: "u64 \<Rightarrow> flow_circ \<Rightarrow> flow_circ" where
  "update_rtt rtt_us c =
    (if \<not> fc_rtt_initialized c
     then c\<lparr>fc_srtt_us := rtt_us, fc_rtt_var_us := rtt_us div 2, fc_rtt_initialized := True\<rparr>
     else let diff = sint rtt_us - sint (fc_srtt_us c);
              abs_diff = (word_of_int (if diff < 0 then - diff else diff) :: u64)
          in c\<lparr>fc_srtt_us := word_of_int (sint (fc_srtt_us c) + diff sdiv 8),
               fc_rtt_var_us := (3 * fc_rtt_var_us c + abs_diff) div 4\<rparr>)"

definition measure_rtt :: "u64 \<Rightarrow> flow_circ \<Rightarrow> flow_circ" where
  "measure_rtt now c =
    (if fc_sendme_ts_count c > 0
     then let sent_at = fc_sendme_timestamps c ! ring_tail MOOR_CC_SENDME_TS_MAX (fc_sendme_ts_head c) (fc_sendme_ts_count c);
              c1 = c\<lparr>fc_sendme_ts_count := fc_sendme_ts_count c - 1\<rparr>
          in if now > sent_at
             then let rtt_us = (now - sent_at) * 1000
                  in if rtt_us > 0 \<and> rtt_us < 60000000 then update_rtt rtt_us c1 else c1
             else c1
     else c)"

text \<open>Bandwidth-delay product and queue estimate.\<close>

definition estimate_queue :: "flow_circ \<Rightarrow> int \<times> flow_circ" where
  "estimate_queue c =
    (if fc_rtt_initialized c \<and> fc_srtt_us c > 0 \<and> fc_min_rtt_us c \<noteq> UINT64_MAX
     then let b = (fc_cwnd c * sint (fc_min_rtt_us c)) sdiv sint (fc_srtt_us c);
              b1 = (if b < 0 then 0 else b);
              q = fc_cwnd c - b1
          in (if q < 0 then 0 else q, c\<lparr>fc_bdp := b1\<rparr>)
     else (0, c))"

text \<open>Slow start: leave it when the queue or the round-trip time has grown, or at the threshold.\<close>

definition slow_start :: "int \<Rightarrow> flow_circ \<Rightarrow> flow_circ" where
  "slow_start queue c =
    (let ccp = cc_params_for c;
         exit1 = (fc_rtt_initialized c \<and> queue > ccp_gamma ccp);
         cap = fc_bdp c + ccp_gamma ccp;
         cwnd1 = (if exit1 \<and> cap < fc_cwnd c then cap else fc_cwnd c);
         exit2 = (exit1 \<or> fc_rtt_initialized c \<and> fc_min_rtt_us c \<noteq> UINT64_MAX \<and>
                    fc_srtt_us c > fc_min_rtt_us c * (100 + MOOR_CC_SS_RTT_EXIT_PCT) div 100);
         cwnd2 = (if exit2 then cwnd1 else cwnd1 + MOOR_SENDME_INCREMENT)
     in if exit2 \<or> cwnd2 \<ge> fc_ssthresh c
        then c\<lparr>fc_cwnd := cwnd2, fc_cc_state := MOOR_CC_CONG_AVOIDANCE, fc_ssthresh := cwnd2\<rparr>
        else c\<lparr>fc_cwnd := cwnd2\<rparr>)"

definition cong_avoidance :: "int \<Rightarrow> flow_circ \<Rightarrow> flow_circ" where
  "cong_avoidance queue c =
    (let ccp = cc_params_for c in
     if fc_cwnd_full c
     then if queue < ccp_alpha ccp then c\<lparr>fc_cwnd := fc_cwnd c + ccp_delta ccp\<rparr>
          else if queue > ccp_beta ccp then c\<lparr>fc_cwnd := fc_cwnd c - ccp_delta ccp\<rparr>
          else c
     else c)"

definition adjust_cwnd :: "int \<Rightarrow> flow_circ \<Rightarrow> flow_circ" where
  "adjust_cwnd queue c =
    (case fc_cc_state c of MOOR_CC_SLOW_START \<Rightarrow> slow_start queue c | MOOR_CC_CONG_AVOIDANCE \<Rightarrow> cong_avoidance queue c)"

definition clamp_cwnd :: "flow_circ \<Rightarrow> flow_circ" where
  "clamp_cwnd c =
    (let c1 = (if fc_cwnd c < MOOR_CC_CWND_MIN then c\<lparr>fc_cwnd := MOOR_CC_CWND_MIN\<rparr> else c)
     in if fc_cwnd c1 > MOOR_CC_CWND_MAX then c1\<lparr>fc_cwnd := MOOR_CC_CWND_MAX\<rparr> else c1)"

text \<open>The congestion-control half of a circuit-level SENDME.\<close>

definition sendme_cc :: "u64 \<Rightarrow> flow_circ \<Rightarrow> flow_circ" where
  "sendme_cc now c =
    (let c1 = measure_rtt now c;
         c2 = (if fc_rtt_initialized c1 \<and> fc_srtt_us c1 < fc_min_rtt_us c1 then c1\<lparr>fc_min_rtt_us := fc_srtt_us c1\<rparr> else c1);
         (queue, c3) = estimate_queue c2;
         c4 = c3\<lparr>fc_sendme_ack_count := fc_sendme_ack_count c3 + 1\<rparr>;
         c5 = (clamp_cwnd (adjust_cwnd queue c4))\<lparr>fc_cwnd_full := False\<rparr>;
         c6 = (if fc_cwnd c5 = MOOR_CC_CWND_MIN \<and> fc_cc_state c5 = MOOR_CC_CONG_AVOIDANCE \<and> fc_rtt_initialized c5
               then c5\<lparr>fc_min_rtt_us := fc_srtt_us c5\<rparr> else c5)
     in if fc_is_client c6 then c6\<lparr>fc_resumes := fc_resumes c6 + 1\<rparr> else c6)"

definition cap_add :: "int \<Rightarrow> int \<Rightarrow> int" where
  "cap_add limit w = (if w > limit then limit else w) + MOOR_SENDME_INCREMENT"

definition moor_circuit_handle_sendme :: "flow_env \<Rightarrow> u16 \<Rightarrow> bytes \<Rightarrow> flow_circ \<Rightarrow> bool \<times> flow_circ" where
  "moor_circuit_handle_sendme env sid sendme_data c =
    (if sid = 0
     then if fc_sendme_auth_count c = 0 then (False, c)
          else if length sendme_data < MOOR_SENDME_AUTH_LEN then (False, c)
          else if take MOOR_SENDME_AUTH_LEN sendme_data \<noteq>
              fc_sendme_auth_expected c ! ring_tail MOOR_SENDME_AUTH_MAX (fc_sendme_auth_head c) (fc_sendme_auth_count c)
          then (False, c)
          else let c1 = c\<lparr>fc_sendme_auth_count := fc_sendme_auth_count c - 1\<rparr>;
                   c2 = c1\<lparr>fc_inflight := (if fc_inflight c1 \<ge> MOOR_SENDME_INCREMENT then fc_inflight c1 - MOOR_SENDME_INCREMENT else 0)\<rparr>;
                   c3 = c2\<lparr>fc_circ_package_window := cap_add MOOR_CIRCUIT_WINDOW (fc_circ_package_window c2)\<rparr>
               in (True, sendme_cc (fe_clock env (fc_sent c3)) c3)
     else (case moor_circuit_find_stream c sid of
             None \<Rightarrow> (True, c)
           | Some i \<Rightarrow>
               let st = fc_streams c ! i;
                   c1 = c\<lparr>fc_streams := (fc_streams c)[i := st\<lparr>st_package_window := cap_add MOOR_STREAM_WINDOW (st_package_window st)\<rparr>]\<rparr>
               in (True, if fc_is_client c1 then c1\<lparr>fc_resumes := fc_resumes c1 + 1\<rparr> else c1)))"

text \<open>Receiving side: one SENDME for every hundred cells delivered.\<close>

definition moor_circuit_maybe_send_sendme :: "flow_env \<Rightarrow> u16 \<Rightarrow> flow_circ \<Rightarrow> bool \<times> flow_circ" where
  "moor_circuit_maybe_send_sendme env sid c =
    (if sid = 0
     then if fc_circ_deliver_window c \<le> 0 then (False, c)
          else let c1 = c\<lparr>fc_circ_deliver_window := fc_circ_deliver_window c - 1\<rparr>
               in if fc_circ_deliver_window c1 \<le> MOOR_CIRCUIT_WINDOW - MOOR_SENDME_INCREMENT
                  then let body = take MOOR_SENDME_AUTH_LEN (h_backward_digest (fc_hops c1 ! (fc_num_hops c1 - 1)));
                           (ok, c2) = flow_send_cell env (moor_cell_relay (fc_circuit_id c1) (relay_cmd_code RELAY_SENDME) 0
                             (Some body) (of_nat MOOR_SENDME_AUTH_LEN)) c1
                       in if ok then (True, c2\<lparr>fc_circ_deliver_window := fc_circ_deliver_window c2 + MOOR_SENDME_INCREMENT\<rparr>)
                          else (False, c2)
                  else (True, c1)
     else (case moor_circuit_find_stream c sid of
             None \<Rightarrow> (True, c)
           | Some i \<Rightarrow>
               let st = fc_streams c ! i in
               if st_deliver_window st \<le> 0 then (False, c)
               else let st1 = st\<lparr>st_deliver_window := st_deliver_window st - 1\<rparr>;
                        c1 = c\<lparr>fc_streams := (fc_streams c)[i := st1]\<rparr>
                    in if st_deliver_window st1 \<le> MOOR_STREAM_WINDOW - MOOR_SENDME_INCREMENT
                       then let (ok, c2) = flow_send_cell env
                                  (moor_cell_relay (fc_circuit_id c1) (relay_cmd_code RELAY_SENDME) sid None 0) c1
                            in if ok
                               then (True, c2\<lparr>fc_streams := (fc_streams c2)[i := st1\<lparr>st_deliver_window := st_deliver_window st1 + MOOR_SENDME_INCREMENT\<rparr>]\<rparr>)
                               else (False, c2)
                       else (True, c1)))"
section \<open>Conservation of cells and bounds\<close>

lemmas flow_consts = MOOR_CIRCUIT_WINDOW_def MOOR_STREAM_WINDOW_def MOOR_SENDME_INCREMENT_def MOOR_SENDME_AUTH_MAX_def
  MOOR_SENDME_AUTH_LEN_def MOOR_CC_SENDME_TS_MAX_def MOOR_CC_CWND_INIT_def MOOR_CC_CWND_MIN_def MOOR_CC_CWND_MAX_def
  MOOR_CC_SSTHRESH_INIT_def

text \<open>
  The window and the cells in flight add up to 1000; one digest and one time stamp is pending
  for every full hundred in flight.
\<close>

definition window_inv :: "flow_circ \<Rightarrow> bool" where
  "window_inv c \<longleftrightarrow> 0 < fc_num_hops c \<and> 0 \<le> fc_inflight c \<and> 0 \<le> fc_circ_package_window c \<and>
    fc_inflight c + fc_circ_package_window c = 1000 \<and>
    int (fc_sendme_auth_count c) = fc_inflight c div 100 \<and> int (fc_sendme_ts_count c) = fc_inflight c div 100"

text \<open>The congestion window stays in its range; measured round-trip times are below a minute.\<close>

definition cc_inv :: "flow_circ \<Rightarrow> bool" where
  "cc_inv c \<longleftrightarrow> 100 \<le> fc_cwnd c \<and> fc_cwnd c \<le> 2000 \<and> 20 \<le> fc_ssthresh c \<and> fc_ssthresh c \<le> 2100 \<and>
    0 \<le> fc_bdp c \<and> fc_bdp c \<le> 2000 \<and>
    (if fc_rtt_initialized c
     then 0 < uint (fc_srtt_us c) \<and> uint (fc_srtt_us c) < 60000000 \<and> fc_min_rtt_us c \<le> fc_srtt_us c
     else fc_min_rtt_us c = UINT64_MAX)"

lemma flow_send_cell_fields:
  assumes "flow_send_cell env cell c = (ok, c')"
  shows "\<exists>hs cs. c' = c\<lparr>fc_hops := hs, fc_sent := cs\<rparr>"
proof -
  obtain b hs p where e: "moor_circuit_encrypt_forward (fe_chacha env) (fe_blake2b env) (fc_num_hops c) (fc_hops c) (c_payload cell) = (b, hs, p)"
    by (metis prod_cases3)
  have "c' = c\<lparr>fc_hops := hs, fc_sent := fc_sent c'\<rparr>"
    using assms by (auto simp: flow_send_cell_def e Let_def split: if_splits)
  then show ?thesis by blast
qed

lemma inv_update_sent:
  "window_inv (c\<lparr>fc_hops := hs, fc_sent := cs\<rparr>) = window_inv c" "cc_inv (c\<lparr>fc_hops := hs, fc_sent := cs\<rparr>) = cc_inv c"
  by (simp_all add: window_inv_def cc_inv_def)

lemma spend_stream_frame [simp]:
  "fc_inflight (spend_stream_window st c) = fc_inflight c" "fc_circ_package_window (spend_stream_window st c) = fc_circ_package_window c"
  "fc_sendme_auth_count (spend_stream_window st c) = fc_sendme_auth_count c" "fc_sendme_ts_count (spend_stream_window st c) = fc_sendme_ts_count c"
  "fc_num_hops (spend_stream_window st c) = fc_num_hops c" "fc_sendme_auth_expected (spend_stream_window st c) = fc_sendme_auth_expected c"
  "fc_sendme_auth_head (spend_stream_window st c) = fc_sendme_auth_head c" "fc_hops (spend_stream_window st c) = fc_hops c"
  "cc_inv (spend_stream_window st c) = cc_inv c"
  by (simp_all add: spend_stream_window_def Let_def cc_inv_def split: option.split)

lemma spend_circ_frame [simp]:
  "fc_inflight (spend_circ_window c) = fc_inflight c" "fc_sendme_auth_count (spend_circ_window c) = fc_sendme_auth_count c"
  "fc_sendme_ts_count (spend_circ_window c) = fc_sendme_ts_count c" "fc_num_hops (spend_circ_window c) = fc_num_hops c"
  "fc_sendme_auth_expected (spend_circ_window c) = fc_sendme_auth_expected c" "fc_sendme_auth_head (spend_circ_window c) = fc_sendme_auth_head c"
  "fc_hops (spend_circ_window c) = fc_hops c" "cc_inv (spend_circ_window c) = cc_inv c"
  by (simp_all add: spend_circ_window_def cc_inv_def)

lemma record_frame [simp]:
  "fc_inflight (record_timestamp t c) = fc_inflight c" "fc_circ_package_window (record_timestamp t c) = fc_circ_package_window c"
  "fc_sendme_auth_count (record_timestamp t c) = fc_sendme_auth_count c" "fc_num_hops (record_timestamp t c) = fc_num_hops c"
  "fc_sendme_auth_expected (record_timestamp t c) = fc_sendme_auth_expected c" "fc_sendme_auth_head (record_timestamp t c) = fc_sendme_auth_head c"
  "fc_hops (record_timestamp t c) = fc_hops c" "cc_inv (record_timestamp t c) = cc_inv c"
  "fc_inflight (record_auth c) = fc_inflight c" "fc_circ_package_window (record_auth c) = fc_circ_package_window c"
  "fc_sendme_ts_count (record_auth c) = fc_sendme_ts_count c" "fc_num_hops (record_auth c) = fc_num_hops c" "cc_inv (record_auth c) = cc_inv c"
  by (simp_all add: record_timestamp_def record_auth_def cc_inv_def)

lemma count_inflight_simps [simp]:
  "fc_inflight (count_inflight c) = fc_inflight c + 1" "fc_circ_package_window (count_inflight c) = fc_circ_package_window c"
  "fc_sendme_auth_count (count_inflight c) = fc_sendme_auth_count c" "fc_sendme_ts_count (count_inflight c) = fc_sendme_ts_count c"
  "fc_num_hops (count_inflight c) = fc_num_hops c" "fc_sendme_auth_expected (count_inflight c) = fc_sendme_auth_expected c"
  "fc_sendme_auth_head (count_inflight c) = fc_sendme_auth_head c" "fc_hops (count_inflight c) = fc_hops c" "cc_inv (count_inflight c) = cc_inv c"
  by (simp_all add: count_inflight_def cc_inv_def)

lemma div_succ_100: "(x + 1) div 100 = x div 100 + (if (x + 1) mod 100 = 0 then 1 else 0)" for x :: int
proof -
  define q r where "q = x div 100" and "r = x mod 100"
  have x: "x = 100 * q + r" and r: "0 \<le> r" "r < 100" by (simp_all add: q_def r_def)
  show ?thesis
  proof (cases "r = 99")
    case True
    then have "x + 1 = 100 * (q + 1)" using x by simp
    then have "(x + 1) div 100 = q + 1 \<and> (x + 1) mod 100 = 0" by simp
    then show ?thesis by (simp add: q_def)
  next
    case False
    then have e: "x + 1 = 100 * q + (r + 1)" "0 \<le> r + 1" "r + 1 < 100" using x r by simp_all
    have "(x + 1) div 100 = q \<and> (x + 1) mod 100 = r + 1" unfolding e(1) using e(2,3) by simp
    then show ?thesis using r by (simp add: q_def)
  qed
qed

lemma note_sent_window:
  assumes "window_inv c" and "fc_circ_package_window c > 0"
  shows "window_inv (note_sent env stream c)"
proof -
  from assms have b: "0 \<le> fc_inflight c" "fc_inflight c < 1000" by (simp_all add: window_inv_def)
  note d = div_succ_100 [of "fc_inflight c"]
  have l: "fc_inflight c div 100 < 10" using b by linarith
  let ?c = "spend_stream_window stream (spend_circ_window (count_inflight c))"
  have w: "fc_circ_package_window ?c = fc_circ_package_window c - 1" using assms(2) by (simp add: spend_circ_window_def)
  show ?thesis
  proof (cases "(fc_inflight c + 1) mod 100 = 0")
    case True
    have "note_sent env stream c = record_auth (record_timestamp (fe_clock env (fc_sent ?c)) ?c)"
      using True b by (simp add: note_sent_def Let_def MOOR_SENDME_INCREMENT_def)
    then show ?thesis using assms d l w True
      by (simp add: window_inv_def) (simp add: record_auth_def record_timestamp_def flow_consts)
  next
    case False
    then have "note_sent env stream c = ?c" by (simp add: note_sent_def Let_def MOOR_SENDME_INCREMENT_def)
    then show ?thesis using assms d w False by (simp add: window_inv_def)
  qed
qed

lemma note_sent_cc: "cc_inv c \<Longrightarrow> cc_inv (note_sent env stream c)"
  by (simp add: note_sent_def Let_def)

lemma send_data_loop_inv:
  "window_inv c \<Longrightarrow> cc_inv c \<Longrightarrow> send_data_loop env sid stream sent data c = (r, c') \<Longrightarrow> window_inv c' \<and> cc_inv c'"
proof (induction env sid stream sent data c arbitrary: r c' rule: send_data_loop.induct)
  case (1 env sid stream sent data c)
  show ?case
  proof (cases "data = [] \<or> fc_circ_package_window c \<le> 0 \<or>
      (case stream of None \<Rightarrow> False | Some i \<Rightarrow> st_package_window (fc_streams c ! i) \<le> 0)")
    case True
    then show ?thesis using 1(2-4) by (auto simp: send_data_loop.simps [of env sid stream sent data c] split: if_splits)
  next
    case False
    let ?chunk = "min (length data) MOOR_RELAY_DATA"
    let ?cell = "moor_cell_relay (fc_circuit_id c) (relay_cmd_code RELAY_DATA) sid (Some data) (of_nat ?chunk)"
    obtain ok c1 where s: "flow_send_cell env ?cell c = (ok, c1)" by (cases "flow_send_cell env ?cell c")
    from flow_send_cell_fields [OF s] obtain hs cs where c1: "c1 = c\<lparr>fc_hops := hs, fc_sent := cs\<rparr>" by blast
    have i1: "window_inv c1" "cc_inv c1" using 1(2,3) by (simp_all add: c1 inv_update_sent)
    have pos: "fc_circ_package_window c1 > 0" using False by (simp add: c1)
    show ?thesis
    proof (cases ok)
      case True
      have "send_data_loop env sid stream (sent + ?chunk) (drop ?chunk data) (note_sent env stream c1) = (r, c')"
        using 1(4) False s True by (simp add: send_data_loop.simps [of env sid stream sent data c] Let_def)
      from 1(1) [OF _ _ _ refl refl s [symmetric] _ note_sent_window [OF i1(1) pos] note_sent_cc [OF i1(2)] this] False True
      show ?thesis by auto
    next
      case F: False
      then show ?thesis using 1(4) False s i1 by (auto simp: send_data_loop.simps [of env sid stream sent data c] Let_def)
    qed
  qed
qed

text \<open>Round-trip estimates.\<close>

lemma sint_small: "uint (w :: u64) < 9223372036854775808 \<Longrightarrow> sint w = uint w"
  unfolding sint_uint by (rule signed_take_bit_int_eq_self) (simp_all add: order_trans [of _ 0])

lemma uint_of_small: "0 \<le> k \<Longrightarrow> k < 18446744073709551616 \<Longrightarrow> uint (word_of_int k :: u64) = k"
  by (simp add: uint_word_of_int)

lemma sdiv8_between:
  fixes r m :: int
  assumes "0 < r" "0 < m"
  shows "0 < m + (r - m) sdiv 8" and "m + (r - m) sdiv 8 \<le> max r m"
proof -
  have "(r - m) sdiv 8 = (if r \<ge> m then (r - m) div 8 else - ((m - r) div 8))"
    by (simp add: signed_divide_int_def sgn_if)
  then show "0 < m + (r - m) sdiv 8" "m + (r - m) sdiv 8 \<le> max r m"
    using assms by (auto simp: max_def)
qed

lemma update_rtt_inv:
  assumes "0 < uint r" "uint r < 60000000" and "fc_rtt_initialized c \<longrightarrow> 0 < uint (fc_srtt_us c) \<and> uint (fc_srtt_us c) < 60000000"
  shows "0 < uint (fc_srtt_us (update_rtt r c))" "uint (fc_srtt_us (update_rtt r c)) < 60000000"
proof -
  have "0 < uint (fc_srtt_us (update_rtt r c)) \<and> uint (fc_srtt_us (update_rtt r c)) < 60000000"
  proof (cases "fc_rtt_initialized c")
    case True
    let ?m = "uint (fc_srtt_us c)" let ?k = "?m + (uint r - ?m) sdiv 8"
    have m: "0 < ?m" "?m < 60000000" using assms(3) True by simp_all
    have k: "0 < ?k" "?k < 60000000" using sdiv8_between [OF assms(1) m(1)] assms(2) m(2) by (auto simp: max_def split: if_splits)
    have "fc_srtt_us (update_rtt r c) = word_of_int ?k"
      using True assms m by (simp add: update_rtt_def Let_def sint_small)
    then show ?thesis using k uint_of_small [of ?k] by simp
  qed (use assms in \<open>simp add: update_rtt_def\<close>)
  then show "0 < uint (fc_srtt_us (update_rtt r c))" "uint (fc_srtt_us (update_rtt r c)) < 60000000" by simp_all
qed

lemma update_rtt_frame:
  "fc_rtt_initialized (update_rtt r c)" "fc_cwnd (update_rtt r c) = fc_cwnd c" "fc_ssthresh (update_rtt r c) = fc_ssthresh c"
  "fc_bdp (update_rtt r c) = fc_bdp c" "fc_min_rtt_us (update_rtt r c) = fc_min_rtt_us c"
  "fc_inflight (update_rtt r c) = fc_inflight c" "fc_circ_package_window (update_rtt r c) = fc_circ_package_window c"
  "fc_sendme_auth_count (update_rtt r c) = fc_sendme_auth_count c" "fc_sendme_ts_count (update_rtt r c) = fc_sendme_ts_count c"
  "fc_num_hops (update_rtt r c) = fc_num_hops c"
  by (simp_all add: update_rtt_def Let_def)

lemma measure_rtt_frame:
  "fc_cwnd (measure_rtt t c) = fc_cwnd c" "fc_ssthresh (measure_rtt t c) = fc_ssthresh c" "fc_bdp (measure_rtt t c) = fc_bdp c"
  "fc_min_rtt_us (measure_rtt t c) = fc_min_rtt_us c" "fc_inflight (measure_rtt t c) = fc_inflight c"
  "fc_circ_package_window (measure_rtt t c) = fc_circ_package_window c"
  "fc_sendme_auth_count (measure_rtt t c) = fc_sendme_auth_count c"
  "fc_sendme_ts_count (measure_rtt t c) = fc_sendme_ts_count c - 1" "fc_num_hops (measure_rtt t c) = fc_num_hops c"
  by (simp_all add: measure_rtt_def update_rtt_frame Let_def)

lemma measure_rtt_inv:
  assumes "fc_rtt_initialized c \<longrightarrow> 0 < uint (fc_srtt_us c) \<and> uint (fc_srtt_us c) < 60000000"
  shows "fc_rtt_initialized (measure_rtt t c) \<longrightarrow>
    0 < uint (fc_srtt_us (measure_rtt t c)) \<and> uint (fc_srtt_us (measure_rtt t c)) < 60000000"
proof -
  have u: "fc_rtt_initialized c1 \<longrightarrow> 0 < uint (fc_srtt_us c1) \<and> uint (fc_srtt_us c1) < 60000000 \<Longrightarrow> r > 0 \<Longrightarrow> r < 60000000 \<Longrightarrow>
      0 < uint (fc_srtt_us (update_rtt r c1)) \<and> uint (fc_srtt_us (update_rtt r c1)) < 60000000" for c1 and r :: u64
    using update_rtt_inv [of r c1] by (simp add: word_less_def)
  define x where "x = fc_sendme_timestamps c ! ring_tail MOOR_CC_SENDME_TS_MAX (fc_sendme_ts_head c) (fc_sendme_ts_count c)"
  define r where "r = (t - x) * 1000"
  define c1 where "c1 = c\<lparr>fc_sendme_ts_count := fc_sendme_ts_count c - 1\<rparr>"
  have a1: "fc_rtt_initialized c1 \<longrightarrow> 0 < uint (fc_srtt_us c1) \<and> uint (fc_srtt_us c1) < 60000000" using assms by (simp add: c1_def)
  have "measure_rtt t c = (if fc_sendme_ts_count c > 0 then if t > x then if r > 0 \<and> r < 60000000 then update_rtt r c1 else c1 else c1 else c)"
    by (simp only: measure_rtt_def x_def r_def c1_def Let_def)
  then show ?thesis using u [OF a1] a1 assms by (simp split: if_split)
qed

lemma estimate_queue_bounds:
  assumes "100 \<le> fc_cwnd c" "fc_cwnd c \<le> 2000" and "0 \<le> fc_bdp c" "fc_bdp c \<le> 2000"
    and "fc_rtt_initialized c \<longrightarrow> 0 < uint (fc_srtt_us c) \<and> uint (fc_srtt_us c) < 60000000 \<and> fc_min_rtt_us c \<le> fc_srtt_us c"
    and e: "estimate_queue c = (q, c')"
  shows "0 \<le> q \<and> q \<le> 2000 \<and> (\<exists>b. c' = c\<lparr>fc_bdp := b\<rparr> \<and> 0 \<le> b \<and> b \<le> 2000)"
proof (cases "fc_rtt_initialized c \<and> fc_srtt_us c > 0 \<and> fc_min_rtt_us c \<noteq> UINT64_MAX")
  case True
  let ?m = "uint (fc_min_rtt_us c)" and ?s = "uint (fc_srtt_us c)"
  have b: "0 < ?s" "?s < 60000000" "?m \<le> ?s" "0 \<le> ?m" using assms(5) True by (simp_all add: word_le_def)
  have sm: "sint (fc_min_rtt_us c) = ?m" "sint (fc_srtt_us c) = ?s" using b by (simp_all add: sint_small)
  have d: "(fc_cwnd c * ?m) sdiv ?s = (fc_cwnd c * ?m) div ?s"
    using b assms(1) by (simp add: signed_divide_int_def sgn_if)
  have "0 \<le> (fc_cwnd c * ?m) div ?s" using b assms(1) by (intro pos_imp_zdiv_nonneg_iff [THEN iffD2]) simp_all
  moreover have "(fc_cwnd c * ?m) div ?s \<le> (fc_cwnd c * ?s) div ?s" using b assms(1) by (intro zdiv_mono1 mult_left_mono) simp_all
  then have "(fc_cwnd c * ?m) div ?s \<le> fc_cwnd c" using b by simp
  ultimately show ?thesis using e True assms(1,2) by (auto simp: estimate_queue_def Let_def sm d)
next
  case False
  then have "q = 0" "c' = c\<lparr>fc_bdp := fc_bdp c\<rparr>" using e by (auto simp: estimate_queue_def)
  then show ?thesis using assms(3,4) by (intro conjI exI [of _ "fc_bdp c"]) simp_all
qed

lemma cc_params_range: "20 \<le> ccp_gamma (cc_params_for c)" "ccp_gamma (cc_params_for c) \<le> 100"
  by (simp_all add: cc_params_for_def)

lemma slow_start_result:
  assumes "100 \<le> fc_cwnd c" "fc_cwnd c \<le> 2000" "0 \<le> fc_bdp c" "20 \<le> fc_ssthresh c" "fc_ssthresh c \<le> 2100"
  shows "\<exists>w st th. slow_start q c = c\<lparr>fc_cwnd := w, fc_cc_state := st, fc_ssthresh := th\<rparr> \<and> 20 \<le> th \<and> th \<le> 2100"
proof -
  define ex1 where "ex1 = (fc_rtt_initialized c \<and> q > ccp_gamma (cc_params_for c))"
  define w1 where "w1 = (if ex1 \<and> fc_bdp c + ccp_gamma (cc_params_for c) < fc_cwnd c then fc_bdp c + ccp_gamma (cc_params_for c) else fc_cwnd c)"
  define ex2 where "ex2 = (ex1 \<or> fc_rtt_initialized c \<and> fc_min_rtt_us c \<noteq> UINT64_MAX \<and>
                    fc_srtt_us c > fc_min_rtt_us c * (100 + MOOR_CC_SS_RTT_EXIT_PCT) div 100)"
  define w2 where "w2 = (if ex2 then w1 else w1 + MOOR_SENDME_INCREMENT)"
  have w: "20 \<le> w2 \<and> w2 \<le> 2100" using assms cc_params_range [of c] by (auto simp: w2_def w1_def MOOR_SENDME_INCREMENT_def)
  have e: "slow_start q c = (if ex2 \<or> w2 \<ge> fc_ssthresh c
      then c\<lparr>fc_cwnd := w2, fc_cc_state := MOOR_CC_CONG_AVOIDANCE, fc_ssthresh := w2\<rparr> else c\<lparr>fc_cwnd := w2\<rparr>)"
    by (simp only: slow_start_def ex1_def w1_def ex2_def w2_def Let_def)
  show ?thesis
  proof (cases "ex2 \<or> w2 \<ge> fc_ssthresh c")
    case True
    then show ?thesis unfolding e using w by auto
  next
    case False
    then have "slow_start q c = c\<lparr>fc_cwnd := w2, fc_cc_state := fc_cc_state c, fc_ssthresh := fc_ssthresh c\<rparr>" unfolding e by simp
    then show ?thesis using assms by blast
  qed
qed

lemma cong_avoidance_result: "\<exists>w. cong_avoidance q c = c\<lparr>fc_cwnd := w\<rparr>"
proof -
  have "cong_avoidance q c = c\<lparr>fc_cwnd := fc_cwnd (cong_avoidance q c)\<rparr>" by (simp add: cong_avoidance_def Let_def)
  then show ?thesis by blast
qed

lemma adjust_cwnd_bounds:
  assumes "100 \<le> fc_cwnd c" "fc_cwnd c \<le> 2000" "0 \<le> fc_bdp c" "fc_bdp c \<le> 2000" "20 \<le> fc_ssthresh c" "fc_ssthresh c \<le> 2100"
  shows "\<exists>w st th. adjust_cwnd q c = c\<lparr>fc_cwnd := w, fc_cc_state := st, fc_ssthresh := th\<rparr> \<and> 20 \<le> th \<and> th \<le> 2100"
proof (cases "fc_cc_state c")
  case MOOR_CC_SLOW_START
  then show ?thesis using slow_start_result [OF assms(1-3,5,6), of q] by (simp add: adjust_cwnd_def)
next
  case MOOR_CC_CONG_AVOIDANCE
  obtain w where "cong_avoidance q c = c\<lparr>fc_cwnd := w\<rparr>" using cong_avoidance_result by blast
  then have "adjust_cwnd q c = c\<lparr>fc_cwnd := w, fc_cc_state := fc_cc_state c, fc_ssthresh := fc_ssthresh c\<rparr>"
    using MOOR_CC_CONG_AVOIDANCE by (simp add: adjust_cwnd_def)
  then show ?thesis using assms by blast
qed

lemma clamp_cwnd_bounds: "100 \<le> fc_cwnd (clamp_cwnd c) \<and> fc_cwnd (clamp_cwnd c) \<le> 2000"
  by (simp add: clamp_cwnd_def flow_consts Let_def)

lemma clamp_cwnd_frame:
  "fc_ssthresh (clamp_cwnd c) = fc_ssthresh c" "fc_bdp (clamp_cwnd c) = fc_bdp c" "fc_min_rtt_us (clamp_cwnd c) = fc_min_rtt_us c"
  "fc_srtt_us (clamp_cwnd c) = fc_srtt_us c" "fc_rtt_initialized (clamp_cwnd c) = fc_rtt_initialized c"
  "fc_inflight (clamp_cwnd c) = fc_inflight c" "fc_circ_package_window (clamp_cwnd c) = fc_circ_package_window c"
  "fc_sendme_auth_count (clamp_cwnd c) = fc_sendme_auth_count c" "fc_sendme_ts_count (clamp_cwnd c) = fc_sendme_ts_count c"
  "fc_num_hops (clamp_cwnd c) = fc_num_hops c"
  by (simp_all add: clamp_cwnd_def Let_def)

lemma sendme_cc_inv:
  assumes "cc_inv c"
  shows "cc_inv (sendme_cc t c)" and "fc_inflight (sendme_cc t c) = fc_inflight c"
    "fc_circ_package_window (sendme_cc t c) = fc_circ_package_window c" "fc_sendme_auth_count (sendme_cc t c) = fc_sendme_auth_count c"
    "fc_sendme_ts_count (sendme_cc t c) = fc_sendme_ts_count c - 1" "fc_num_hops (sendme_cc t c) = fc_num_hops c"
proof -
  define c1 where "c1 = measure_rtt t c"
  define c2 where "c2 = (if fc_rtt_initialized c1 \<and> fc_srtt_us c1 < fc_min_rtt_us c1 then c1\<lparr>fc_min_rtt_us := fc_srtt_us c1\<rparr> else c1)"
  obtain q c3 where e: "estimate_queue c2 = (q, c3)" by (cases "estimate_queue c2")
  have r1: "fc_rtt_initialized c1 \<longrightarrow> 0 < uint (fc_srtt_us c1) \<and> uint (fc_srtt_us c1) < 60000000"
    unfolding c1_def by (rule measure_rtt_inv) (use assms in \<open>simp add: cc_inv_def\<close>)
  have ini: "fc_rtt_initialized c \<longrightarrow> fc_rtt_initialized c1"
    by (simp add: c1_def measure_rtt_def update_rtt_frame Let_def)
  have r2: "fc_rtt_initialized c2 \<longrightarrow> 0 < uint (fc_srtt_us c2) \<and> uint (fc_srtt_us c2) < 60000000 \<and> fc_min_rtt_us c2 \<le> fc_srtt_us c2"
    using r1 by (auto simp: c2_def)
  have n2: "\<not> fc_rtt_initialized c2 \<longrightarrow> fc_min_rtt_us c2 = UINT64_MAX"
    using assms ini by (auto simp: c2_def cc_inv_def) (simp_all add: c1_def measure_rtt_frame)
  have f2: "fc_cwnd c2 = fc_cwnd c" "fc_ssthresh c2 = fc_ssthresh c" "fc_bdp c2 = fc_bdp c" "fc_inflight c2 = fc_inflight c"
    "fc_circ_package_window c2 = fc_circ_package_window c" "fc_sendme_auth_count c2 = fc_sendme_auth_count c"
    "fc_sendme_ts_count c2 = fc_sendme_ts_count c - 1" "fc_num_hops c2 = fc_num_hops c"
    by (simp_all add: c2_def c1_def measure_rtt_frame)
  from estimate_queue_bounds [OF _ _ _ _ r2 e] assms f2 obtain b where b: "c3 = c2\<lparr>fc_bdp := b\<rparr>" "0 \<le> b" "b \<le> 2000"
    by (auto simp: cc_inv_def)
  define c4 where "c4 = c3\<lparr>fc_sendme_ack_count := fc_sendme_ack_count c3 + 1\<rparr>"
  have "100 \<le> fc_cwnd c4" "fc_cwnd c4 \<le> 2000" "0 \<le> fc_bdp c4" "fc_bdp c4 \<le> 2000" "20 \<le> fc_ssthresh c4" "fc_ssthresh c4 \<le> 2100"
    using assms f2 b by (simp_all add: c4_def cc_inv_def)
  from adjust_cwnd_bounds [OF this, of q] obtain w st th where
    ad: "adjust_cwnd q c4 = c4\<lparr>fc_cwnd := w, fc_cc_state := st, fc_ssthresh := th\<rparr>" "20 \<le> th" "th \<le> 2100" by blast
  have e6: "sendme_cc t c = (let c5 = (clamp_cwnd (adjust_cwnd q c4))\<lparr>fc_cwnd_full := False\<rparr>;
      c6 = (if fc_cwnd c5 = MOOR_CC_CWND_MIN \<and> fc_cc_state c5 = MOOR_CC_CONG_AVOIDANCE \<and> fc_rtt_initialized c5
            then c5\<lparr>fc_min_rtt_us := fc_srtt_us c5\<rparr> else c5)
      in if fc_is_client c6 then c6\<lparr>fc_resumes := fc_resumes c6 + 1\<rparr> else c6)"
    using e unfolding sendme_cc_def c1_def [symmetric] Let_def c2_def [symmetric] c4_def by simp
  show "cc_inv (sendme_cc t c)"
    unfolding e6 using ad clamp_cwnd_bounds [of "adjust_cwnd q c4"] r2 n2 b by (auto simp: cc_inv_def clamp_cwnd_frame Let_def c4_def)
  show "fc_inflight (sendme_cc t c) = fc_inflight c"
    "fc_circ_package_window (sendme_cc t c) = fc_circ_package_window c" "fc_sendme_auth_count (sendme_cc t c) = fc_sendme_auth_count c"
    "fc_sendme_ts_count (sendme_cc t c) = fc_sendme_ts_count c - 1" "fc_num_hops (sendme_cc t c) = fc_num_hops c"
    unfolding e6 using ad f2 b by (simp_all add: clamp_cwnd_frame Let_def c4_def)
qed
lemma handle_sendme_inv:
  assumes w: "window_inv c" and cc: "cc_inv c"
  shows "window_inv (snd (moor_circuit_handle_sendme env sid d c)) \<and> cc_inv (snd (moor_circuit_handle_sendme env sid d c))"
proof (cases "sid = 0")
  case True
  define c3 where "c3 = c\<lparr>fc_sendme_auth_count := fc_sendme_auth_count c - 1,
    fc_inflight := (if fc_inflight c \<ge> MOOR_SENDME_INCREMENT then fc_inflight c - MOOR_SENDME_INCREMENT else 0),
    fc_circ_package_window := cap_add MOOR_CIRCUIT_WINDOW (fc_circ_package_window c)\<rparr>"
  have r: "snd (moor_circuit_handle_sendme env sid d c) \<in> {c, sendme_cc (fe_clock env (fc_sent c3)) c3}"
    by (simp add: True moor_circuit_handle_sendme_def c3_def Let_def)
  have "window_inv (sendme_cc t c3) \<and> cc_inv (sendme_cc t c3)" if "fc_sendme_auth_count c > 0" for t
  proof -
    have cc3: "cc_inv c3" using cc by (simp add: c3_def cc_inv_def)
    from w that have "fc_inflight c div 100 \<ge> 1" by (simp add: window_inv_def)
    then have i: "100 \<le> fc_inflight c" by linarith
    have "(fc_inflight c - 100) div 100 = fc_inflight c div 100 - 1" by (simp add: minus_div_mult_eq_mod [symmetric])
    then have "window_inv (sendme_cc t c3)"
      using w i that sendme_cc_inv [OF cc3, of t] by (simp add: window_inv_def c3_def cap_add_def flow_consts)
    with sendme_cc_inv(1) [OF cc3] show ?thesis by simp
  qed
  moreover have "fc_sendme_auth_count c = 0 \<Longrightarrow> snd (moor_circuit_handle_sendme env sid d c) = c"
    by (simp add: True moor_circuit_handle_sendme_def)
  ultimately show ?thesis using r w cc by (cases "fc_sendme_auth_count c = 0") auto
next
  case False
  then show ?thesis using w cc
    by (auto simp: moor_circuit_handle_sendme_def window_inv_def cc_inv_def Let_def split: option.split)
qed

lemma flow_inv_frame:
  assumes "window_inv c \<and> cc_inv c" and "fc_num_hops c' = fc_num_hops c" "fc_inflight c' = fc_inflight c"
    "fc_circ_package_window c' = fc_circ_package_window c" "fc_sendme_auth_count c' = fc_sendme_auth_count c"
    "fc_sendme_ts_count c' = fc_sendme_ts_count c" "fc_cwnd c' = fc_cwnd c" "fc_ssthresh c' = fc_ssthresh c" "fc_bdp c' = fc_bdp c"
    "fc_rtt_initialized c' = fc_rtt_initialized c" "fc_srtt_us c' = fc_srtt_us c" "fc_min_rtt_us c' = fc_min_rtt_us c"
  shows "window_inv c' \<and> cc_inv c'"
  using assms by (simp add: window_inv_def cc_inv_def)

lemma maybe_send_sendme_inv:
  assumes "window_inv c \<and> cc_inv c"
  shows "window_inv (snd (moor_circuit_maybe_send_sendme env sid c)) \<and> cc_inv (snd (moor_circuit_maybe_send_sendme env sid c))"
  by (rule flow_inv_frame [OF assms])
    (auto simp: moor_circuit_maybe_send_sendme_def Let_def split: option.split prod.split dest!: flow_send_cell_fields)

lemma open_stream_inv:
  assumes "window_inv c \<and> cc_inv c"
  shows "window_inv (snd (moor_circuit_open_stream env addr port c)) \<and> cc_inv (snd (moor_circuit_open_stream env addr port c))"
  by (rule flow_inv_frame [OF assms])
    (auto simp: moor_circuit_open_stream_def Let_def split: option.split prod.split dest!: flow_send_cell_fields)

section \<open>Runs\<close>

datatype (plugins only: code size) flow_op =
    Flow_open bytes u16
  | Flow_send u16 bytes
  | Flow_sendme u16 bytes
  | Flow_deliver u16

fun flow_step :: "flow_env \<Rightarrow> flow_op \<Rightarrow> flow_circ \<Rightarrow> flow_circ" where
  "flow_step env (Flow_open addr port) c = snd (moor_circuit_open_stream env addr port c)"
| "flow_step env (Flow_send sid data) c = snd (moor_circuit_send_data env sid data c)"
| "flow_step env (Flow_sendme sid d) c = snd (moor_circuit_handle_sendme env sid d c)"
| "flow_step env (Flow_deliver sid) c = snd (moor_circuit_maybe_send_sendme env sid c)"

text \<open>A circuit as \<open>calloc\<close> and \<open>circ_init_fields\<close> leave it, once its hops are set.\<close>

definition fresh_flow :: "flow_circ \<Rightarrow> bool" where
  "fresh_flow c \<longleftrightarrow> 0 < fc_num_hops c \<and> fc_inflight c = 0 \<and> fc_sendme_auth_count c = 0 \<and> fc_sendme_ts_count c = 0 \<and>
    \<not> fc_rtt_initialized c \<and> fc_bdp c = 0 \<and> length (fc_sendme_auth_expected c) = MOOR_SENDME_AUTH_MAX \<and> fc_sendme_auth_head c = 0"

lemma fresh_flow_inv: "fresh_flow c \<Longrightarrow> window_inv (flow_init_fields c) \<and> cc_inv (flow_init_fields c)"
  by (simp add: fresh_flow_def flow_init_fields_def window_inv_def cc_inv_def flow_consts)

lemma flow_step_inv: "window_inv c \<and> cc_inv c \<Longrightarrow> window_inv (flow_step env op c) \<and> cc_inv (flow_step env op c)"
proof (cases op)
  case (Flow_send sid data)
  assume i: "window_inv c \<and> cc_inv c"
  show ?thesis
    using i send_data_loop_inv [of c env sid "moor_circuit_find_stream c sid" 0 data]
    by (cases "send_data_loop env sid (moor_circuit_find_stream c sid) 0 data c") (simp add: Flow_send moor_circuit_send_data_def)
qed (simp_all add: open_stream_inv handle_sendme_inv maybe_send_sendme_inv)

lemma flow_run_inv:
  "window_inv c \<and> cc_inv c \<Longrightarrow> window_inv (fold (flow_step env) ops c) \<and> cc_inv (fold (flow_step env) ops c)"
  by (induction ops arbitrary: c) (simp_all add: flow_step_inv)

section \<open>The expected digests as a queue\<close>

text \<open>The live part of a ring of \<open>n\<close> slots, oldest first.\<close>

definition ring_list :: "nat \<Rightarrow> 'a list \<Rightarrow> nat \<Rightarrow> nat \<Rightarrow> 'a list" where
  "ring_list n xs head count = map (\<lambda>k. xs ! ((head + n - count + k) mod n)) [0..<count]"

lemma ring_list_put:
  assumes "head < n" and "count < n" and "length xs = n"
  shows "ring_list n (xs[head := x]) ((head + 1) mod n) (count + 1) = ring_list n xs head count @ [x]"
proof (rule nth_equalityI)
  fix k assume "k < length (ring_list n (xs[head := x]) ((head + 1) mod n) (count + 1))"
  then have k: "k \<le> count" by (simp add: ring_list_def)
  have "((head + 1) mod n + n - (count + 1) + k) mod n = (head + n - count + k) mod n"
  proof (cases "head + 1 = n")
    case True
    then have e1: "(head + 1) mod n + n - (count + 1) + k = n - (count + 1) + k" by simp
    from True have e2: "head + n - count + k = (n - (count + 1) + k) + n" using assms(2) by simp
    show ?thesis unfolding e1 e2 by (rule mod_add_self2 [symmetric])
  next
    case False
    then have "(head + 1) mod n = head + 1" using assms(1) by simp
    then show ?thesis using assms(2) by (simp add: algebra_simps)
  qed
  moreover have "(head + n - count + k) mod n = head \<longleftrightarrow> k = count"
  proof -
    have "(head + n - count + k) mod n = (if k < count \<and> head < count - k then head + n - (count - k) else if k = count then head else head - (count - k))"
      using assms(1,2) k by (auto simp: mod_if)
    then show ?thesis using assms k by auto
  qed
  moreover have "(head + n - count + k) mod n < n" using assms(1) by simp
  ultimately show "ring_list n (xs[head := x]) ((head + 1) mod n) (count + 1) ! k = (ring_list n xs head count @ [x]) ! k"
    using k assms(3) by (auto simp: ring_list_def nth_append nth_list_update less_Suc_eq simp del: upt_Suc)
qed (simp add: ring_list_def)

lemma ring_list_pop:
  assumes "0 < count" and "count \<le> n"
  shows "ring_list n xs head count = xs ! ring_tail n head count # ring_list n xs head (count - 1)"
proof (rule nth_equalityI)
  fix k assume "k < length (ring_list n xs head count)"
  then have k: "k < count" by (simp add: ring_list_def)
  then show "ring_list n xs head count ! k = (xs ! ring_tail n head count # ring_list n xs head (count - 1)) ! k"
    using assms by (cases k) (auto simp: ring_list_def ring_tail_def)
qed (use assms in \<open>simp add: ring_list_def\<close>)

definition pending_digests :: "flow_circ \<Rightarrow> bytes list" where
  "pending_digests c = ring_list MOOR_SENDME_AUTH_MAX (fc_sendme_auth_expected c) (fc_sendme_auth_head c) (fc_sendme_auth_count c)"

definition last_digest :: "flow_circ \<Rightarrow> bytes" where
  "last_digest c = take MOOR_SENDME_AUTH_LEN (h_forward_digest (fc_hops c ! (fc_num_hops c - 1)))"

definition ring_inv :: "flow_circ \<Rightarrow> bool" where
  "ring_inv c \<longleftrightarrow> length (fc_sendme_auth_expected c) = MOOR_SENDME_AUTH_MAX \<and> fc_sendme_auth_head c < MOOR_SENDME_AUTH_MAX"
lemma sendme_cc_rings:
  "fc_sendme_auth_expected (sendme_cc t c) = fc_sendme_auth_expected c" "fc_sendme_auth_head (sendme_cc t c) = fc_sendme_auth_head c"
proof -
  have m: "fc_sendme_auth_expected (measure_rtt t c) = fc_sendme_auth_expected c \<and> fc_sendme_auth_head (measure_rtt t c) = fc_sendme_auth_head c" for c
    by (simp add: measure_rtt_def update_rtt_def Let_def)
  have e: "estimate_queue c = (q, c') \<Longrightarrow> fc_sendme_auth_expected c' = fc_sendme_auth_expected c \<and> fc_sendme_auth_head c' = fc_sendme_auth_head c" for c q c'
    by (auto simp: estimate_queue_def Let_def split: if_splits)
  have s: "fc_sendme_auth_expected (slow_start q c) = fc_sendme_auth_expected c \<and> fc_sendme_auth_head (slow_start q c) = fc_sendme_auth_head c" for q c
    by (simp add: slow_start_def Let_def)
  have a: "fc_sendme_auth_expected (clamp_cwnd (adjust_cwnd q c)) = fc_sendme_auth_expected c \<and>
      fc_sendme_auth_head (clamp_cwnd (adjust_cwnd q c)) = fc_sendme_auth_head c" for q c
    by (simp add: clamp_cwnd_def adjust_cwnd_def cong_avoidance_def s Let_def split: cc_state.split)
  show "fc_sendme_auth_expected (sendme_cc t c) = fc_sendme_auth_expected c" "fc_sendme_auth_head (sendme_cc t c) = fc_sendme_auth_head c"
    by (auto simp: sendme_cc_def Let_def a m split: prod.split dest!: e)
qed

lemma note_sent_ring:
  assumes "ring_inv c" and "window_inv c" and "fc_circ_package_window c > 0"
  shows "ring_inv (note_sent env st c)"
    and "pending_digests (note_sent env st c) =
      (if (fc_inflight c + 1) mod 100 = 0 then pending_digests c @ [last_digest c] else pending_digests c)"
proof -
  from assms(2,3) have b: "0 \<le> fc_inflight c" "fc_inflight c < 1000" by (simp_all add: window_inv_def)
  have "fc_inflight c div 100 < 10" using b by linarith
  then have cnt: "fc_sendme_auth_count c < 10" "0 < fc_num_hops c" using assms(2) by (simp_all add: window_inv_def)
  let ?c = "spend_stream_window st (spend_circ_window (count_inflight c))"
  let ?d = "record_auth (record_timestamp (fe_clock env (fc_sent ?c)) ?c)"
  have n: "note_sent env st c = (if (fc_inflight c + 1) mod 100 = 0 then ?d else ?c)"
    using b by (simp add: note_sent_def Let_def MOOR_SENDME_INCREMENT_def)
  have c: "ring_inv ?c" "pending_digests ?c = pending_digests c" using assms(1) by (simp_all add: ring_inv_def pending_digests_def)
  have "fc_sendme_auth_expected ?d = (fc_sendme_auth_expected c)[fc_sendme_auth_head c := last_digest c]"
    "fc_sendme_auth_head ?d = (fc_sendme_auth_head c + 1) mod 10" "fc_sendme_auth_count ?d = fc_sendme_auth_count c + 1"
    using cnt by (simp_all add: record_auth_def last_digest_def MOOR_SENDME_AUTH_MAX_def)
  then have d: "ring_inv ?d" "pending_digests ?d = pending_digests c @ [last_digest c]"
    using assms(1) cnt ring_list_put [of "fc_sendme_auth_head c" 10 "fc_sendme_auth_count c" "fc_sendme_auth_expected c" "last_digest c"]
    by (simp_all add: ring_inv_def pending_digests_def MOOR_SENDME_AUTH_MAX_def)
  show "ring_inv (note_sent env st c)" unfolding n using c d by simp
  show "pending_digests (note_sent env st c) =
      (if (fc_inflight c + 1) mod 100 = 0 then pending_digests c @ [last_digest c] else pending_digests c)"
    unfolding n using c d by simp
qed

lemma send_data_loop_ring:
  "window_inv c \<Longrightarrow> cc_inv c \<Longrightarrow> ring_inv c \<Longrightarrow> send_data_loop env sid stream sent data c = (r, c') \<Longrightarrow> ring_inv c'"
proof (induction env sid stream sent data c arbitrary: r c' rule: send_data_loop.induct)
  case (1 env sid stream sent data c)
  show ?case
  proof (cases "data = [] \<or> fc_circ_package_window c \<le> 0 \<or>
      (case stream of None \<Rightarrow> False | Some i \<Rightarrow> st_package_window (fc_streams c ! i) \<le> 0)")
    case True
    then show ?thesis using 1(2-5) by (auto simp: send_data_loop.simps [of env sid stream sent data c] split: if_splits)
  next
    case False
    let ?chunk = "min (length data) MOOR_RELAY_DATA"
    let ?cell = "moor_cell_relay (fc_circuit_id c) (relay_cmd_code RELAY_DATA) sid (Some data) (of_nat ?chunk)"
    obtain ok c1 where s: "flow_send_cell env ?cell c = (ok, c1)" by (cases "flow_send_cell env ?cell c")
    from flow_send_cell_fields [OF s] obtain hs cs where c1: "c1 = c\<lparr>fc_hops := hs, fc_sent := cs\<rparr>" by blast
    have i1: "window_inv c1" "cc_inv c1" "ring_inv c1" using 1(2-4) by (simp_all add: c1 inv_update_sent ring_inv_def)
    have pos: "fc_circ_package_window c1 > 0" using False by (simp add: c1)
    show ?thesis
    proof (cases ok)
      case True
      have "send_data_loop env sid stream (sent + ?chunk) (drop ?chunk data) (note_sent env stream c1) = (r, c')"
        using 1(5) False s True by (simp add: send_data_loop.simps [of env sid stream sent data c] Let_def)
      from 1(1) [OF _ _ _ refl refl s [symmetric] _ note_sent_window [OF i1(1) pos] note_sent_cc [OF i1(2)]
          note_sent_ring(1) [OF i1(3,1) pos] this] False True
      show ?thesis by auto
    next
      case F: False
      then show ?thesis using 1(5) False s i1 by (auto simp: send_data_loop.simps [of env sid stream sent data c] Let_def)
    qed
  qed
qed

lemma flow_step_ring:
  assumes "window_inv c \<and> cc_inv c" and "ring_inv c"
  shows "ring_inv (flow_step env op c)"
proof (cases op)
  case (Flow_open addr port)
  then show ?thesis using assms(2)
    by (auto simp: moor_circuit_open_stream_def ring_inv_def Let_def split: option.split prod.split dest!: flow_send_cell_fields)
next
  case (Flow_send sid data)
  show ?thesis
    using assms send_data_loop_ring [of c env sid "moor_circuit_find_stream c sid" 0 data]
    by (cases "send_data_loop env sid (moor_circuit_find_stream c sid) 0 data c") (simp add: Flow_send moor_circuit_send_data_def)
next
  case (Flow_sendme sid d)
  then show ?thesis using assms(2)
    by (simp add: moor_circuit_handle_sendme_def ring_inv_def sendme_cc_rings Let_def split: option.split)
next
  case (Flow_deliver sid)
  then show ?thesis using assms(2)
    by (auto simp: moor_circuit_maybe_send_sendme_def ring_inv_def Let_def split: option.split prod.split dest!: flow_send_cell_fields)
qed

lemma flow_run_ring:
  "window_inv c \<and> cc_inv c \<Longrightarrow> ring_inv c \<Longrightarrow> ring_inv (fold (flow_step env) ops c)"
  by (induction ops arbitrary: c) (simp_all add: flow_step_inv flow_step_ring)
section \<open>Fresh stream ids\<close>

lemma unat_lt_u16: "unat (n :: u16) < 65536"
  using unsigned_less [where 'b = 16 and 'a = nat, of n] by simp

lemma next_id_nat:
  assumes "n \<noteq> 0"
  shows "unat (next_id n) = unat n mod 65535 + 1" and "next_id n \<noteq> 0"
proof -
  have b: "unat n < 65536" "unat n \<noteq> 0" using assms unat_lt_u16 [of n] by (simp_all add: unat_eq_zero)
  have z: "n + 1 = 0 \<longleftrightarrow> unat n = 65535"
  proof
    assume "n + 1 = 0"
    then have "n = - 1" by (simp add: eq_neg_iff_add_eq_0)
    then show "unat n = 65535" by (simp add: unsigned_minus_1_eq_mask mask_eq_exp_minus_1)
  next
    assume "unat n = 65535"
    then have "unat n = unat (65535 :: u16)" by simp
    then have "n = 65535" by (simp only: word_unat_eq_iff)
    then show "n + 1 = 0" by simp
  qed
  show nat: "unat (next_id n) = unat n mod 65535 + 1"
  proof (cases "unat n = 65535")
    case False
    then have "unat n < 65535" using b by simp
    moreover have "unat (n + 1) = unat n + 1" using b False by (simp add: unat_plus_if_size size_word_def)
    ultimately show ?thesis using False z by (simp add: next_id_def)
  qed (simp add: next_id_def z)
  then have "unat (next_id n) \<noteq> 0" by simp
  then show "next_id n \<noteq> 0" by auto
qed

lemma next_id_iterate:
  assumes "n \<noteq> 0"
  shows "unat ((next_id ^^ k) n) = (unat n - 1 + k) mod 65535 + 1 \<and> (next_id ^^ k) n \<noteq> 0"
proof (induction k)
  case 0
  have "unat n - 1 < 65535" "unat n \<noteq> 0" using unat_lt_u16 [of n] assms by (simp_all add: unat_eq_zero)
  then show ?case using assms by simp
next
  case (Suc k)
  then show ?case using next_id_nat [of "(next_id ^^ k) n"] by (simp add: mod_Suc_eq)
qed

lemma mod_add_inj:
  assumes "((k :: nat) + a) mod m = (k + b) mod m" "a < m" "b < m"
  shows "a = b"
proof (rule ccontr)
  assume "a \<noteq> b"
  then consider "a < b" | "b < a" by linarith
  then show False
  proof cases
    case 1
    then have "m dvd b - a" using assms(1) mod_eq_dvd_iff_nat [of "k + a" "k + b" m] by simp
    then show False using 1 assms(3) nat_dvd_not_less [of "b - a" m] by simp
  next
    case 2
    then have "m dvd a - b" using assms(1) mod_eq_dvd_iff_nat [of "k + b" "k + a" m] by simp
    then show False using 2 assms(2) nat_dvd_not_less [of "a - b" m] by simp
  qed
qed

lemma next_id_distinct:
  assumes "n \<noteq> 0"
  shows "inj_on (\<lambda>k. (next_id ^^ k) n) {..<65535}"
proof (rule inj_onI)
  fix a b :: nat assume ab: "a \<in> {..<65535}" "b \<in> {..<65535}" and e: "(next_id ^^ a) n = (next_id ^^ b) n"
  have "(unat n - 1 + a) mod 65535 = (unat n - 1 + b) mod 65535"
    using next_id_iterate [OF assms, of a] next_id_iterate [OF assms, of b] e by simp
  then show "a = b" using ab mod_add_inj by blast
qed

lemma alloc_stream_id_cases:
  assumes "n \<noteq> 0" and "alloc_stream_id left sts i n = (r, n')"
  shows "n' \<noteq> 0 \<and> (case r of Some sid \<Rightarrow> sid \<noteq> 0 \<and> \<not> id_in_use sts i sid
    | None \<Rightarrow> \<forall>k < left. id_in_use sts i ((next_id ^^ k) n))"
  using assms
proof (induction left arbitrary: n)
  case (Suc left)
  show ?case
  proof (cases "id_in_use sts i n")
    case True
    then have e: "alloc_stream_id left sts i (next_id n) = (r, n')" using Suc.prems(2) by simp
    have "id_in_use sts i ((next_id ^^ k) n)" if "\<forall>k < left. id_in_use sts i ((next_id ^^ k) (next_id n))" "k < Suc left" for k
      using that True by (cases k) (simp_all add: funpow_swap1)
    with Suc.IH [OF next_id_nat(2) [OF Suc.prems(1)] e] show ?thesis by (cases r) auto
  next
    case False
    then show ?thesis using Suc.prems(2) Suc.prems(1) next_id_nat(2) [OF Suc.prems(1)]
      by (cases r) auto
  qed
qed simp

lemma alloc_stream_id_succeeds:
  assumes "n \<noteq> 0" and "length sts < 65535"
  shows "\<exists>sid n'. alloc_stream_id 65535 sts i n = (Some sid, n') \<and> sid \<noteq> 0 \<and> \<not> id_in_use sts i sid \<and> n' \<noteq> 0"
proof -
  obtain r n' where e: "alloc_stream_id 65535 sts i n = (r, n')" by (cases "alloc_stream_id 65535 sts i n")
  note a = alloc_stream_id_cases [OF assms(1) e]
  have "r \<noteq> None"
  proof
    assume "r = None"
    with a have "(\<lambda>k. (next_id ^^ k) n) ` {..<65535} \<subseteq> st_stream_id ` set sts"
      by (auto simp: id_in_use_def) (metis imageI nth_mem)
    then have "card ((\<lambda>k. (next_id ^^ k) n) ` {..<65535}) \<le> card (st_stream_id ` set sts)" by (intro card_mono) simp_all
    also have "\<dots> \<le> length sts" by (meson card_image_le card_length finite_set order_trans)
    finally show False using card_image [OF next_id_distinct [OF assms(1)]] assms(2) by simp
  qed
  with a e show ?thesis by auto
qed

definition ids_distinct :: "moor_stream list \<Rightarrow> bool" where
  "ids_distinct sts \<longleftrightarrow> (\<forall>i < length sts. \<forall>j < length sts. i \<noteq> j \<and> st_stream_id (sts ! i) \<noteq> 0 \<longrightarrow>
    st_stream_id (sts ! i) \<noteq> st_stream_id (sts ! j))"

lemma flow_send_cell_streams: "fc_streams (snd (flow_send_cell env cell c)) = fc_streams c"
    "fc_next_stream_id (snd (flow_send_cell env cell c)) = fc_next_stream_id c"
  using flow_send_cell_fields [of env cell c] by (cases "flow_send_cell env cell c"; fastforce)+

section \<open>Properties\<close>

text \<open>
  C6. Whatever streams are opened, data are sent and SENDME cells arrive, genuine or forged,
  in any order, the cells in flight and the package window of the circuit add up to 1000, one
  digest is awaited per full hundred in flight, the congestion window stays between 100 and
  2000, and the smoothed round-trip time below a minute: none of the counters overflows.
\<close>

theorem flow_window_bounds:
  assumes "fresh_flow c" and "c' = fold (flow_step env) ops (flow_init_fields c)"
  shows "0 \<le> fc_inflight c' \<and> fc_inflight c' \<le> 1000 \<and> fc_circ_package_window c' = 1000 - fc_inflight c' \<and>
    int (fc_sendme_auth_count c') = fc_inflight c' div 100 \<and> fc_sendme_auth_count c' \<le> MOOR_SENDME_AUTH_MAX \<and>
    100 \<le> fc_cwnd c' \<and> fc_cwnd c' \<le> 2000 \<and> fc_ssthresh c' \<le> 2100 \<and> fc_bdp c' \<le> 2000 \<and>
    (fc_rtt_initialized c' \<longrightarrow> fc_srtt_us c' < 60000000 \<and> fc_min_rtt_us c' \<le> fc_srtt_us c')"
proof -
  have i: "window_inv c' \<and> cc_inv c'" unfolding assms(2) by (rule flow_run_inv [OF fresh_flow_inv [OF assms(1)]])
  then have w: "0 \<le> fc_inflight c'" "fc_inflight c' \<le> 1000" "int (fc_sendme_auth_count c') = fc_inflight c' div 100"
    by (simp_all add: window_inv_def)
  then have "int (fc_sendme_auth_count c') \<le> 10" by linarith
  then show ?thesis using i w by (auto simp: window_inv_def cc_inv_def MOOR_SENDME_AUTH_MAX_def word_less_def)
qed

text \<open>A circuit of one hop with an empty stream table, and an environment that takes every cell.\<close>

definition demo_flow :: flow_circ where
  "demo_flow = \<lparr> fc_circuit_id = 7, fc_num_hops = 1,
    fc_hops = [\<lparr> h_forward_key = [], h_backward_key = [], h_forward_nonce = 0, h_backward_nonce = 0,
      h_forward_digest = replicate 32 0, h_backward_digest = replicate 32 0 \<rparr>],
    fc_streams = replicate 64 \<lparr> st_stream_id = 0, st_target_fd = 0, st_target_addr = [], st_target_port = 0, st_connected = False,
      st_deliver_window = 0, st_package_window = 0, st_xoff_sent = False, st_xoff_recv = False \<rparr>,
    fc_next_stream_id = 0, fc_is_client = True, fc_circ_package_window = 0, fc_circ_deliver_window = 0,
    fc_cc_state = MOOR_CC_SLOW_START, fc_cwnd = 0, fc_ssthresh = 0, fc_inflight = 0, fc_srtt_us = 0, fc_rtt_var_us = 0,
    fc_sendme_timestamps = replicate 20 0, fc_sendme_ts_head = 0, fc_sendme_ts_count = 0, fc_rtt_initialized = False,
    fc_cc_path_type = 0, fc_min_rtt_us = 0, fc_bdp = 0, fc_cwnd_full = False, fc_sendme_ack_count = 0,
    fc_sendme_auth_expected = replicate 10 [], fc_sendme_auth_head = 0, fc_sendme_auth_count = 0, fc_sent = [], fc_resumes = 0 \<rparr>"

definition demo_flow_env :: flow_env where
  "demo_flow_env = \<lparr> fe_chacha = \<lambda>k n. Some (\<lambda>i. 0), fe_blake2b = \<lambda>x. replicate 32 1, fe_queue = \<lambda>cs c. True, fe_clock = \<lambda>cs. 5 \<rparr>"

lemma demo_flow_fresh: "fresh_flow demo_flow"
  by (simp add: fresh_flow_def demo_flow_def MOOR_SENDME_AUTH_MAX_def)

theorem flow_window_bounds_witness:
  "fresh_flow demo_flow \<and> fc_circ_package_window (fold (flow_step demo_flow_env) [Flow_send 0 [1, 2, 3], Flow_sendme 0 [9]] (flow_init_fields demo_flow)) =
    1000 - fc_inflight (fold (flow_step demo_flow_env) [Flow_send 0 [1, 2, 3], Flow_sendme 0 [9]] (flow_init_fields demo_flow))"
  using flow_window_bounds [OF demo_flow_fresh refl, of demo_flow_env "[Flow_send 0 [1, 2, 3], Flow_sendme 0 [9]]"] demo_flow_fresh by blast

text \<open>
  C21. A circuit-level SENDME is accepted exactly when a digest is awaited and its body starts
  with the oldest one; it then acknowledges exactly one hundred cells. Any other SENDME is
  refused and changes nothing.
\<close>

theorem sendme_acknowledges_oldest:
  assumes "fresh_flow c" and "c1 = fold (flow_step env) ops (flow_init_fields c)"
    and "moor_circuit_handle_sendme env 0 d c1 = (ok, c2)"
  shows "(ok \<longleftrightarrow> pending_digests c1 \<noteq> [] \<and> MOOR_SENDME_AUTH_LEN \<le> length d \<and> take MOOR_SENDME_AUTH_LEN d = hd (pending_digests c1)) \<and>
    (ok \<longrightarrow> pending_digests c2 = tl (pending_digests c1) \<and> fc_inflight c2 = fc_inflight c1 - 100 \<and>
       fc_circ_package_window c2 = fc_circ_package_window c1 + 100) \<and>
    (\<not> ok \<longrightarrow> c2 = c1)"
proof -
  note f = fresh_flow_inv [OF assms(1)]
  have inv: "window_inv c1" "cc_inv c1" unfolding assms(2) using flow_run_inv [OF f] by blast+
  have "ring_inv (flow_init_fields c)" using assms(1)
    by (simp add: ring_inv_def flow_init_fields_def fresh_flow_def MOOR_SENDME_AUTH_MAX_def)
  then have ring: "ring_inv c1" unfolding assms(2) by (rule flow_run_ring [OF f])
  have cnt: "int (fc_sendme_auth_count c1) = fc_inflight c1 div 100" "fc_inflight c1 \<le> 1000" "0 \<le> fc_inflight c1"
    "fc_circ_package_window c1 \<le> 1000" using inv(1) by (simp_all add: window_inv_def)
  have len: "length (pending_digests c1) = fc_sendme_auth_count c1" by (simp add: pending_digests_def ring_list_def)
  show ?thesis
  proof (cases "fc_sendme_auth_count c1 = 0")
    case True
    then show ?thesis using assms(3) len by (auto simp: moor_circuit_handle_sendme_def)
  next
    case False
    have le: "fc_sendme_auth_count c1 \<le> 10" using cnt by linarith
    have ge: "100 \<le> fc_inflight c1" using cnt False by linarith
    define h where "h = fc_sendme_auth_expected c1 ! ring_tail MOOR_SENDME_AUTH_MAX (fc_sendme_auth_head c1) (fc_sendme_auth_count c1)"
    have p: "pending_digests c1 = h # ring_list MOOR_SENDME_AUTH_MAX (fc_sendme_auth_expected c1) (fc_sendme_auth_head c1) (fc_sendme_auth_count c1 - 1)"
      unfolding pending_digests_def h_def using ring_list_pop [of "fc_sendme_auth_count c1" MOOR_SENDME_AUTH_MAX] False le
      by (simp add: MOOR_SENDME_AUTH_MAX_def)
    let ?c3 = "c1\<lparr>fc_sendme_auth_count := fc_sendme_auth_count c1 - 1, fc_inflight := fc_inflight c1 - 100,
        fc_circ_package_window := fc_circ_package_window c1 + 100\<rparr>"
    have cc3: "cc_inv ?c3" using inv(2) by (simp add: cc_inv_def)
    have e: "moor_circuit_handle_sendme env 0 d c1 = (if MOOR_SENDME_AUTH_LEN \<le> length d \<and> take MOOR_SENDME_AUTH_LEN d = h
        then (True, sendme_cc (fe_clock env (fc_sent c1)) ?c3) else (False, c1))"
      using False ge cnt(4) by (simp add: moor_circuit_handle_sendme_def h_def cap_add_def Let_def MOOR_SENDME_INCREMENT_def MOOR_CIRCUIT_WINDOW_def)
    have "pending_digests (sendme_cc t ?c3) = tl (pending_digests c1)" for t
      unfolding p by (simp add: pending_digests_def sendme_cc_rings sendme_cc_inv(4) [OF cc3, simplified])
    then show ?thesis using assms(3) p unfolding e
      by (auto simp: sendme_cc_inv(2,3) [OF cc3, simplified] split: if_splits)
  qed
qed

theorem sendme_acknowledges_oldest_witness:
  "fresh_flow demo_flow \<and> \<not> fst (moor_circuit_handle_sendme demo_flow_env 0 (replicate 20 9) (flow_init_fields demo_flow))"
proof -
  let ?c = "flow_init_fields demo_flow"
  obtain ok c2 where r: "moor_circuit_handle_sendme demo_flow_env 0 (replicate 20 9) ?c = (ok, c2)"
    by (cases "moor_circuit_handle_sendme demo_flow_env 0 (replicate 20 9) ?c")
  have f: "?c = fold (flow_step demo_flow_env) [] ?c" by simp
  have "pending_digests ?c = []" by (simp add: pending_digests_def ring_list_def flow_init_fields_def demo_flow_def)
  then show ?thesis using sendme_acknowledges_oldest [OF demo_flow_fresh f r] r demo_flow_fresh by simp
qed

text \<open>
  C22. Opening a stream never runs out of stream ids: whenever the table has a free slot, the
  search ends within its 65535 attempts with a non-zero id that no other stream of the circuit
  has, so the ids in use stay pairwise distinct.
\<close>

theorem open_stream_fresh_id:
  assumes "fc_next_stream_id c \<noteq> 0" and "length (fc_streams c) = 64" and "ids_distinct (fc_streams c)"
    and "\<exists>st \<in> set (fc_streams c). st_stream_id st = 0"
    and "moor_circuit_open_stream env addr port c = (r, c')"
  shows "\<exists>i sid. i < 64 \<and> st_stream_id (fc_streams c ! i) = 0 \<and> sid \<noteq> 0 \<and> (\<forall>j < 64. st_stream_id (fc_streams c ! j) \<noteq> sid) \<and>
    st_stream_id (fc_streams c' ! i) = sid \<and> (\<forall>j < 64. j \<noteq> i \<longrightarrow> fc_streams c' ! j = fc_streams c ! j) \<and>
    ids_distinct (fc_streams c') \<and> fc_next_stream_id c' \<noteq> 0 \<and> (r = Some sid \<or> r = None)"
proof -
  from assms(4) obtain i where i: "first_index (\<lambda>st. st_stream_id st = 0) (fc_streams c) = Some i"
    by (cases "first_index (\<lambda>st. st_stream_id st = 0) (fc_streams c)") (auto simp: first_index_None)
  then have i64: "i < 64" and z: "st_stream_id (fc_streams c ! i) = 0" using assms(2) by (auto dest: first_index_Some)
  obtain sid n' where a: "alloc_stream_id 65535 (fc_streams c) i (fc_next_stream_id c) = (Some sid, n')" "sid \<noteq> 0"
    "\<not> id_in_use (fc_streams c) i sid" "n' \<noteq> 0"
    using alloc_stream_id_succeeds [OF assms(1), of "fc_streams c" i] assms(2) by auto
  define st where "st = (fc_streams c ! i)\<lparr>st_stream_id := sid, st_target_addr := take 255 addr, st_target_port := port,
                    st_target_fd := -1, st_connected := False, st_deliver_window := MOOR_STREAM_WINDOW,
                    st_package_window := MOOR_STREAM_WINDOW\<rparr>"
  define c1 where "c1 = c\<lparr>fc_next_stream_id := n', fc_streams := (fc_streams c)[i := st]\<rparr>"
  obtain cell where o: "moor_circuit_open_stream env addr port c =
      (let (ok, c2) = flow_send_cell env cell c1 in (if ok then Some sid else None, c2))"
    using i a(1) by (auto simp: moor_circuit_open_stream_def Let_def c1_def st_def)
  have c': "fc_streams c' = (fc_streams c)[i := st]" "fc_next_stream_id c' = n'" "r = Some sid \<or> r = None"
    using assms(5) flow_send_cell_streams [of env cell c1] unfolding o by (auto simp: c1_def split: prod.splits if_splits)
  have other: "st_stream_id (fc_streams c ! j) \<noteq> sid" if "j < 64" for j
    using that a(2,3) z assms(2) by (cases "j = i") (auto simp: id_in_use_def)
  have "ids_distinct (fc_streams c')"
    using assms(2,3) other a(2) i64 unfolding ids_distinct_def c' by (auto simp: nth_list_update st_def)
  then show ?thesis using i64 z a c' other assms(2) by (intro exI [of _ i] exI [of _ sid]) (auto simp: st_def)
qed

theorem open_stream_fresh_id_witness:
  "\<exists>i sid. i < 64 \<and> sid \<noteq> 0 \<and>
    st_stream_id (fc_streams (snd (moor_circuit_open_stream demo_flow_env [97, 46, 98] 80 (flow_init_fields demo_flow))) ! i) = sid"
proof -
  let ?c = "flow_init_fields demo_flow" and ?o = "moor_circuit_open_stream demo_flow_env [97, 46, 98] 80 (flow_init_fields demo_flow)"
  have "fc_next_stream_id ?c \<noteq> 0" "length (fc_streams ?c) = 64" "ids_distinct (fc_streams ?c)" "\<exists>st \<in> set (fc_streams ?c). st_stream_id st = 0"
    by (simp_all add: flow_init_fields_def demo_flow_def ids_distinct_def)
  from open_stream_fresh_id [OF this, of demo_flow_env "[97, 46, 98]" 80 "fst ?o" "snd ?o"] show ?thesis by auto
qed

end
