(* ===== verification/ExitPolicy.thy ===== *)
theory ExitPolicy
  imports NetText
begin

text \<open>
  Exit policies (\<open>src/src/config.c\<close>): reading a rule such as \<open>accept 10.0.0.0/8:80-443\<close>,
  matching an address and a port against a list of rules, and the default policy. A policy is
  the list of its rules; the array of the code holds at most 64 of them.
\<close>

section \<open>Rules\<close>

record moor_exit_policy_rule =
  rl_action :: bool
  rl_addr :: u32
  rl_mask :: u32
  rl_addr_wildcard :: bool
  rl_port_lo :: u16
  rl_port_hi :: u16
  rl_port_wildcard :: bool
  rl_is_ipv6 :: bool
  rl_addr6 :: bytes
  rl_mask6 :: bytes

type_synonym moor_exit_policy = "moor_exit_policy_rule list"

definition MOOR_MAX_EXIT_RULES :: nat where "MOOR_MAX_EXIT_RULES = 64"

definition zero_rule :: moor_exit_policy_rule where
  "zero_rule = \<lparr> rl_action = False, rl_addr = 0, rl_mask = 0, rl_addr_wildcard = False, rl_port_lo = 0, rl_port_hi = 0,
     rl_port_wildcard = False, rl_is_ipv6 = False, rl_addr6 = replicate 16 0, rl_mask6 = replicate 16 0 \<rparr>"

text \<open>Addresses in host byte order.\<close>

definition ntohl :: "bytes \<Rightarrow> u32" where
  "ntohl b = de32 (b ! 0) (b ! 1) (b ! 2) (b ! 3)"

definition parse_ipv4 :: "bytes \<Rightarrow> u32 option" where
  "parse_ipv4 s = (case inet_pton4 s of None \<Rightarrow> None | Some b \<Rightarrow> Some (ntohl b))"

definition parse_ipv6 :: "bytes \<Rightarrow> bytes option" where
  "parse_ipv6 s = (case inet_pton6 s of None \<Rightarrow> None | Some b \<Rightarrow> Some b)"

text \<open>The mask of the first \<open>prefix\<close> bits, byte by byte.\<close>

fun prefix_mask_loop :: "nat \<Rightarrow> int \<Rightarrow> bytes" where
  "prefix_mask_loop 0 prefix = []"
| "prefix_mask_loop (Suc n) prefix =
     (if prefix > 0
      then if prefix \<ge> 8 then 255 # prefix_mask_loop n (prefix - 8)
           else push_bit (nat (8 - prefix)) 255 # prefix_mask_loop n 0
      else replicate (Suc n) 0)"

definition ipv6_prefix_mask :: "int \<Rightarrow> bytes" where
  "ipv6_prefix_mask prefix = prefix_mask_loop 16 prefix"

definition ipv6_masked_eq :: "bytes \<Rightarrow> bytes \<Rightarrow> bytes \<Rightarrow> bool" where
  "ipv6_masked_eq a b m \<longleftrightarrow> list_all (\<lambda>i. a ! i AND m ! i = b ! i AND m ! i) [0..<16]"

definition parse_port :: "bytes \<Rightarrow> int option" where
  "parse_port s =
    (case strtol10 s of
       (v, Some []) \<Rightarrow> if v < 1 \<or> v > 65535 then None else Some v
     | _ \<Rightarrow> None)"

section \<open>Reading a rule\<close>

text \<open>The text between brackets, where the address starts with one.\<close>

definition strip_brackets :: "bytes \<Rightarrow> bytes" where
  "strip_brackets addr_part =
    (case addr_part of
       c # r \<Rightarrow> if c = 91 then (case split_first 93 r of None \<Rightarrow> r | Some (inner, _) \<Rightarrow> inner) else addr_part
     | [] \<Rightarrow> addr_part)"

text \<open>The prefix length after a slash: -1 when there is none, an error when it does not start with a digit.\<close>

definition split_prefix :: "bytes \<Rightarrow> (bytes \<times> int) option" where
  "split_prefix addr_part =
    (case split_first 47 addr_part of
       None \<Rightarrow> Some (addr_part, -1)
     | Some (a, pfx) \<Rightarrow> (case pfx of [] \<Rightarrow> None | c # _ \<Rightarrow> if c < 48 \<or> c > 57 then None else Some (a, atoi pfx)))"

definition parse_rule_addr :: "moor_exit_policy_rule \<Rightarrow> bytes \<Rightarrow> moor_exit_policy_rule option" where
  "parse_rule_addr rule addr_part =
    (if addr_part = [42]
     then Some (rule\<lparr>rl_addr_wildcard := True, rl_addr := 0, rl_mask := 0, rl_is_ipv6 := False\<rparr>)
     else let rule1 = rule\<lparr>rl_addr_wildcard := False\<rparr>
          in case split_prefix addr_part of None \<Rightarrow> None
             | Some (a, prefix0) \<Rightarrow>
                 if 58 \<in> set a
                 then let prefix = (if prefix0 < 0 then 128 else prefix0) in
                      if prefix > 128 then None
                      else (case parse_ipv6 a of None \<Rightarrow> None
                            | Some a6 \<Rightarrow>
                                let m6 = ipv6_prefix_mask prefix
                                in Some (rule1\<lparr>rl_is_ipv6 := True, rl_mask6 := m6, rl_addr6 := map2 (AND) a6 m6\<rparr>))
                 else let prefix = (if prefix0 < 0 then 32 else prefix0) in
                      if prefix > 32 then None
                      else (case parse_ipv4 a of None \<Rightarrow> None
                            | Some ip \<Rightarrow>
                                let m = (if prefix = 0 then 0 else push_bit (nat (32 - prefix)) (- 1))
                                in Some (rule1\<lparr>rl_is_ipv6 := False, rl_mask := m, rl_addr := ip AND m\<rparr>)))"

definition parse_rule_ports :: "moor_exit_policy_rule \<Rightarrow> bytes \<Rightarrow> moor_exit_policy_rule option" where
  "parse_rule_ports rule port_part =
    (if port_part = [42] then Some (rule\<lparr>rl_port_wildcard := True, rl_port_lo := 0, rl_port_hi := 65535\<rparr>)
     else let rule1 = rule\<lparr>rl_port_wildcard := False\<rparr>
          in case split_first 45 port_part of
               Some (l, h) \<Rightarrow>
                 (case (parse_port l, parse_port h) of
                    (Some lo, Some hi) \<Rightarrow> Some (rule1\<lparr>rl_port_lo := word_of_int lo, rl_port_hi := word_of_int hi\<rparr>)
                  | _ \<Rightarrow> None)
             | None \<Rightarrow>
                 (case parse_port port_part of None \<Rightarrow> None
                  | Some p \<Rightarrow> Some (rule1\<lparr>rl_port_lo := word_of_int p, rl_port_hi := word_of_int p\<rparr>)))"

definition parse_action :: "bytes \<Rightarrow> bool option" where
  "parse_action action_str =
    (if action_str = str ''accept'' then Some True else if action_str = str ''reject'' then Some False else None)"

definition parse_exit_policy_rule :: "moor_exit_policy_rule \<Rightarrow> bytes \<Rightarrow> moor_exit_policy_rule option" where
  "parse_exit_policy_rule rule value =
    (case split_first 32 (take 255 value) of
       None \<Rightarrow> None
     | Some (action_str, rest) \<Rightarrow>
         (case parse_action action_str of None \<Rightarrow> None
          | Some act \<Rightarrow>
              (case split_last 58 (dropWhile (\<lambda>c. c = 32) rest) of None \<Rightarrow> None
               | Some (addr_part, port_part) \<Rightarrow>
                   (case parse_rule_addr (rule\<lparr>rl_action := act\<rparr>) (strip_brackets addr_part) of None \<Rightarrow> None
                    | Some rule1 \<Rightarrow>
                        (case parse_rule_ports rule1 port_part of None \<Rightarrow> None
                         | Some rule2 \<Rightarrow> if rl_port_lo rule2 > rl_port_hi rule2 then None else Some rule2)))))"

section \<open>Matching\<close>

definition rule_addr_match :: "moor_exit_policy_rule \<Rightarrow> bool \<Rightarrow> u32 \<Rightarrow> bytes \<Rightarrow> bool" where
  "rule_addr_match r is_v6 ip ip6 =
    (if rl_addr_wildcard r then True
     else if is_v6 \<and> rl_is_ipv6 r then ipv6_masked_eq ip6 (rl_addr6 r) (rl_mask6 r)
     else if \<not> is_v6 \<and> \<not> rl_is_ipv6 r then ip AND rl_mask r = rl_addr r
     else False)"

definition rule_port_match :: "moor_exit_policy_rule \<Rightarrow> u16 \<Rightarrow> bool" where
  "rule_port_match r port = (if rl_port_wildcard r then True else port \<ge> rl_port_lo r \<and> port \<le> rl_port_hi r)"

fun policy_scan :: "moor_exit_policy \<Rightarrow> bool \<Rightarrow> u32 \<Rightarrow> bytes \<Rightarrow> u16 \<Rightarrow> bool" where
  "policy_scan [] is_v6 ip ip6 port = False"
| "policy_scan (r # rs) is_v6 ip ip6 port =
     (if \<not> rule_addr_match r is_v6 ip ip6 then policy_scan rs is_v6 ip ip6 port
      else if \<not> rule_port_match r port then policy_scan rs is_v6 ip ip6 port
      else rl_action r)"

definition moor_exit_policy_allows :: "moor_exit_policy \<Rightarrow> bytes option \<Rightarrow> u16 \<Rightarrow> bool" where
  "moor_exit_policy_allows policy addr port =
    (case addr of
       None \<Rightarrow> policy_scan policy False 0 [] port
     | Some a \<Rightarrow>
         if 58 \<in> set a
         then (case parse_ipv6 a of None \<Rightarrow> False | Some ip6 \<Rightarrow> policy_scan policy True 0 ip6 port)
         else (case parse_ipv4 a of None \<Rightarrow> False | Some ip \<Rightarrow> policy_scan policy False ip [] port))"

section \<open>The default policy\<close>

definition policy_defaults :: "string list" where
  "policy_defaults =
    [''reject 0.0.0.0/8:*'', ''reject 10.0.0.0/8:*'', ''reject 100.64.0.0/10:*'', ''reject 127.0.0.0/8:*'',
     ''reject 169.254.0.0/16:*'', ''reject 172.16.0.0/12:*'', ''reject 192.168.0.0/16:*'',
     ''reject [::1]/128:*'', ''reject [fc00::]/7:*'', ''reject [fe80::]/10:*'', ''reject [::ffff:0:0]/96:*'',
     ''reject *:25'', ''reject *:119'', ''reject *:135-139'', ''reject *:445'', ''reject *:563'', ''reject *:1214'',
     ''reject *:4661-4666'', ''reject *:6346-6429'', ''reject *:6699'', ''reject *:6881-6999'',
     ''reject *:465'', ''reject *:587'', ''accept *:*'']"

fun policy_add :: "moor_exit_policy \<Rightarrow> bytes list \<Rightarrow> moor_exit_policy" where
  "policy_add policy [] = policy"
| "policy_add policy (d # ds) =
     (if length policy < MOOR_MAX_EXIT_RULES
      then (case parse_exit_policy_rule zero_rule d of None \<Rightarrow> policy_add policy ds | Some r \<Rightarrow> policy_add (policy @ [r]) ds)
      else policy)"

definition moor_exit_policy_set_defaults :: moor_exit_policy where
  "moor_exit_policy_set_defaults = policy_add [] (map str policy_defaults)"

text \<open>The \<open>ExitPolicy\<close> line of the configuration file; the rule is read into an uninitialised struct \<open>r0\<close>.\<close>

definition config_exit_policy :: "moor_exit_policy_rule \<Rightarrow> moor_exit_policy \<Rightarrow> bytes \<Rightarrow> moor_exit_policy option" where
  "config_exit_policy r0 policy value =
    (if length policy \<ge> MOOR_MAX_EXIT_RULES then None
     else (case parse_exit_policy_rule r0 value of None \<Rightarrow> None | Some r \<Rightarrow> Some (policy @ [r])))"
section \<open>Prefixes\<close>

text \<open>Equality under a prefix mask is equality of the leading bits.\<close>

lemma masked_eq_drop_bit:
  "(x :: 'a::len word) AND NOT (mask n) = y AND NOT (mask n) \<longleftrightarrow> drop_bit n x = drop_bit n y"
proof
  assume l: "x AND NOT (mask n) = y AND NOT (mask n)"
  show "drop_bit n x = drop_bit n y"
  proof (rule bit_word_eqI)
    fix i
    have "bit (x AND NOT (mask n)) (n + i) = bit (y AND NOT (mask n)) (n + i)" using l by simp
    then show "bit (drop_bit n x) i = bit (drop_bit n y) i" by (auto simp: bit_simps dest: bit_imp_le_length)
  qed
next
  assume r: "drop_bit n x = drop_bit n y"
  show "x AND NOT (mask n) = y AND NOT (mask n)"
  proof (rule bit_word_eqI)
    fix i
    have "bit (drop_bit n x) (i - n) = bit (drop_bit n y) (i - n)" using r by simp
    then show "bit (x AND NOT (mask n)) i = bit (y AND NOT (mask n)) i" by (auto simp: bit_simps)
  qed
qed

lemma prefix_mask_word: "0 < k \<Longrightarrow> k \<le> 32 \<Longrightarrow> push_bit (nat (32 - int k)) (- 1 :: u32) = NOT (mask (32 - k))"
  by (simp add: minus_exp_eq_not_mask nat_diff_distrib' flip: push_bit_minus_one)

lemma rule_mask: "k \<le> 32 \<Longrightarrow> (if int k = 0 then 0 else push_bit (nat (32 - int k)) (- 1 :: u32)) = NOT (mask (32 - k))"
proof (cases "k = 0")
  case True
  have "NOT (mask 32) = (0 :: u32)" by (auto intro!: bit_word_eqI simp: bit_simps)
  then show ?thesis using True by simp
next
  case False
  then show "k \<le> 32 \<Longrightarrow> ?thesis" using prefix_mask_word [of k] by simp
qed

lemma ntohl_quad: "ntohl [a, b, c, d] = de32 a b c d"
  by (simp add: ntohl_def)

lemma parse_ipv4_quad: "parse_ipv4 (quad a b c d) = Some (de32 a b c d)"
  by (simp add: parse_ipv4_def inet_pton4_quad ntohl_quad)

lemma allows_quad:
  "moor_exit_policy_allows policy (Some (quad a b c d)) port = policy_scan policy False (de32 a b c d) [] port"
  using quad_free [of 58 a b c d] by (simp add: moor_exit_policy_allows_def parse_ipv4_quad is_digit_def)

section \<open>Rules in CIDR notation\<close>

definition rule_text :: "bool \<Rightarrow> byte \<Rightarrow> byte \<Rightarrow> byte \<Rightarrow> byte \<Rightarrow> nat \<Rightarrow> nat \<Rightarrow> nat \<Rightarrow> bytes" where
  "rule_text act a b c d k lo hi =
     (if act then str ''accept'' else str ''reject'') @ [32] @ quad a b c d @ [47] @ dec_digits 2 k @ [58] @
     dec_digits 5 lo @ [45] @ dec_digits 5 hi"

lemma length_dec_digits: "length (dec_digits k n) \<le> k"
  by (induction k arbitrary: n) auto

lemma length_quad: "length (quad a b c d) \<le> 15"
  using length_dec_digits [of 3 "unat a"] length_dec_digits [of 3 "unat b"] length_dec_digits [of 3 "unat c"]
    length_dec_digits [of 3 "unat d"] by (simp add: quad_def)

lemma parse_port_dec: "1 \<le> p \<Longrightarrow> p \<le> 65535 \<Longrightarrow> parse_port (dec_digits 5 p) = Some (int p)"
  using strtol10_dec [of p 5] by (simp add: parse_port_def)

lemma split_prefix_dec:
  assumes "k \<le> 32" and "47 \<notin> set a"
  shows "split_prefix (a @ [47] @ dec_digits 2 k) = Some (a, int k)"
proof -
  have d: "list_all is_digit (dec_digits 2 k)" "dec_digits 2 k \<noteq> []" using dec_digits_value [of k 2] assms by auto
  obtain c r where cr: "dec_digits 2 k = c # r" using d(2) by (cases "dec_digits 2 k") auto
  then have "\<not> (c < 48 \<or> c > 57)" using d(1) by (simp add: is_digit_def not_less)
  moreover have "sint (word_of_int (int k) :: 32 word) = int k"
    using assms(1) by (simp only: sint_sbintrunc') (simp add: signed_take_bit_int_eq_self)
  then have "atoi (dec_digits 2 k) = int k"
    using assms(1) strtol10_dec [of k 2] by (simp add: atoi_def del: of_int_of_nat_eq)
  ultimately show ?thesis using cr split_first_append [OF assms(2), of "dec_digits 2 k"] by (simp add: split_prefix_def)
qed

lemma parse_rule_addr_cidr:
  assumes "k \<le> 32"
  shows "parse_rule_addr r (quad a b c d @ [47] @ dec_digits 2 k) =
    Some (r\<lparr>rl_addr_wildcard := False, rl_is_ipv6 := False, rl_mask := NOT (mask (32 - k)),
      rl_addr := de32 a b c d AND NOT (mask (32 - k))\<rparr>)"
proof -
  have q: "47 \<notin> set (quad a b c d)" "58 \<notin> set (quad a b c d)" "42 \<notin> set (quad a b c d)"
    using quad_free [of 47] quad_free [of 58] quad_free [of 42] by (auto simp: is_digit_def)
  have "quad a b c d @ [47] @ dec_digits 2 k \<noteq> [42]"
    by (cases "quad a b c d") auto
  moreover note split_prefix_dec [OF assms q(1)] parse_ipv4_quad [of a b c d] rule_mask [OF assms]
  ultimately show ?thesis using assms q(2) by (simp add: parse_rule_addr_def) (simp add: Let_def)
qed

lemma parse_rule_ports_range:
  assumes "1 \<le> lo" and "lo \<le> 65535" and "1 \<le> hi" and "hi \<le> 65535"
  shows "parse_rule_ports r (dec_digits 5 lo @ [45] @ dec_digits 5 hi) =
    Some (r\<lparr>rl_port_wildcard := False, rl_port_lo := of_nat lo, rl_port_hi := of_nat hi\<rparr>)"
proof -
  have n: "45 \<notin> set (dec_digits 5 lo)" using dec_digits_chars [of lo 5 45] assms by (auto simp: is_digit_def)
  have "dec_digits 5 lo @ [45] @ dec_digits 5 hi \<noteq> [42]" by (cases "dec_digits 5 lo") auto
  then show ?thesis
    using split_first_append [OF n, of "dec_digits 5 hi"] parse_port_dec [of lo] parse_port_dec [of hi] assms
    by (simp add: parse_rule_ports_def)
qed

lemma parse_rule_text:
  assumes "k \<le> 32" and "1 \<le> lo" and "lo \<le> hi" and "hi \<le> 65535"
  shows "parse_exit_policy_rule r0 (rule_text act a b c d k lo hi) =
    Some (r0\<lparr>rl_action := act, rl_addr_wildcard := False, rl_is_ipv6 := False, rl_mask := NOT (mask (32 - k)),
      rl_addr := de32 a b c d AND NOT (mask (32 - k)), rl_port_wildcard := False, rl_port_lo := of_nat lo, rl_port_hi := of_nat hi\<rparr>)"
proof -
  let ?A = "if act then str ''accept'' else str ''reject''"
  let ?Q = "quad a b c d @ [47] @ dec_digits 2 k" and ?P = "dec_digits 5 lo @ [45] @ dec_digits 5 hi"
  have A: "length ?A = 6" "32 \<notin> set ?A" "parse_action ?A = Some act" by (auto simp: str_def parse_action_def)
  have t: "rule_text act a b c d k lo hi = ?A @ 32 # ?Q @ 58 # ?P" by (simp add: rule_text_def)
  have "length (rule_text act a b c d k lo hi) \<le> 255"
    using length_quad [of a b c d] length_dec_digits [of 2 k] length_dec_digits [of 5 lo] length_dec_digits [of 5 hi] A(1)
    by (simp add: rule_text_def)
  then have s1: "split_first 32 (take 255 (rule_text act a b c d k lo hi)) = Some (?A, ?Q @ 58 # ?P)"
    unfolding t using split_first_append [OF A(2)] by simp
  obtain c0 r where q0: "quad a b c d = c0 # r" using octet_digits [of a] by (cases "quad a b c d") (auto simp: quad_def octet_ok_def)
  then have "c0 \<noteq> 32" "c0 \<noteq> 91" using quad_free [of 32 a b c d] quad_free [of 91 a b c d] by (auto simp: is_digit_def)
  then have s2: "dropWhile (\<lambda>c. c = 32) (?Q @ 58 # ?P) = ?Q @ 58 # ?P" "strip_brackets ?Q = ?Q"
    using q0 by (simp_all add: strip_brackets_def)
  have "58 \<notin> set ?P" using dec_digits_chars [of lo 5 58] dec_digits_chars [of hi 5 58] assms by (auto simp: is_digit_def)
  then have s3: "split_last 58 (?Q @ 58 # ?P) = Some (?Q, ?P)" by (rule split_last_append)
  have "\<not> (of_nat lo :: u16) > of_nat hi" using assms by (simp add: word_less_nat_alt of_nat_u16_small)
  then show ?thesis
    using parse_rule_ports_range [of lo hi] assms
    unfolding parse_exit_policy_rule_def s1 by (simp add: A(3) s2 s3 parse_rule_addr_cidr [OF assms(1)] del: append_assoc append.simps)
qed
lemma dec_digits_numeral:
  "dec_digits (numeral k) n =
    (if n < 10 then [of_nat (48 + n)] else dec_digits (pred_numeral k) (n div 10) @ [of_nat (48 + n mod 10)])"
  by (simp add: numeral_eq_Suc)

section \<open>What a rule means\<close>

text \<open>
  C23. A rule written in CIDR notation is read back and means what it says: an IPv4 address
  and port are decided by it, with its action, exactly when the address agrees with the
  rule's on the prefix bits and the port is in the range; otherwise the later rules decide.
\<close>

theorem policy_rule_means_cidr:
  assumes "k \<le> 32" and "1 \<le> lo" and "lo \<le> hi" and "hi \<le> 65535"
  shows "\<exists>r. parse_exit_policy_rule r0 (rule_text act a b c d k lo hi) = Some r \<and>
    (\<forall>w x y z port rest. moor_exit_policy_allows (r # rest) (Some (quad w x y z)) port =
      (if drop_bit (32 - k) (de32 w x y z) = drop_bit (32 - k) (de32 a b c d) \<and> lo \<le> unat port \<and> unat port \<le> hi
       then act else moor_exit_policy_allows rest (Some (quad w x y z)) port))"
proof -
  have le: "(of_nat lo \<le> port \<and> port \<le> (of_nat hi :: u16)) = (lo \<le> unat port \<and> unat port \<le> hi)" for port
    using assms by (simp add: word_le_nat_alt of_nat_u16_small)
  show ?thesis unfolding parse_rule_text [OF assms] allows_quad
    by (simp add: rule_addr_match_def rule_port_match_def masked_eq_drop_bit le)
qed

theorem policy_rule_means_cidr_witness:
  "\<exists>r. parse_exit_policy_rule zero_rule (str ''accept 10.1.0.0/16:80-443'') = Some r \<and>
     moor_exit_policy_allows [r] (Some (str ''10.1.2.3'')) 443 \<and> \<not> moor_exit_policy_allows [r] (Some (str ''10.2.2.3'')) 443"
proof -
  have t: "rule_text True 10 1 0 0 16 80 443 = str ''accept 10.1.0.0/16:80-443''" "quad 10 1 2 3 = str ''10.1.2.3''" "quad 10 2 2 3 = str ''10.2.2.3''"
    by (simp_all add: rule_text_def quad_def str_def dec_digits_numeral)
  have e: "\<not> moor_exit_policy_allows [] x p" for x p by (auto simp: moor_exit_policy_allows_def split: option.splits)
  obtain r where r: "parse_exit_policy_rule zero_rule (str ''accept 10.1.0.0/16:80-443'') = Some r"
    and m: "\<And>w x y z port rest. moor_exit_policy_allows (r # rest) (Some (quad w x y z)) port =
      (if drop_bit (32 - 16) (de32 w x y z) = drop_bit (32 - 16) (de32 10 1 0 0) \<and> 80 \<le> unat port \<and> unat port \<le> 443
       then True else moor_exit_policy_allows rest (Some (quad w x y z)) port)"
    using policy_rule_means_cidr [of 16 80 443 zero_rule True 10 1 0 0] unfolding t by auto
  have "moor_exit_policy_allows [r] (Some (quad 10 1 2 3)) 443" "\<not> moor_exit_policy_allows [r] (Some (quad 10 2 2 3)) 443"
    unfolding m using e by (simp_all add: de32_def)
  then show ?thesis using r t by auto
qed

section \<open>The default policy, rule by rule\<close>

definition reject_net :: "u32 \<Rightarrow> nat \<Rightarrow> moor_exit_policy_rule" where
  "reject_net ip k = zero_rule\<lparr>rl_addr := ip, rl_mask := NOT (mask (32 - k)), rl_port_hi := 65535, rl_port_wildcard := True\<rparr>"

definition reject_host6 :: "bytes \<Rightarrow> moor_exit_policy_rule" where
  "reject_host6 a = zero_rule\<lparr>rl_addr6 := a, rl_mask6 := replicate 16 255, rl_is_ipv6 := True, rl_port_hi := 65535, rl_port_wildcard := True\<rparr>"

definition reject_ports :: "u16 \<Rightarrow> u16 \<Rightarrow> moor_exit_policy_rule" where
  "reject_ports lo hi = zero_rule\<lparr>rl_addr_wildcard := True, rl_port_lo := lo, rl_port_hi := hi\<rparr>"

definition accept_all :: moor_exit_policy_rule where
  "accept_all = zero_rule\<lparr>rl_action := True, rl_addr_wildcard := True, rl_port_hi := 65535, rl_port_wildcard := True\<rparr>"

lemmas text_eval = str_def strtol10_def is_digit_def is_space_def dec_value_def clamp_long_def atoi_def
  inet_pton4_def octet_ok_def hex_val_def pton6_finish_def inet_pton6_def split_last_def be16_def

lemmas rule_eval = parse_exit_policy_rule_def parse_action_def parse_rule_addr_def parse_rule_ports_def
  strip_brackets_def split_prefix_def parse_ipv4_def parse_ipv6_def parse_port_def ntohl_def de32_def Let_def zero_rule_def

lemma mask128: "ipv6_prefix_mask 128 = replicate 16 255"
  by (simp add: ipv6_prefix_mask_def numeral_eq_Suc)

lemma zeros:
  "replicate 10 (0 :: byte) = [0, 0, 0, 0, 0, 0, 0, 0, 0, 0]" "replicate 12 (0 :: byte) = [0, 0, 0, 0, 0, 0, 0, 0, 0, 0, 0, 0]" "replicate 14 (0 :: byte) = [0, 0, 0, 0, 0, 0, 0, 0, 0, 0, 0, 0, 0, 0]"
  by (simp_all add: numeral_eq_Suc)

lemma map2_ones: "length a = 16 \<Longrightarrow> map2 (AND) a (replicate 16 (255 :: byte)) = a"
proof -
  have "(255 :: byte) = - 1" by simp
  then have "x AND 255 = x" for x :: byte by (simp only: and_minus_numerals bit.conj_one_right)
  then show "length a = 16 \<Longrightarrow> ?thesis" by (intro nth_equalityI) auto
qed

lemma default_nets:
  "parse_exit_policy_rule zero_rule (str ''reject 0.0.0.0/8:*'') = Some (reject_net 0 8)"
  "parse_exit_policy_rule zero_rule (str ''reject 10.0.0.0/8:*'') = Some (reject_net 0x0A000000 8)"
  "parse_exit_policy_rule zero_rule (str ''reject 100.64.0.0/10:*'') = Some (reject_net 0x64400000 10)"
  "parse_exit_policy_rule zero_rule (str ''reject 127.0.0.0/8:*'') = Some (reject_net 0x7F000000 8)"
  "parse_exit_policy_rule zero_rule (str ''reject 169.254.0.0/16:*'') = Some (reject_net 0xA9FE0000 16)"
  "parse_exit_policy_rule zero_rule (str ''reject 172.16.0.0/12:*'') = Some (reject_net 0xAC100000 12)"
  "parse_exit_policy_rule zero_rule (str ''reject 192.168.0.0/16:*'') = Some (reject_net 0xC0A80000 16)"
  by (simp_all add: rule_eval text_eval reject_net_def not_eq_complement mask_eq_exp_minus_1)

lemma default_hosts6:
  "parse_exit_policy_rule zero_rule (str ''reject [::1]/128:*'') = Some (reject_host6 [0, 0, 0, 0, 0, 0, 0, 0, 0, 0, 0, 0, 0, 0, 0, 1])"
  "parse_exit_policy_rule zero_rule (str ''reject [fc00::]/7:*'') = Some (reject_host6 [252, 0, 0, 0, 0, 0, 0, 0, 0, 0, 0, 0, 0, 0, 0, 0])"
  "parse_exit_policy_rule zero_rule (str ''reject [fe80::]/10:*'') = Some (reject_host6 [254, 128, 0, 0, 0, 0, 0, 0, 0, 0, 0, 0, 0, 0, 0, 0])"
  "parse_exit_policy_rule zero_rule (str ''reject [::ffff:0:0]/96:*'') = Some (reject_host6 [0, 0, 0, 0, 0, 0, 0, 0, 0, 0, 255, 255, 0, 0, 0, 0])"
  by (simp_all add: rule_eval text_eval reject_host6_def mask128 map2_ones zeros)

lemma default_ports:
  "parse_exit_policy_rule zero_rule (str ''reject *:25'') = Some (reject_ports 25 25)"
  "parse_exit_policy_rule zero_rule (str ''reject *:119'') = Some (reject_ports 119 119)"
  "parse_exit_policy_rule zero_rule (str ''reject *:135-139'') = Some (reject_ports 135 139)"
  "parse_exit_policy_rule zero_rule (str ''reject *:445'') = Some (reject_ports 445 445)"
  "parse_exit_policy_rule zero_rule (str ''reject *:563'') = Some (reject_ports 563 563)"
  "parse_exit_policy_rule zero_rule (str ''reject *:1214'') = Some (reject_ports 1214 1214)"
  "parse_exit_policy_rule zero_rule (str ''reject *:4661-4666'') = Some (reject_ports 4661 4666)"
  "parse_exit_policy_rule zero_rule (str ''reject *:6346-6429'') = Some (reject_ports 6346 6429)"
  "parse_exit_policy_rule zero_rule (str ''reject *:6699'') = Some (reject_ports 6699 6699)"
  "parse_exit_policy_rule zero_rule (str ''reject *:6881-6999'') = Some (reject_ports 6881 6999)"
  "parse_exit_policy_rule zero_rule (str ''reject *:465'') = Some (reject_ports 465 465)"
  "parse_exit_policy_rule zero_rule (str ''reject *:587'') = Some (reject_ports 587 587)"
  "parse_exit_policy_rule zero_rule (str ''accept *:*'') = Some accept_all"
  by (simp_all add: rule_eval text_eval reject_ports_def accept_all_def)

lemma default_rules:
  "moor_exit_policy_set_defaults =
    [reject_net 0 8, reject_net 0x0A000000 8, reject_net 0x64400000 10, reject_net 0x7F000000 8,
     reject_net 0xA9FE0000 16, reject_net 0xAC100000 12, reject_net 0xC0A80000 16,
     reject_host6 [0, 0, 0, 0, 0, 0, 0, 0, 0, 0, 0, 0, 0, 0, 0, 1], reject_host6 [252, 0, 0, 0, 0, 0, 0, 0, 0, 0, 0, 0, 0, 0, 0, 0],
     reject_host6 [254, 128, 0, 0, 0, 0, 0, 0, 0, 0, 0, 0, 0, 0, 0, 0], reject_host6 [0, 0, 0, 0, 0, 0, 0, 0, 0, 0, 255, 255, 0, 0, 0, 0],
     reject_ports 25 25, reject_ports 119 119, reject_ports 135 139, reject_ports 445 445, reject_ports 563 563,
     reject_ports 1214 1214, reject_ports 4661 4666, reject_ports 6346 6429, reject_ports 6699 6699,
     reject_ports 6881 6999, reject_ports 465 465, reject_ports 587 587, accept_all]"
  by (simp add: moor_exit_policy_set_defaults_def policy_defaults_def MOOR_MAX_EXIT_RULES_def default_nets default_hosts6 default_ports
      del: replicate.simps)
section \<open>What the default policy lets through\<close>

definition default_blocked_ports :: "nat set" where
  "default_blocked_ports = {25, 119, 445, 465, 563, 587, 1214, 6699} \<union> {135..139} \<union> {4661..4666} \<union> {6346..6429} \<union> {6881..6999}"

definition private_quad :: "byte \<Rightarrow> byte \<Rightarrow> bool" where
  "private_quad a b \<longleftrightarrow> a = 0 \<or> a = 10 \<or> a = 127 \<or> a = 100 \<and> 64 \<le> b \<and> b \<le> 127 \<or> a = 169 \<and> b = 254 \<or>
     a = 172 \<and> 16 \<le> b \<and> b \<le> 31 \<or> a = 192 \<and> b = 168"

lemma scan_net: "policy_scan (reject_net ip k # rest) False x a port =
    (if x AND NOT (mask (32 - k)) = ip then False else policy_scan rest False x a port)"
  by (simp add: rule_addr_match_def rule_port_match_def reject_net_def zero_rule_def)

lemma scan_net6: "policy_scan (reject_net ip k # rest) True x a port = policy_scan rest True x a port"
  by (simp add: rule_addr_match_def reject_net_def zero_rule_def)

lemma scan_host4: "policy_scan (reject_host6 h # rest) False x a port = policy_scan rest False x a port"
  by (simp add: rule_addr_match_def reject_host6_def zero_rule_def)

lemma scan_host6:
  assumes "length a = 16" and "length h = 16"
  shows "policy_scan (reject_host6 h # rest) True x a port = (if a = h then False else policy_scan rest True x a port)"
proof -
  have "(255 :: byte) = - 1" by simp
  then have "x AND 255 = x" for x :: byte by (simp only: and_minus_numerals bit.conj_one_right)
  then have "ipv6_masked_eq a h (replicate 16 255) \<longleftrightarrow> a = h"
    using assms by (auto simp: ipv6_masked_eq_def list_all_iff list_eq_iff_nth_eq)
  then show ?thesis by (simp add: rule_addr_match_def rule_port_match_def reject_host6_def zero_rule_def)
qed

lemma scan_ports: "policy_scan (reject_ports lo hi # rest) v x a port =
    (if unat lo \<le> unat port \<and> unat port \<le> unat hi then False else policy_scan rest v x a port)"
  by (simp add: rule_addr_match_def rule_port_match_def reject_ports_def zero_rule_def word_le_nat_alt)

lemma scan_all: "policy_scan (accept_all # rest) v x a port = True"
  by (simp add: rule_addr_match_def rule_port_match_def accept_all_def zero_rule_def)

lemma de32_and: "de32 a b c d AND de32 a' b' c' d' = de32 (a AND a') (b AND b') (c AND c') (d AND d')"
  by (rule bit_word_eqI) (auto simp: de32_def bit_simps)

lemma de32_eq_iff: "de32 a b c d = de32 a' b' c' d' \<longleftrightarrow> a = a' \<and> b = b' \<and> c = c' \<and> d = d'"
proof
  assume "de32 a b c d = de32 a' b' c' d'"
  then have "be32 (de32 a b c d) = be32 (de32 a' b' c' d')" by simp
  then show "a = a' \<and> b = b' \<and> c = c' \<and> d = d'" by (simp only: be32_de32 list.inject)
qed simp

lemma net_masks:
  "NOT (mask 24) = de32 255 0 0 0" "NOT (mask 22) = de32 255 192 0 0" "NOT (mask 20) = de32 255 240 0 0"
  "NOT (mask 16) = de32 255 255 0 0"
  by (simp_all add: de32_def mask_eq_exp_minus_1 not_eq_complement)

lemma net_addrs:
  "0 = de32 0 0 0 0" "0x0A000000 = de32 10 0 0 0" "0x64400000 = de32 100 64 0 0" "0x7F000000 = de32 127 0 0 0"
  "0xA9FE0000 = de32 169 254 0 0" "0xAC100000 = de32 172 16 0 0" "0xC0A80000 = de32 192 168 0 0"
  by (simp_all add: de32_def)

lemma byte_ranges:
  "b AND 192 = 64 \<longleftrightarrow> 64 \<le> b \<and> b \<le> (127 :: byte)" (is ?A)
  "b AND 240 = 16 \<longleftrightarrow> 16 \<le> b \<and> b \<le> (31 :: byte)" (is ?B)
proof -
  have m: "(192 :: byte) = NOT (mask 6)" "(64 :: byte) AND NOT (mask 6) = 64" "(240 :: byte) = NOT (mask 4)"
    "(16 :: byte) AND NOT (mask 4) = 16" by (simp_all add: mask_eq_exp_minus_1 not_eq_complement)
  have "b AND 192 = 64 \<longleftrightarrow> drop_bit 6 b = drop_bit 6 64" using masked_eq_drop_bit [of b 6 64] m by simp
  also have "\<dots> \<longleftrightarrow> unat b div 64 = 1" by (simp add: word_unat_eq_iff drop_bit_eq_div unat_div)
  also have "\<dots> \<longleftrightarrow> 64 \<le> unat b \<and> unat b \<le> 127" by linarith
  finally show ?A by (simp add: word_le_nat_alt)
  have "b AND 240 = 16 \<longleftrightarrow> drop_bit 4 b = drop_bit 4 16" using masked_eq_drop_bit [of b 4 16] m by simp
  also have "\<dots> \<longleftrightarrow> unat b div 16 = 1" by (simp add: word_unat_eq_iff drop_bit_eq_div unat_div)
  also have "\<dots> \<longleftrightarrow> 16 \<le> unat b \<and> unat b \<le> 31" by linarith
  finally show ?B by (simp add: word_le_nat_alt)
qed

lemma byte_and_255: "(x :: byte) AND 255 = x"
proof -
  have "(255 :: byte) = - 1" by simp
  then show ?thesis by (simp only: and_minus_numerals bit.conj_one_right)
qed

lemma default_scan_ports:
  "policy_scan [reject_ports 25 25, reject_ports 119 119, reject_ports 135 139, reject_ports 445 445, reject_ports 563 563,
     reject_ports 1214 1214, reject_ports 4661 4666, reject_ports 6346 6429, reject_ports 6699 6699,
     reject_ports 6881 6999, reject_ports 465 465, reject_ports 587 587, accept_all] v x y port \<longleftrightarrow>
    unat port \<notin> default_blocked_ports"
  by (auto simp only: scan_ports scan_all) (auto simp: default_blocked_ports_def)

lemma default_scan4:
  "policy_scan moor_exit_policy_set_defaults False (de32 a b c d) [] port \<longleftrightarrow>
    \<not> private_quad a b \<and> unat port \<notin> default_blocked_ports"
proof -
  have n: "(de32 a b c d AND NOT (mask 24) = de32 x 0 0 0) = (a = x)" for x
    by (simp add: net_masks de32_and de32_eq_iff byte_and_255)
  have n2: "(de32 a b c d AND NOT (mask 22) = de32 100 64 0 0) = (a = 100 \<and> 64 \<le> b \<and> b \<le> 127)"
    "(de32 a b c d AND NOT (mask 20) = de32 172 16 0 0) = (a = 172 \<and> 16 \<le> b \<and> b \<le> 31)"
    "(de32 a b c d AND NOT (mask 16) = de32 x y 0 0) = (a = x \<and> b = y)" for x y
    by (simp_all add: net_masks de32_and de32_eq_iff byte_and_255 byte_ranges)
  have d: "(32 :: nat) - 8 = 24" "(32 :: nat) - 10 = 22" "(32 :: nat) - 12 = 20" "(32 :: nat) - 16 = 16" by simp_all
  show ?thesis unfolding default_rules scan_net scan_host4 default_scan_ports d net_addrs n n2 by (auto simp: private_quad_def)
qed

definition default_blocked6 :: "bytes set" where
  "default_blocked6 = {[0, 0, 0, 0, 0, 0, 0, 0, 0, 0, 0, 0, 0, 0, 0, 1], [252, 0, 0, 0, 0, 0, 0, 0, 0, 0, 0, 0, 0, 0, 0, 0],
     [254, 128, 0, 0, 0, 0, 0, 0, 0, 0, 0, 0, 0, 0, 0, 0], [0, 0, 0, 0, 0, 0, 0, 0, 0, 0, 255, 255, 0, 0, 0, 0]}"

lemma default_scan6:
  assumes "length a = 16"
  shows "policy_scan moor_exit_policy_set_defaults True x a port \<longleftrightarrow>
    a \<notin> default_blocked6 \<and> unat port \<notin> default_blocked_ports"
  unfolding default_rules scan_net6 by (simp add: scan_host6 [OF assms] default_scan_ports default_blocked6_def del: policy_scan.simps)

text \<open>
  C13. Under the default policy an IPv4 address and port may be reached exactly when the
  address is in none of the private, loopback, link-local and carrier-grade NAT networks nor
  in 0.0.0.0/8, and the port is not one of the blocked ones.
\<close>

theorem default_policy_ipv4:
  "moor_exit_policy_allows moor_exit_policy_set_defaults (Some (quad a b c d)) port \<longleftrightarrow>
    \<not> private_quad a b \<and> unat port \<notin> default_blocked_ports"
  unfolding allows_quad by (rule default_scan4)

text \<open>
  C35. For IPv6 the default policy blocks four single addresses only: the prefix lengths after
  the closing bracket of its rules are cut off with the bracket, so the unique-local,
  link-local and IPv4-mapped networks are let through apart from their first address.
\<close>

theorem default_policy_ipv6_prefix_lost:
  assumes "58 \<in> set s" and "parse_ipv6 s = Some a"
  shows "moor_exit_policy_allows moor_exit_policy_set_defaults (Some s) port \<longleftrightarrow>
    a \<notin> default_blocked6 \<and> unat port \<notin> default_blocked_ports"
proof -
  have "length a = 16" using assms(2) by (auto simp: parse_ipv6_def split: option.splits dest: inet_pton6_length)
  then show ?thesis using assms by (simp add: moor_exit_policy_allows_def default_scan6)
qed

theorem default_policy_ipv6_prefix_lost_witness:
  "moor_exit_policy_allows moor_exit_policy_set_defaults (Some (str ''fd00::1'')) 80 \<and>
   moor_exit_policy_allows moor_exit_policy_set_defaults (Some (str ''fe80::2'')) 80 \<and>
   \<not> moor_exit_policy_allows moor_exit_policy_set_defaults (Some (str ''::1'')) 80"
proof -
  have c: "58 \<in> set (str ''fd00::1'')" "58 \<in> set (str ''fe80::2'')" "58 \<in> set (str ''::1'')" by (simp_all add: str_def)
  have p: "parse_ipv6 (str ''fd00::1'') = Some [253, 0, 0, 0, 0, 0, 0, 0, 0, 0, 0, 0, 0, 0, 0, 1]" "parse_ipv6 (str ''fe80::2'') = Some [254, 128, 0, 0, 0, 0, 0, 0, 0, 0, 0, 0, 0, 0, 0, 2]"
    "parse_ipv6 (str ''::1'') = Some [0, 0, 0, 0, 0, 0, 0, 0, 0, 0, 0, 0, 0, 0, 0, 1]"
    by (simp_all add: parse_ipv6_def text_eval zeros)
  have "unat (80 :: u16) \<notin> default_blocked_ports" by (simp add: default_blocked_ports_def)
  then show ?thesis
    using default_policy_ipv6_prefix_lost [OF c(1) p(1), of 80] default_policy_ipv6_prefix_lost [OF c(2) p(2), of 80]
      default_policy_ipv6_prefix_lost [OF c(3) p(3), of 80] by (simp add: default_blocked6_def)
qed

end
