(* ===== verification/DnsCache.thy ===== *)
theory DnsCache
  imports NetText
begin

text \<open>
  The resolver cache of an exit relay (\<open>src/src/dns_cache.c\<close>): 512 entries chained into 1024
  hash buckets, with expiry and least-recently-used replacement. Links are indices, with
  \<open>None\<close> for the -1 of the code. The loops along a chain take a number of steps as fuel, and
  the result \<open>None\<close> means that it ran out; the lemmas show that 513 steps always suffice for
  caches that hold non-empty names.
\<close>

section \<open>State\<close>

record moor_dns_entry =
  dn_hostname :: bytes
  dn_resolved_ip :: bytes
  dn_expires_at :: u64
  dn_last_used :: u64
  dn_hash_next :: "nat option"

record moor_dns_cache =
  dc_entries :: "moor_dns_entry list"
  dc_count :: nat
  dc_hash_buckets :: "nat option list"

definition MOOR_DNS_CACHE_SIZE :: nat where "MOOR_DNS_CACHE_SIZE = 512"
definition MOOR_DNS_HASH_BUCKETS :: nat where "MOOR_DNS_HASH_BUCKETS = 1024"

definition zero_dns_entry :: moor_dns_entry where
  "zero_dns_entry = \<lparr> dn_hostname = [], dn_resolved_ip = [], dn_expires_at = 0, dn_last_used = 0, dn_hash_next = None \<rparr>"

definition normalize_hostname :: "bytes \<Rightarrow> bytes" where
  "normalize_hostname hostname = rev (dropWhile (\<lambda>c. c = 46) (rev (map to_lower (take 255 hostname))))"

definition dns_hash :: "bytes \<Rightarrow> nat" where
  "dns_hash hostname = unat (foldl (\<lambda>h c. (push_bit 5 h + h) XOR ucast c) (5381 :: u32) hostname AND 1023)"

definition moor_dns_cache_init :: moor_dns_cache where
  "moor_dns_cache_init = \<lparr> dc_entries = replicate MOOR_DNS_CACHE_SIZE zero_dns_entry, dc_count = 0,
     dc_hash_buckets = replicate MOOR_DNS_HASH_BUCKETS None \<rparr>"

section \<open>Chains\<close>

text \<open>The pointer \<open>pp\<close> of \<open>hash_remove\<close>: into the bucket array or into an entry.\<close>

datatype chain_link = Bucket nat | Next nat

fun read_link :: "moor_dns_cache \<Rightarrow> chain_link \<Rightarrow> nat option" where
  "read_link c (Bucket b) = dc_hash_buckets c ! b"
| "read_link c (Next i) = dn_hash_next (dc_entries c ! i)"

definition set_entry :: "nat \<Rightarrow> moor_dns_entry \<Rightarrow> moor_dns_cache \<Rightarrow> moor_dns_cache" where
  "set_entry i e c = c\<lparr>dc_entries := (dc_entries c)[i := e]\<rparr>"

fun write_link :: "chain_link \<Rightarrow> nat option \<Rightarrow> moor_dns_cache \<Rightarrow> moor_dns_cache" where
  "write_link (Bucket b) v c = c\<lparr>dc_hash_buckets := (dc_hash_buckets c)[b := v]\<rparr>"
| "write_link (Next i) v c = set_entry i ((dc_entries c ! i)\<lparr>dn_hash_next := v\<rparr>) c"

fun unlink_loop :: "nat \<Rightarrow> nat \<Rightarrow> chain_link \<Rightarrow> moor_dns_cache \<Rightarrow> moor_dns_cache option" where
  "unlink_loop 0 idx pp c = None"
| "unlink_loop (Suc fuel) idx pp c =
     (case read_link c pp of
        None \<Rightarrow> Some c
      | Some j \<Rightarrow>
          if j = idx
          then let c1 = write_link pp (dn_hash_next (dc_entries c ! idx)) c
               in Some (write_link (Next idx) None c1)
          else unlink_loop fuel idx (Next j) c)"

definition hash_remove :: "nat \<Rightarrow> nat \<Rightarrow> moor_dns_cache \<Rightarrow> moor_dns_cache option" where
  "hash_remove fuel idx c =
    (if dn_hostname (dc_entries c ! idx) = [] then Some c
     else unlink_loop fuel idx (Bucket (dns_hash (dn_hostname (dc_entries c ! idx)))) c)"

definition hash_insert :: "nat \<Rightarrow> moor_dns_cache \<Rightarrow> moor_dns_cache" where
  "hash_insert idx c =
    (let b = dns_hash (dn_hostname (dc_entries c ! idx));
         c1 = write_link (Next idx) (dc_hash_buckets c ! b) c
     in write_link (Bucket b) (Some idx) c1)"

text \<open>The entry with a given name along a chain.\<close>

fun find_chain :: "nat \<Rightarrow> moor_dns_cache \<Rightarrow> bytes \<Rightarrow> nat option \<Rightarrow> nat option option" where
  "find_chain 0 c name l = None"
| "find_chain (Suc fuel) c name l =
     (case l of
        None \<Rightarrow> Some None
      | Some i \<Rightarrow> if dn_hostname (dc_entries c ! i) = name then Some (Some i)
                  else find_chain fuel c name (dn_hash_next (dc_entries c ! i)))"

section \<open>Operations\<close>

text \<open>Removing an entry from its chain and clearing it.\<close>

definition drop_entry :: "nat \<Rightarrow> nat \<Rightarrow> moor_dns_cache \<Rightarrow> moor_dns_cache option" where
  "drop_entry fuel i c =
    map_option (\<lambda>c1. (set_entry i zero_dns_entry c1)\<lparr>dc_count := dc_count c1 - 1\<rparr>) (hash_remove fuel i c)"

definition moor_dns_cache_lookup :: "nat \<Rightarrow> u64 \<Rightarrow> bytes \<Rightarrow> nat \<Rightarrow> moor_dns_cache \<Rightarrow> (bytes option \<times> moor_dns_cache) option" where
  "moor_dns_cache_lookup fuel now hostname ip_len c =
    (if ip_len = 0 then Some (None, c)
     else let norm = normalize_hostname hostname
          in case find_chain fuel c norm (dc_hash_buckets c ! dns_hash norm) of
               None \<Rightarrow> None
             | Some None \<Rightarrow> Some (None, c)
             | Some (Some idx) \<Rightarrow>
                 let e = dc_entries c ! idx in
                 if now \<ge> dn_expires_at e
                 then map_option (\<lambda>c1. (None, c1)) (drop_entry fuel idx c)
                 else Some (Some (take (ip_len - 1) (dn_resolved_ip e)), set_entry idx (e\<lparr>dn_last_used := now\<rparr>) c))"

definition valid_ip :: "bytes \<Rightarrow> bool" where
  "valid_ip ip \<longleftrightarrow> inet_pton4 ip \<noteq> None \<or> inet_pton6 ip \<noteq> None"

definition cap_ttl :: "u32 \<Rightarrow> u32" where
  "cap_ttl ttl = (let t = (if ttl > 3600 then 3600 else ttl) in if t = 0 then 60 else t)"

definition lru_index :: "moor_dns_entry list \<Rightarrow> nat" where
  "lru_index es = foldl (\<lambda>lru i. if dn_last_used (es ! i) < dn_last_used (es ! lru) then i else lru) 0 [1..<MOOR_DNS_CACHE_SIZE]"

text \<open>Filling a slot: the link of the entry is kept until \<open>hash_insert\<close> sets it.\<close>

definition fill_entry :: "nat \<Rightarrow> bytes \<Rightarrow> bytes \<Rightarrow> u64 \<Rightarrow> u64 \<Rightarrow> moor_dns_cache \<Rightarrow> moor_dns_cache" where
  "fill_entry i norm ip expires now c =
    hash_insert i (set_entry i ((dc_entries c ! i)\<lparr>dn_hostname := norm, dn_resolved_ip := take 63 ip,
      dn_expires_at := expires, dn_last_used := now\<rparr>) c)"

definition moor_dns_cache_insert :: "nat \<Rightarrow> u64 \<Rightarrow> bytes \<Rightarrow> bytes \<Rightarrow> u32 \<Rightarrow> moor_dns_cache \<Rightarrow> moor_dns_cache option" where
  "moor_dns_cache_insert fuel now hostname ip ttl c =
    (if \<not> valid_ip ip then Some c
     else let norm = normalize_hostname hostname;
              expires = now + ucast (cap_ttl ttl)
          in case find_chain fuel c norm (dc_hash_buckets c ! dns_hash norm) of
               None \<Rightarrow> None
             | Some (Some idx) \<Rightarrow>
                 Some (set_entry idx ((dc_entries c ! idx)\<lparr>dn_resolved_ip := take 63 ip, dn_expires_at := expires, dn_last_used := now\<rparr>) c)
             | Some None \<Rightarrow>
                 (case (if dc_count c < MOOR_DNS_CACHE_SIZE then first_index (\<lambda>e. dn_hostname e = []) (dc_entries c) else None) of
                    Some i \<Rightarrow> Some ((fill_entry i norm ip expires now c)\<lparr>dc_count := dc_count c + 1\<rparr>)
                  | None \<Rightarrow>
                      let lru = lru_index (dc_entries c)
                      in map_option (fill_entry lru norm ip expires now) (hash_remove fuel lru c)))"

fun evict_loop :: "nat \<Rightarrow> u64 \<Rightarrow> nat list \<Rightarrow> moor_dns_cache \<Rightarrow> moor_dns_cache option" where
  "evict_loop fuel now [] c = Some c"
| "evict_loop fuel now (i # is) c =
     (if dn_hostname (dc_entries c ! i) \<noteq> [] \<and> now \<ge> dn_expires_at (dc_entries c ! i)
      then (case drop_entry fuel i c of None \<Rightarrow> None | Some c1 \<Rightarrow> evict_loop fuel now is c1)
      else evict_loop fuel now is c)"

definition moor_dns_cache_evict_expired :: "nat \<Rightarrow> u64 \<Rightarrow> moor_dns_cache \<Rightarrow> moor_dns_cache option" where
  "moor_dns_cache_evict_expired fuel now c = evict_loop fuel now [0..<MOOR_DNS_CACHE_SIZE] c"
section \<open>Chains as lists\<close>

text \<open>\<open>chain es l xs\<close>: following the links from \<open>l\<close> visits exactly the entries \<open>xs\<close> and ends.\<close>

fun chain :: "moor_dns_entry list \<Rightarrow> nat option \<Rightarrow> nat list \<Rightarrow> bool" where
  "chain es l [] \<longleftrightarrow> l = None"
| "chain es l (i # xs) \<longleftrightarrow> l = Some i \<and> i < length es \<and> chain es (dn_hash_next (es ! i)) xs"

definition live :: "moor_dns_entry list \<Rightarrow> nat \<Rightarrow> nat set" where
  "live es b = {i. i < length es \<and> dn_hostname (es ! i) \<noteq> [] \<and> dns_hash (dn_hostname (es ! i)) = b}"

definition chained :: "moor_dns_cache \<Rightarrow> (nat \<Rightarrow> nat list) \<Rightarrow> bool" where
  "chained c ch \<longleftrightarrow> (\<forall>b < MOOR_DNS_HASH_BUCKETS. chain (dc_entries c) (dc_hash_buckets c ! b) (ch b) \<and> distinct (ch b) \<and>
     set (ch b) = live (dc_entries c) b)"

definition names_distinct :: "moor_dns_entry list \<Rightarrow> bool" where
  "names_distinct es \<longleftrightarrow> (\<forall>i < length es. \<forall>j < length es. dn_hostname (es ! i) \<noteq> [] \<longrightarrow>
     dn_hostname (es ! i) = dn_hostname (es ! j) \<longrightarrow> i = j)"

definition dns_inv :: "moor_dns_cache \<Rightarrow> bool" where
  "dns_inv c \<longleftrightarrow> length (dc_entries c) = MOOR_DNS_CACHE_SIZE \<and> length (dc_hash_buckets c) = MOOR_DNS_HASH_BUCKETS \<and>
     (\<exists>ch. chained c ch) \<and> names_distinct (dc_entries c)"

lemma dns_hash_less: "dns_hash h < MOOR_DNS_HASH_BUCKETS"
proof -
  have "(x :: u32) AND 1023 = take_bit 10 x" for x by (simp add: take_bit_eq_mask mask_eq_exp_minus_1)
  then have "dns_hash h < 2 ^ 10" unfolding dns_hash_def by (simp only: unsigned_take_bit_eq take_bit_nat_less_exp)
  then show ?thesis by (simp add: MOOR_DNS_HASH_BUCKETS_def)
qed

lemma set_entry_simps [simp]:
  "dc_entries (set_entry i e c) = (dc_entries c)[i := e]" "dc_hash_buckets (set_entry i e c) = dc_hash_buckets c"
  "dc_count (set_entry i e c) = dc_count c"
  by (simp_all add: set_entry_def)

lemma chain_frame: "(\<And>i. i \<in> set xs \<Longrightarrow> dn_hash_next (es' ! i) = dn_hash_next (es ! i)) \<Longrightarrow> length es' = length es \<Longrightarrow>
    chain es' l xs = chain es l xs"
  by (induction xs arbitrary: l) auto

lemma chain_less: "chain es l xs \<Longrightarrow> i \<in> set xs \<Longrightarrow> i < length es"
  by (induction xs arbitrary: l) auto

lemma chain_short: "chain es l xs \<Longrightarrow> distinct xs \<Longrightarrow> length xs \<le> length es"
proof -
  assume "chain es l xs" "distinct xs"
  then have "set xs \<subseteq> {..<length es}" using chain_less by blast
  then have "card (set xs) \<le> card {..<length es}" by (intro card_mono) auto
  then show ?thesis using \<open>distinct xs\<close> by (simp add: distinct_card)
qed

lemma find_chain_spec:
  "chain (dc_entries c) l xs \<Longrightarrow> length xs < fuel \<Longrightarrow>
    find_chain fuel c name l = Some (find (\<lambda>i. dn_hostname (dc_entries c ! i) = name) xs)"
proof (induction xs arbitrary: l fuel)
  case Nil
  then show ?case by (cases fuel) auto
next
  case (Cons i xs)
  then obtain f where "fuel = Suc f" by (cases fuel) auto
  then show ?case using Cons by auto
qed

lemma dns_inv_length: "dns_inv c \<Longrightarrow> length (dc_entries c) = MOOR_DNS_CACHE_SIZE"
  by (simp add: dns_inv_def)

lemma find_chain_cases:
  assumes "dns_inv c" and "512 < fuel" and "norm \<noteq> []"
  obtains (miss) "find_chain fuel c norm (dc_hash_buckets c ! dns_hash norm) = Some None"
      "\<And>i. i < MOOR_DNS_CACHE_SIZE \<Longrightarrow> dn_hostname (dc_entries c ! i) \<noteq> norm"
    | (hit) i where "find_chain fuel c norm (dc_hash_buckets c ! dns_hash norm) = Some (Some i)"
      "i < MOOR_DNS_CACHE_SIZE" "dn_hostname (dc_entries c ! i) = norm"
proof -
  obtain ch where ch: "chained c ch" using assms(1) by (auto simp: dns_inv_def)
  let ?b = "dns_hash norm"
  note len = dns_inv_length [OF assms(1)]
  have c: "chain (dc_entries c) (dc_hash_buckets c ! ?b) (ch ?b)" "distinct (ch ?b)" "set (ch ?b) = live (dc_entries c) ?b"
    using ch dns_hash_less by (auto simp: chained_def)
  have "length (ch ?b) < fuel" using chain_short [OF c(1,2)] assms(2) len by (simp add: MOOR_DNS_CACHE_SIZE_def)
  note f = find_chain_spec [OF c(1) this, of norm]
  show thesis
  proof (cases "find (\<lambda>i. dn_hostname (dc_entries c ! i) = norm) (ch ?b)")
    case None
    then have "i < MOOR_DNS_CACHE_SIZE \<Longrightarrow> dn_hostname (dc_entries c ! i) \<noteq> norm" for i
      using c(3) len assms(3) by (auto simp: find_None_iff live_def)
    then show thesis using f None miss by simp
  next
    case (Some i)
    then have "i \<in> set (ch ?b)" "dn_hostname (dc_entries c ! i) = norm" by (auto simp: find_Some_iff)
    then show thesis using f Some c(3) len hit by (auto simp: live_def)
  qed
qed

section \<open>Taking an entry out of its chain and putting it in\<close>

fun link_ok :: "moor_dns_cache \<Rightarrow> nat list \<Rightarrow> chain_link \<Rightarrow> bool" where
  "link_ok c xs (Bucket b) \<longleftrightarrow> b < length (dc_hash_buckets c)"
| "link_ok c xs (Next j) \<longleftrightarrow> j < length (dc_entries c) \<and> j \<notin> set xs"

text \<open>Nothing but links differs.\<close>

definition relinked :: "moor_dns_cache \<Rightarrow> moor_dns_cache \<Rightarrow> bool" where
  "relinked c c' \<longleftrightarrow> length (dc_entries c') = length (dc_entries c) \<and> length (dc_hash_buckets c') = length (dc_hash_buckets c) \<and>
     dc_count c' = dc_count c \<and>
     (\<forall>k < length (dc_entries c). dc_entries c' ! k = (dc_entries c ! k)\<lparr>dn_hash_next := dn_hash_next (dc_entries c' ! k)\<rparr>)"

lemma relinked_live: "relinked c c' \<Longrightarrow> live (dc_entries c') b = live (dc_entries c) b"
proof -
  assume r: "relinked c c'"
  have "dn_hostname (dc_entries c' ! k) = dn_hostname (dc_entries c ! k)" if "k < length (dc_entries c)" for k
  proof -
    have "dc_entries c' ! k = (dc_entries c ! k)\<lparr>dn_hash_next := dn_hash_next (dc_entries c' ! k)\<rparr>"
      using r that unfolding relinked_def by blast
    then show ?thesis by (metis moor_dns_entry.select_convs(1) moor_dns_entry.surjective moor_dns_entry.update_convs(5))
  qed
  then show ?thesis using r by (auto simp: live_def relinked_def)
qed

lemma write_relinked: "relinked c (write_link pp v c)"
proof (cases pp)
  case (Next j)
  then show ?thesis by (cases "j < length (dc_entries c)") (auto simp: relinked_def nth_list_update list_update_beyond)
qed (simp add: relinked_def)

lemma relinked_trans: "relinked c1 c2 \<Longrightarrow> relinked c2 c3 \<Longrightarrow> relinked c1 c3"
  unfolding relinked_def by (metis moor_dns_entry.surjective moor_dns_entry.update_convs(5))

lemma unlink_spec:
  assumes "chain (dc_entries c) (read_link c pp) xs" and "distinct xs" and "idx \<in> set xs" and "length xs \<le> fuel" and "link_ok c xs pp"
  shows "\<exists>c'. unlink_loop fuel idx pp c = Some c' \<and> chain (dc_entries c') (read_link c' pp) (remove1 idx xs) \<and> relinked c c' \<and>
    (\<forall>k. k \<notin> set xs \<longrightarrow> pp \<noteq> Next k \<longrightarrow> dc_entries c' ! k = dc_entries c ! k) \<and>
    (\<forall>b. pp \<noteq> Bucket b \<longrightarrow> dc_hash_buckets c' ! b = dc_hash_buckets c ! b)"
  using assms
proof (induction xs arbitrary: pp fuel)
  case (Cons i xs)
  then obtain f where f: "fuel = Suc f" by (cases fuel) auto
  have rd: "read_link c pp = Some i" "i < length (dc_entries c)" "chain (dc_entries c) (dn_hash_next (dc_entries c ! i)) xs"
    using Cons.prems(1) by auto
  show ?case
  proof (cases "i = idx")
    case True
    define c1 where "c1 = write_link pp (dn_hash_next (dc_entries c ! idx)) c"
    define c' where "c' = write_link (Next idx) None c1"
    have u: "unlink_loop fuel idx pp c = Some c'" using f rd True by (simp add: c'_def c1_def Let_def)
    have rl: "relinked c c'" unfolding c'_def c1_def using write_relinked relinked_trans by blast
    have k: "dc_entries c' ! k = dc_entries c ! k" if "k \<noteq> idx" "pp \<noteq> Next k" for k
      using that by (cases pp) (auto simp: c'_def c1_def)
    have "read_link c' pp = dn_hash_next (dc_entries c ! idx)"
      using Cons.prems(5) True rd(2) by (cases pp) (auto simp: c'_def c1_def nth_list_update)
    moreover have "pp \<noteq> Next j" if "j \<in> set xs" for j using Cons.prems(5) that by (cases pp) auto
    then have "dc_entries c' ! j = dc_entries c ! j" if "j \<in> set xs" for j using k [of j] Cons.prems(2) True that by auto
    then have "chain (dc_entries c') l xs = chain (dc_entries c) l xs" for l
      using rl by (intro chain_frame) (simp_all add: relinked_def)
    moreover have "pp \<noteq> Bucket b \<longrightarrow> dc_hash_buckets c' ! b = dc_hash_buckets c ! b" for b
      by (cases pp) (auto simp: c'_def c1_def)
    ultimately show ?thesis using u rl k rd(3) True Cons.prems(3) by auto
  next
    case False
    have "link_ok c xs (Next i)" using rd(2) Cons.prems(2) by simp
    moreover have "idx \<in> set xs" "distinct xs" "length xs \<le> f" using Cons.prems False f by auto
    ultimately obtain c' where c': "unlink_loop f idx (Next i) c = Some c'" "chain (dc_entries c') (read_link c' (Next i)) (remove1 idx xs)"
      "relinked c c'" "\<And>k. k \<notin> set xs \<Longrightarrow> Next i \<noteq> Next k \<Longrightarrow> dc_entries c' ! k = dc_entries c ! k"
      "\<And>b. dc_hash_buckets c' ! b = dc_hash_buckets c ! b"
      using Cons.IH [of "Next i" f] rd(3) by auto
    have "read_link c' pp = Some i" using rd(1) Cons.prems(5) c'(4,5) by (cases pp) auto
    moreover have "length (dc_entries c') = length (dc_entries c)" using c'(3) by (simp add: relinked_def)
    ultimately show ?thesis using f rd False c' by auto
  qed
qed simp

text \<open>A cache in which entry \<open>i\<close> is in no chain.\<close>

definition dns_but :: "nat \<Rightarrow> moor_dns_cache \<Rightarrow> bool" where
  "dns_but i c \<longleftrightarrow> length (dc_entries c) = MOOR_DNS_CACHE_SIZE \<and> length (dc_hash_buckets c) = MOOR_DNS_HASH_BUCKETS \<and>
     (\<exists>ch. \<forall>b < MOOR_DNS_HASH_BUCKETS. chain (dc_entries c) (dc_hash_buckets c ! b) (ch b) \<and> distinct (ch b) \<and>
       set (ch b) = live (dc_entries c) b - {i})"

lemma dns_but_empty: "dns_inv c \<Longrightarrow> dn_hostname (dc_entries c ! i) = [] \<Longrightarrow> dns_but i c"
proof -
  assume c: "dns_inv c" and e: "dn_hostname (dc_entries c ! i) = []"
  have "live (dc_entries c) b - {i} = live (dc_entries c) b" for b using e by (auto simp: live_def)
  then show ?thesis using c by (simp add: dns_inv_def dns_but_def chained_def)
qed

lemma hash_remove_spec:
  assumes "dns_inv c" and "512 < fuel" and "i < MOOR_DNS_CACHE_SIZE"
  shows "\<exists>c'. hash_remove fuel i c = Some c' \<and> dns_but i c' \<and> relinked c c'"
proof (cases "dn_hostname (dc_entries c ! i) = []")
  case True
  then show ?thesis using dns_but_empty [OF assms(1)] by (auto simp: hash_remove_def relinked_def)
next
  case False
  let ?b = "dns_hash (dn_hostname (dc_entries c ! i))"
  obtain ch where ch: "chained c ch" using assms(1) by (auto simp: dns_inv_def)
  have L: "length (dc_entries c) = MOOR_DNS_CACHE_SIZE" "length (dc_hash_buckets c) = MOOR_DNS_HASH_BUCKETS"
    using assms(1) by (auto simp: dns_inv_def)
  have c: "chain (dc_entries c) (read_link c (Bucket ?b)) (ch ?b)" "distinct (ch ?b)" "set (ch ?b) = live (dc_entries c) ?b"
    using ch dns_hash_less by (auto simp: chained_def)
  have i: "i \<in> set (ch ?b)" using c(3) assms(3) L False by (simp add: live_def)
  have fu: "length (ch ?b) \<le> fuel" using chain_short [OF c(1,2)] L assms(2) by (simp add: MOOR_DNS_CACHE_SIZE_def)
  have "link_ok c (ch ?b) (Bucket ?b)" using L dns_hash_less by simp
  from unlink_spec [OF c(1,2) i fu this] obtain c' where u: "unlink_loop fuel i (Bucket ?b) c = Some c'"
    and n: "chain (dc_entries c') (dc_hash_buckets c' ! ?b) (remove1 i (ch ?b))" and r: "relinked c c'"
    and k: "\<And>k. k \<notin> set (ch ?b) \<Longrightarrow> dc_entries c' ! k = dc_entries c ! k"
    and b: "\<And>b. b \<noteq> ?b \<Longrightarrow> dc_hash_buckets c' ! b = dc_hash_buckets c ! b"
    by auto
  define ch' where "ch' = ch(?b := remove1 i (ch ?b))"
  have "chain (dc_entries c') (dc_hash_buckets c' ! b') (ch' b') \<and> distinct (ch' b') \<and> set (ch' b') = live (dc_entries c') b' - {i}"
    if b': "b' < MOOR_DNS_HASH_BUCKETS" for b'
  proof (cases "b' = ?b")
    case True
    then show ?thesis using n c(2,3) by (simp add: ch'_def relinked_live [OF r] set_remove1_eq)
  next
    case False
    have o: "chain (dc_entries c) (dc_hash_buckets c ! b') (ch b')" "distinct (ch b')" "set (ch b') = live (dc_entries c) b'"
      using ch b' by (auto simp: chained_def)
    have d: "j \<notin> set (ch ?b)" if "j \<in> set (ch b')" for j using that o(3) c(3) False by (auto simp: live_def)
    have "chain (dc_entries c') (dc_hash_buckets c ! b') (ch b')"
      using o(1) d k r chain_frame [of "ch b'" "dc_entries c'" "dc_entries c"] by (simp add: relinked_def)
    moreover have "i \<notin> live (dc_entries c) b'" using False by (simp add: live_def)
    ultimately show ?thesis using o False b by (simp add: ch'_def relinked_live [OF r])
  qed
  then have "dns_but i c'" using L r unfolding dns_but_def relinked_def by auto
  then show ?thesis using u r False by (auto simp: hash_remove_def)
qed

text \<open>Contents: what is stored under a name.\<close>

definition dns_has :: "moor_dns_cache \<Rightarrow> bytes \<Rightarrow> bytes \<Rightarrow> u64 \<Rightarrow> bool" where
  "dns_has c name ip expires \<longleftrightarrow> name \<noteq> [] \<and> (\<exists>i < length (dc_entries c). dn_hostname (dc_entries c ! i) = name \<and>
     dn_resolved_ip (dc_entries c ! i) = ip \<and> dn_expires_at (dc_entries c ! i) = expires)"

lemma relinked_fields:
  assumes "relinked c c'" and "k < length (dc_entries c)"
  shows "dn_hostname (dc_entries c' ! k) = dn_hostname (dc_entries c ! k)" "dn_resolved_ip (dc_entries c' ! k) = dn_resolved_ip (dc_entries c ! k)"
    "dn_expires_at (dc_entries c' ! k) = dn_expires_at (dc_entries c ! k)"
proof -
  have "dc_entries c' ! k = (dc_entries c ! k)\<lparr>dn_hash_next := dn_hash_next (dc_entries c' ! k)\<rparr>"
    using assms unfolding relinked_def by blast
  from arg_cong [OF this, of dn_hostname] arg_cong [OF this, of dn_resolved_ip] arg_cong [OF this, of dn_expires_at]
  show "dn_hostname (dc_entries c' ! k) = dn_hostname (dc_entries c ! k)" "dn_resolved_ip (dc_entries c' ! k) = dn_resolved_ip (dc_entries c ! k)"
    "dn_expires_at (dc_entries c' ! k) = dn_expires_at (dc_entries c ! k)" by simp_all
qed

lemma relinked_names: "relinked c c' \<Longrightarrow> names_distinct (dc_entries c') = names_distinct (dc_entries c)"
  using relinked_fields(1) [of c c'] by (auto simp: names_distinct_def relinked_def)

lemma relinked_has: "relinked c c' \<Longrightarrow> dns_has c' name ip e = dns_has c name ip e"
  using relinked_fields [of c c'] by (auto simp: dns_has_def relinked_def)

lemma clear_entry:
  assumes "dns_but i c" and "names_distinct (dc_entries c)" and "i < MOOR_DNS_CACHE_SIZE"
  shows "dns_inv (set_entry i zero_dns_entry c)" and "dns_has (set_entry i zero_dns_entry c) name ip e \<Longrightarrow> dns_has c name ip e"
proof -
  let ?c = "set_entry i zero_dns_entry c"
  obtain ch where ch: "\<And>b. b < MOOR_DNS_HASH_BUCKETS \<Longrightarrow> chain (dc_entries c) (dc_hash_buckets c ! b) (ch b) \<and> distinct (ch b) \<and>
       set (ch b) = live (dc_entries c) b - {i}" using assms(1) by (auto simp: dns_but_def)
  have len: "length (dc_entries c) = MOOR_DNS_CACHE_SIZE" using assms(1) by (simp add: dns_but_def)
  have e: "dc_entries ?c ! k = (if k = i then zero_dns_entry else dc_entries c ! k)" for k
    using assms(3) len by (simp add: nth_list_update)
  have l: "live (dc_entries ?c) b = live (dc_entries c) b - {i}" for b
    unfolding live_def e by (auto simp: zero_dns_entry_def)
  have "chained ?c ch" unfolding chained_def l
  proof (intro allI impI)
    fix b assume "b < MOOR_DNS_HASH_BUCKETS"
    note c = ch [OF this]
    then have "chain (dc_entries ?c) l (ch b) = chain (dc_entries c) l (ch b)" for l
      using e by (intro chain_frame) auto
    then show "chain (dc_entries ?c) (dc_hash_buckets ?c ! b) (ch b) \<and> distinct (ch b) \<and> set (ch b) = live (dc_entries c) b - {i}"
      using c by simp
  qed
  moreover have "names_distinct (dc_entries ?c)"
    using assms(2) unfolding names_distinct_def e by (auto simp: zero_dns_entry_def)
  ultimately show "dns_inv ?c" using assms(1) by (auto simp: dns_inv_def dns_but_def)
  show "dns_has ?c name ip e \<Longrightarrow> dns_has c name ip e"
    unfolding dns_has_def e by (auto simp: zero_dns_entry_def split: if_splits)
qed

lemma dns_count [simp]: "dns_inv (c\<lparr>dc_count := n\<rparr>) = dns_inv c" "dns_has (c\<lparr>dc_count := n\<rparr>) = dns_has c"
  by (auto simp: dns_inv_def chained_def dns_has_def fun_eq_iff)

lemma fill_entry_parts:
  assumes "i < length (dc_entries c)"
  shows "dc_hash_buckets (fill_entry i norm ip expires now c) = (dc_hash_buckets c)[dns_hash norm := Some i]"
    and "dc_entries (fill_entry i norm ip expires now c) = (dc_entries c)[i := \<lparr> dn_hostname = norm, dn_resolved_ip = take 63 ip,
      dn_expires_at = expires, dn_last_used = now, dn_hash_next = dc_hash_buckets c ! dns_hash norm \<rparr>]"
proof -
  have "(e :: moor_dns_entry)\<lparr>dn_hostname := norm, dn_resolved_ip := take 63 ip, dn_expires_at := expires, dn_last_used := now,
      dn_hash_next := v\<rparr> = \<lparr> dn_hostname = norm, dn_resolved_ip = take 63 ip, dn_expires_at = expires, dn_last_used = now, dn_hash_next = v \<rparr>" for v e
    by (rule moor_dns_entry.equality) simp_all
  note r = this
  show "dc_entries (fill_entry i norm ip expires now c) = (dc_entries c)[i := \<lparr> dn_hostname = norm, dn_resolved_ip = take 63 ip,
      dn_expires_at = expires, dn_last_used = now, dn_hash_next = dc_hash_buckets c ! dns_hash norm \<rparr>]"
    using assms by (simp add: fill_entry_def hash_insert_def Let_def) (simp only: r)
qed (use assms in \<open>simp add: fill_entry_def hash_insert_def Let_def\<close>)

lemma fill_entry_inv:
  assumes "dns_but i c" and "names_distinct (dc_entries c)" and "i < MOOR_DNS_CACHE_SIZE" and "norm \<noteq> []"
    and "\<And>k. k < MOOR_DNS_CACHE_SIZE \<Longrightarrow> k \<noteq> i \<Longrightarrow> dn_hostname (dc_entries c ! k) \<noteq> norm"
  shows "dns_inv (fill_entry i norm ip expires now c)"
    and "dns_has (fill_entry i norm ip expires now c) name a e \<longleftrightarrow>
      name = norm \<and> a = take 63 ip \<and> e = expires \<or>
      name \<noteq> [] \<and> (\<exists>k < MOOR_DNS_CACHE_SIZE. k \<noteq> i \<and> dn_hostname (dc_entries c ! k) = name \<and>
         dn_resolved_ip (dc_entries c ! k) = a \<and> dn_expires_at (dc_entries c ! k) = e)"
proof -
  let ?c = "fill_entry i norm ip expires now c" and ?b = "dns_hash norm"
  have L: "length (dc_entries c) = MOOR_DNS_CACHE_SIZE" "length (dc_hash_buckets c) = MOOR_DNS_HASH_BUCKETS"
    using assms(1) by (simp_all add: dns_but_def)
  obtain ch where ch: "\<And>b. b < MOOR_DNS_HASH_BUCKETS \<Longrightarrow> chain (dc_entries c) (dc_hash_buckets c ! b) (ch b) \<and> distinct (ch b) \<and>
       set (ch b) = live (dc_entries c) b - {i}" using assms(1) by (auto simp: dns_but_def)
  note p = fill_entry_parts [of i c norm ip expires now, unfolded L(1), OF assms(3)]
  let ?e = "\<lparr> dn_hostname = norm, dn_resolved_ip = take 63 ip, dn_expires_at = expires, dn_last_used = now,
      dn_hash_next = dc_hash_buckets c ! dns_hash norm \<rparr>"
  have ent: "dc_entries ?c ! k = (if k = i then ?e else dc_entries c ! k)" for k
    using assms(3) L by (simp add: p nth_list_update)
  have LL: "length (dc_entries ?c) = MOOR_DNS_CACHE_SIZE" "length (dc_hash_buckets ?c) = MOOR_DNS_HASH_BUCKETS" using L by (simp_all add: p)
  have l: "live (dc_entries ?c) b = (if b = ?b then insert i (live (dc_entries c) b - {i}) else live (dc_entries c) b - {i})" for b
    unfolding live_def LL ent L using assms(3,4) by auto
  have fr: "chain (dc_entries ?c) q (ch b) = chain (dc_entries c) q (ch b)" if "b < MOOR_DNS_HASH_BUCKETS" for q b
    using ch [OF that] ent L LL by (intro chain_frame) auto
  have "chained ?c (ch(?b := i # ch ?b))" unfolding chained_def l
  proof (intro allI impI)
    fix b assume b: "b < MOOR_DNS_HASH_BUCKETS"
    show "chain (dc_entries ?c) (dc_hash_buckets ?c ! b) ((ch(?b := i # ch ?b)) b) \<and> distinct ((ch(?b := i # ch ?b)) b) \<and>
      set ((ch(?b := i # ch ?b)) b) = (if b = ?b then insert i (live (dc_entries c) b - {i}) else live (dc_entries c) b - {i})"
    proof (cases "b = ?b")
      case True
      then show ?thesis using ch [OF b] fr [OF b] b L LL assms(3) ent [of i] by (simp add: p(1))
    next
      case False
      then show ?thesis using ch [OF b] fr [OF b] by (simp add: p(1))
    qed
  qed
  moreover have "names_distinct (dc_entries ?c)"
    using assms(2,5) L unfolding names_distinct_def LL ent by auto
  ultimately show "dns_inv ?c" using LL by (auto simp: dns_inv_def)
  show "dns_has ?c name a e \<longleftrightarrow> name = norm \<and> a = take 63 ip \<and> e = expires \<or>
      name \<noteq> [] \<and> (\<exists>k < MOOR_DNS_CACHE_SIZE. k \<noteq> i \<and> dn_hostname (dc_entries c ! k) = name \<and>
         dn_resolved_ip (dc_entries c ! k) = a \<and> dn_expires_at (dc_entries c ! k) = e)"
    unfolding dns_has_def LL ent using assms(3,4) by auto
qed

lemma touch_entry:
  assumes "dns_inv c" and "i < MOOR_DNS_CACHE_SIZE" and "dn_hostname e = dn_hostname (dc_entries c ! i)"
    and "dn_hash_next e = dn_hash_next (dc_entries c ! i)"
  shows "dns_inv (set_entry i e c)"
proof -
  note len = dns_inv_length [OF assms(1)]
  have h: "dn_hostname ((dc_entries c)[i := e] ! k) = dn_hostname (dc_entries c ! k)"
    "dn_hash_next ((dc_entries c)[i := e] ! k) = dn_hash_next (dc_entries c ! k)" for k
    using assms(2-4) len by (auto simp: nth_list_update)
  have "live ((dc_entries c)[i := e]) b = live (dc_entries c) b" for b by (simp add: live_def h)
  moreover have "chain ((dc_entries c)[i := e]) l xs = chain (dc_entries c) l xs" for l xs by (rule chain_frame) (simp_all add: h)
  moreover have "names_distinct ((dc_entries c)[i := e]) = names_distinct (dc_entries c)" by (simp add: names_distinct_def h)
  ultimately show ?thesis using assms(1) by (simp add: dns_inv_def chained_def)
qed

lemma drop_entry_spec:
  assumes "dns_inv c" and "512 < fuel" and "i < MOOR_DNS_CACHE_SIZE"
  shows "\<exists>c'. drop_entry fuel i c = Some c' \<and> dns_inv c' \<and> (\<forall>name ip e. dns_has c' name ip e \<longrightarrow> dns_has c name ip e)"
proof -
  obtain c1 where c1: "hash_remove fuel i c = Some c1" "dns_but i c1" "relinked c c1" using hash_remove_spec [OF assms] by blast
  have "names_distinct (dc_entries c1)" using assms(1) relinked_names [OF c1(3)] by (simp add: dns_inv_def)
  note k = clear_entry [OF c1(2) this assms(3)]
  then show ?thesis using c1 relinked_has [OF c1(3)] by (auto simp: drop_entry_def)
qed

section \<open>Operations keep the cache well formed\<close>

lemma has_at:
  assumes "dns_inv c" and "i < MOOR_DNS_CACHE_SIZE" and "dn_hostname (dc_entries c ! i) = norm" and "norm \<noteq> []"
  shows "dns_has c norm ip e \<longleftrightarrow> ip = dn_resolved_ip (dc_entries c ! i) \<and> e = dn_expires_at (dc_entries c ! i)"
proof -
  note len = dns_inv_length [OF assms(1)]
  have nd: "names_distinct (dc_entries c)" using assms(1) by (simp add: dns_inv_def)
  have only: "k = i" if "k < MOOR_DNS_CACHE_SIZE" "dn_hostname (dc_entries c ! k) = norm" for k
  proof -
    have "dn_hostname (dc_entries c ! k) \<noteq> []" "dn_hostname (dc_entries c ! k) = dn_hostname (dc_entries c ! i)"
      using that(2) assms(3,4) by simp_all
    then show ?thesis using nd that(1) assms(2) unfolding names_distinct_def len by blast
  qed
  show ?thesis
  proof
    assume "dns_has c norm ip e"
    then obtain k where "k < MOOR_DNS_CACHE_SIZE" "dn_hostname (dc_entries c ! k) = norm"
      "dn_resolved_ip (dc_entries c ! k) = ip" "dn_expires_at (dc_entries c ! k) = e" unfolding dns_has_def len by blast
    then show "ip = dn_resolved_ip (dc_entries c ! i) \<and> e = dn_expires_at (dc_entries c ! i)" using only [of k] by blast
  next
    assume "ip = dn_resolved_ip (dc_entries c ! i) \<and> e = dn_expires_at (dc_entries c ! i)"
    then show "dns_has c norm ip e" using assms(2-4) unfolding dns_has_def len by blast
  qed
qed

lemma lookup_spec:
  assumes "dns_inv c" and "512 < fuel" and "normalize_hostname h = norm" and "norm \<noteq> []" and "0 < ip_len"
  shows "\<exists>r c'. moor_dns_cache_lookup fuel now h ip_len c = Some (r, c') \<and> dns_inv c' \<and>
    (\<forall>name ip e. dns_has c' name ip e \<longrightarrow> dns_has c name ip e) \<and>
    (\<forall>a. r = Some a \<longleftrightarrow> (\<exists>ip e. dns_has c norm ip e \<and> now < e \<and> a = take (ip_len - 1) ip))"
  using assms(1,2,4)
proof (cases rule: find_chain_cases)
  case miss
  then have "\<not> dns_has c norm ip e" for ip e using dns_inv_length [OF assms(1)] by (auto simp: dns_has_def)
  then show ?thesis using assms miss by (simp add: moor_dns_cache_lookup_def Let_def)
next
  case (hit i)
  note has = has_at [OF assms(1) hit(2,3) assms(4)]
  show ?thesis
  proof (cases "now \<ge> dn_expires_at (dc_entries c ! i)")
    case True
    obtain c' where "drop_entry fuel i c = Some c'" "dns_inv c'" "\<forall>name ip e. dns_has c' name ip e \<longrightarrow> dns_has c name ip e"
      using drop_entry_spec [OF assms(1,2) hit(2)] by blast
    then show ?thesis using assms hit(1) True by (auto simp: moor_dns_cache_lookup_def Let_def has)
  next
    case False
    let ?c = "set_entry i ((dc_entries c ! i)\<lparr>dn_last_used := now\<rparr>) c"
    have "dns_inv ?c" by (rule touch_entry [OF assms(1) hit(2)]) simp_all
    moreover have "dns_has ?c name ip e \<longrightarrow> dns_has c name ip e" for name ip e
      using hit(2) dns_inv_length [OF assms(1)] by (auto simp: dns_has_def nth_list_update split: if_splits)
    ultimately show ?thesis using assms hit(1) False by (auto simp: moor_dns_cache_lookup_def Let_def has)
  qed
qed

lemma lru_index_less: "lru_index es < MOOR_DNS_CACHE_SIZE"
proof -
  have "foldl (\<lambda>lru i. if f i lru then i else lru) b xs < n" if "b < n" "\<forall>i \<in> set xs. i < n" for f xs n and b :: nat
    using that by (induction xs arbitrary: b) auto
  then show ?thesis unfolding lru_index_def by (auto simp: MOOR_DNS_CACHE_SIZE_def)
qed

lemma fill_free:
  assumes "dns_inv c" and "dns_but i c1" and "relinked c c1" and "i < MOOR_DNS_CACHE_SIZE" and "norm \<noteq> []"
    and "\<And>k. k < MOOR_DNS_CACHE_SIZE \<Longrightarrow> dn_hostname (dc_entries c ! k) \<noteq> norm"
  shows "dns_inv (fill_entry i norm ip expires now c1)" and "dns_has (fill_entry i norm ip expires now c1) norm (take 63 ip) expires"
    and "dns_has (fill_entry i norm ip expires now c1) name a e \<Longrightarrow>
      (if name = norm then a = take 63 ip \<and> e = expires else dns_has c name a e)"
proof -
  note len = dns_inv_length [OF assms(1)]
  have nd: "names_distinct (dc_entries c1)" using assms(1) relinked_names [OF assms(3)] by (simp add: dns_inv_def)
  have no: "dn_hostname (dc_entries c1 ! k) \<noteq> norm" if "k < MOOR_DNS_CACHE_SIZE" for k
    using assms(6) [OF that] relinked_fields(1) [OF assms(3), of k] that len by simp
  note f = fill_entry_inv [OF assms(2) nd assms(4,5) no]
  show "dns_inv (fill_entry i norm ip expires now c1)" by (rule f(1))
  show "dns_has (fill_entry i norm ip expires now c1) norm (take 63 ip) expires" by (simp add: f(2))
  assume "dns_has (fill_entry i norm ip expires now c1) name a e"
  then have "name = norm \<and> a = take 63 ip \<and> e = expires \<or> name \<noteq> [] \<and> (\<exists>k < MOOR_DNS_CACHE_SIZE. k \<noteq> i \<and>
      dn_hostname (dc_entries c1 ! k) = name \<and> dn_resolved_ip (dc_entries c1 ! k) = a \<and> dn_expires_at (dc_entries c1 ! k) = e)"
    by (simp only: f(2))
  then show "if name = norm then a = take 63 ip \<and> e = expires else dns_has c name a e"
  proof (elim disjE conjE exE)
    fix k assume k: "name \<noteq> []" "k < MOOR_DNS_CACHE_SIZE" "dn_hostname (dc_entries c1 ! k) = name"
      "dn_resolved_ip (dc_entries c1 ! k) = a" "dn_expires_at (dc_entries c1 ! k) = e"
    then have "dns_has c name a e" using relinked_fields [OF assms(3), of k] len by (auto simp: dns_has_def)
    then show ?thesis using no [OF k(2)] k(3) by simp
  qed simp
qed

lemma insert_spec:
  assumes "dns_inv c" and "512 < fuel" and "normalize_hostname h = norm" and "norm \<noteq> []" and "valid_ip ip"
    and "expires = now + ucast (cap_ttl ttl)"
  shows "\<exists>c'. moor_dns_cache_insert fuel now h ip ttl c = Some c' \<and> dns_inv c' \<and> dns_has c' norm (take 63 ip) expires \<and>
    (\<forall>name a e. dns_has c' name a e \<longrightarrow> (if name = norm then a = take 63 ip \<and> e = expires else dns_has c name a e))"
  using assms(1,2,4)
proof (cases rule: find_chain_cases)
  case (hit i)
  note len = dns_inv_length [OF assms(1)]
  let ?e = "(dc_entries c ! i)\<lparr>dn_resolved_ip := take 63 ip, dn_expires_at := expires, dn_last_used := now\<rparr>"
  let ?c = "set_entry i ?e c"
  have inv: "dns_inv ?c" by (rule touch_entry [OF assms(1) hit(2)]) simp_all
  have "dn_hostname (dc_entries ?c ! i) = norm" "dn_resolved_ip (dc_entries ?c ! i) = take 63 ip" "dn_expires_at (dc_entries ?c ! i) = expires"
    using hit(2,3) len by simp_all
  note h = has_at [OF inv hit(2) this(1) assms(4), unfolded this(2,3)]
  have "dns_has c name a e" if "dns_has ?c name a e" "name \<noteq> norm" for name a e
    using that hit(2,3) len by (auto simp: dns_has_def nth_list_update split: if_splits)
  then show ?thesis using assms hit(1) inv h by (auto simp: moor_dns_cache_insert_def Let_def)
next
  case miss
  note no = miss(2)
  show ?thesis
  proof (cases "if dc_count c < MOOR_DNS_CACHE_SIZE then first_index (\<lambda>e. dn_hostname e = []) (dc_entries c) else None")
    case (Some i)
    then have i: "i < MOOR_DNS_CACHE_SIZE" "dn_hostname (dc_entries c ! i) = []"
      using dns_inv_length [OF assms(1)] by (auto split: if_splits dest: first_index_Some)
    have "relinked c c" by (simp add: relinked_def)
    note f = fill_free [OF assms(1) dns_but_empty [OF assms(1) i(2)] this i(1) assms(4) no]
    show ?thesis using assms miss(1) Some f by (auto simp: moor_dns_cache_insert_def Let_def)
  next
    case None
    let ?i = "lru_index (dc_entries c)"
    obtain c1 where c1: "hash_remove fuel ?i c = Some c1" "dns_but ?i c1" "relinked c c1"
      using hash_remove_spec [OF assms(1,2) lru_index_less] by blast
    note f = fill_free [OF assms(1) c1(2,3) lru_index_less assms(4) no]
    show ?thesis using assms miss(1) None c1(1) f by (auto simp: moor_dns_cache_insert_def Let_def)
  qed
qed

lemma evict_loop_spec:
  "dns_inv c \<Longrightarrow> 512 < fuel \<Longrightarrow> \<forall>i \<in> set is. i < MOOR_DNS_CACHE_SIZE \<Longrightarrow>
    \<exists>c'. evict_loop fuel now is c = Some c' \<and> dns_inv c' \<and> (\<forall>name ip e. dns_has c' name ip e \<longrightarrow> dns_has c name ip e)"
proof (induction "is" arbitrary: c)
  case (Cons i "is")
  show ?case
  proof (cases "dn_hostname (dc_entries c ! i) \<noteq> [] \<and> now \<ge> dn_expires_at (dc_entries c ! i)")
    case True
    obtain c1 where "drop_entry fuel i c = Some c1" "dns_inv c1" "\<forall>name ip e. dns_has c1 name ip e \<longrightarrow> dns_has c name ip e"
      using drop_entry_spec [of c fuel i] Cons.prems by auto
    then show ?thesis using Cons.IH [of c1] Cons.prems True by auto
  next
    case False
    then show ?thesis using Cons.IH [of c] Cons.prems by auto
  qed
qed auto

section \<open>Runs\<close>

datatype dns_op = Dns_Insert u64 bytes bytes u32 | Dns_Lookup u64 bytes nat | Dns_Evict u64

fun dns_step :: "nat \<Rightarrow> dns_op \<Rightarrow> moor_dns_cache \<Rightarrow> moor_dns_cache option" where
  "dns_step fuel (Dns_Insert now h ip ttl) c = moor_dns_cache_insert fuel now h ip ttl c"
| "dns_step fuel (Dns_Lookup now h n) c = map_option snd (moor_dns_cache_lookup fuel now h n c)"
| "dns_step fuel (Dns_Evict now) c = moor_dns_cache_evict_expired fuel now c"

fun dns_run :: "nat \<Rightarrow> dns_op list \<Rightarrow> moor_dns_cache \<Rightarrow> moor_dns_cache option" where
  "dns_run fuel [] c = Some c"
| "dns_run fuel (op # ops) c = (case dns_step fuel op c of None \<Rightarrow> None | Some c1 \<Rightarrow> dns_run fuel ops c1)"

fun named_op :: "dns_op \<Rightarrow> bool" where
  "named_op (Dns_Insert now h ip ttl) \<longleftrightarrow> normalize_hostname h \<noteq> []"
| "named_op (Dns_Lookup now h n) \<longleftrightarrow> normalize_hostname h \<noteq> []"
| "named_op (Dns_Evict now) \<longleftrightarrow> True"

text \<open>The address and expiry that the last insertion under a name has given it.\<close>

fun note_insert :: "dns_op \<Rightarrow> (bytes \<Rightarrow> (bytes \<times> u64) option) \<Rightarrow> bytes \<Rightarrow> (bytes \<times> u64) option" where
  "note_insert (Dns_Insert now h ip ttl) m =
     (if valid_ip ip then m(normalize_hostname h \<mapsto> (ip, now + ucast (cap_ttl ttl))) else m)"
| "note_insert (Dns_Lookup now h n) m = m"
| "note_insert (Dns_Evict now) m = m"

definition last_insert :: "dns_op list \<Rightarrow> bytes \<Rightarrow> (bytes \<times> u64) option" where
  "last_insert ops = fold note_insert ops (\<lambda>_. None)"

definition answers_from :: "moor_dns_cache \<Rightarrow> (bytes \<Rightarrow> (bytes \<times> u64) option) \<Rightarrow> bool" where
  "answers_from c m \<longleftrightarrow> (\<forall>name a e. dns_has c name a e \<longrightarrow> (\<exists>ip. m name = Some (ip, e) \<and> a = take 63 ip))"

lemma dns_init: "dns_inv moor_dns_cache_init" "answers_from moor_dns_cache_init m"
proof -
  have "live (dc_entries moor_dns_cache_init) b = {}" for b
    by (auto simp: live_def moor_dns_cache_init_def zero_dns_entry_def)
  then have "chained moor_dns_cache_init (\<lambda>_. [])" by (simp add: chained_def moor_dns_cache_init_def)
  then show "dns_inv moor_dns_cache_init"
    by (auto simp: dns_inv_def names_distinct_def moor_dns_cache_init_def zero_dns_entry_def)
  show "answers_from moor_dns_cache_init m"
    by (auto simp: answers_from_def dns_has_def moor_dns_cache_init_def zero_dns_entry_def)
qed

lemma dns_step_inv:
  assumes "dns_inv c" and "answers_from c m" and "named_op op" and "512 < fuel"
  shows "\<exists>c'. dns_step fuel op c = Some c' \<and> dns_inv c' \<and> answers_from c' (note_insert op m)"
proof (cases op)
  case (Dns_Insert now h ip ttl)
  show ?thesis
  proof (cases "valid_ip ip")
    case True
    have "normalize_hostname h \<noteq> []" using assms(3) Dns_Insert by simp
    from insert_spec [OF assms(1,4) refl this True refl, of now ttl] obtain c' where
      c': "moor_dns_cache_insert fuel now h ip ttl c = Some c'" "dns_inv c'" "\<And>name a e. dns_has c' name a e \<Longrightarrow>
        (if name = normalize_hostname h then a = take 63 ip \<and> e = now + ucast (cap_ttl ttl) else dns_has c name a e)" by blast
    have "answers_from c' (note_insert op m)"
      using c'(3) assms(2) Dns_Insert True unfolding answers_from_def by (fastforce split: if_splits)
    then show ?thesis using c' Dns_Insert by auto
  next
    case False
    then show ?thesis using assms Dns_Insert by (simp add: moor_dns_cache_insert_def)
  qed
next
  case (Dns_Lookup now h n)
  show ?thesis
  proof (cases "n = 0")
    case True
    then show ?thesis using assms Dns_Lookup by (simp add: moor_dns_cache_lookup_def)
  next
    case False
    have "normalize_hostname h \<noteq> []" "0 < n" using assms(3) Dns_Lookup False by simp_all
    from lookup_spec [OF assms(1,4) refl this, of now] obtain r c' where
      "moor_dns_cache_lookup fuel now h n c = Some (r, c')" "dns_inv c'" "\<forall>name ip e. dns_has c' name ip e \<longrightarrow> dns_has c name ip e" by blast
    then show ?thesis using assms(2) Dns_Lookup by (auto simp: answers_from_def)
  qed
next
  case (Dns_Evict now)
  from evict_loop_spec [OF assms(1,4), of "[0..<MOOR_DNS_CACHE_SIZE]" now]
  obtain c' where "evict_loop fuel now [0..<MOOR_DNS_CACHE_SIZE] c = Some c'" "dns_inv c'"
    "\<forall>name ip e. dns_has c' name ip e \<longrightarrow> dns_has c name ip e" by auto
  then show ?thesis using assms(2) Dns_Evict by (auto simp: answers_from_def moor_dns_cache_evict_expired_def)
qed

lemma dns_run_inv:
  "dns_inv c \<Longrightarrow> answers_from c m \<Longrightarrow> list_all named_op ops \<Longrightarrow> 512 < fuel \<Longrightarrow>
    \<exists>c'. dns_run fuel ops c = Some c' \<and> dns_inv c' \<and> answers_from c' (fold note_insert ops m)"
proof (induction ops arbitrary: c m)
  case (Cons op ops)
  then obtain c1 where "dns_step fuel op c = Some c1" "dns_inv c1" "answers_from c1 (note_insert op m)"
    using dns_step_inv [of c m op fuel] by auto
  then show ?case using Cons.IH [of c1 "note_insert op m"] Cons.prems by auto
qed simp

section \<open>Properties\<close>

text \<open>
  C8. Whatever is inserted, looked up and evicted under names that are not empty, every loop
  along a hash chain ends within 513 steps, and an answer of the cache is the address most
  recently inserted under that name (up to case and trailing dots), cut to the buffers, and
  not expired: the cache never answers with a stale address or with that of another host.
\<close>

theorem dns_cache_sound:
  assumes "list_all named_op ops" and "normalize_hostname h \<noteq> []" and "512 < fuel" and "0 < ip_len"
  shows "\<exists>c r c'. dns_run fuel ops moor_dns_cache_init = Some c \<and> moor_dns_cache_lookup fuel now h ip_len c = Some (r, c') \<and>
    (\<forall>a. r = Some a \<longrightarrow> (\<exists>ip e. last_insert ops (normalize_hostname h) = Some (ip, e) \<and> now < e \<and> a = take (ip_len - 1) (take 63 ip)))"
proof -
  obtain c where c: "dns_run fuel ops moor_dns_cache_init = Some c" "dns_inv c" "answers_from c (last_insert ops)"
    using dns_run_inv [OF dns_init(1) dns_init(2) [of "\<lambda>_. None"] assms(1,3)] by (auto simp: last_insert_def)
  from lookup_spec [OF c(2) assms(3) refl assms(2,4), of now] obtain r c' where
    l: "moor_dns_cache_lookup fuel now h ip_len c = Some (r, c')"
    and a: "\<And>a. r = Some a \<longleftrightarrow> (\<exists>ip e. dns_has c (normalize_hostname h) ip e \<and> now < e \<and> a = take (ip_len - 1) ip)" by auto
  have "\<exists>ip e. last_insert ops (normalize_hostname h) = Some (ip, e) \<and> now < e \<and> a = take (ip_len - 1) (take 63 ip)" if "r = Some a" for a
  proof -
    from a [THEN iffD1, OF that] obtain s e where s: "dns_has c (normalize_hostname h) s e" "now < e" "a = take (ip_len - 1) s" by blast
    then obtain ip where "last_insert ops (normalize_hostname h) = Some (ip, e)" "s = take 63 ip"
      using c(3) unfolding answers_from_def by blast
    then show ?thesis using s by blast
  qed
  then show ?thesis using c(1) l by blast
qed

theorem dns_cache_sound_witness:
  "\<exists>c. dns_run 513 [Dns_Insert 10 (str ''Moor.Example.'') (str ''192.0.2.7'') 300] moor_dns_cache_init = Some c"
proof -
  have "list_all named_op [Dns_Insert 10 (str ''Moor.Example.'') (str ''192.0.2.7'') 300]" "normalize_hostname (str ''moor.example'') \<noteq> []"
    by (simp_all add: normalize_hostname_def str_def to_lower_def)
  from dns_cache_sound [OF this, of 513 64 11] show ?thesis by auto
qed

text \<open>
  C24. An address that has been inserted is found again, under every spelling of the name
  with the same normal form, until it expires, from whatever state the cache was in.
\<close>

theorem dns_insert_found:
  assumes "list_all named_op ops" and "512 < fuel" and "dns_run fuel ops moor_dns_cache_init = Some c" and "valid_ip ip" and "length ip < 64"
    and "normalize_hostname h' = normalize_hostname h" and "normalize_hostname h \<noteq> []" and "now' < now + ucast (cap_ttl ttl)"
  shows "\<exists>c1 c2. moor_dns_cache_insert fuel now h ip ttl c = Some c1 \<and> moor_dns_cache_lookup fuel now' h' 64 c1 = Some (Some ip, c2)"
proof -
  have "dns_inv c" using dns_run_inv [OF dns_init assms(1,2)] assms(3) by auto
  from insert_spec [OF this assms(2) refl assms(7,4) refl, of now ttl] obtain c1 where
    c1: "moor_dns_cache_insert fuel now h ip ttl c = Some c1" "dns_inv c1"
      "dns_has c1 (normalize_hostname h) (take 63 ip) (now + ucast (cap_ttl ttl))" by blast
  from lookup_spec [OF c1(2) assms(2,6,7), of 64 now'] obtain r c2 where
    l: "moor_dns_cache_lookup fuel now' h' 64 c1 = Some (r, c2)" and
    "\<And>a. r = Some a \<longleftrightarrow> (\<exists>ip e. dns_has c1 (normalize_hostname h) ip e \<and> now' < e \<and> a = take (64 - 1) ip)" by auto
  moreover have "take (64 - 1) (take 63 ip) = ip" using assms(5) by simp
  then have "\<exists>a e. dns_has c1 (normalize_hostname h) a e \<and> now' < e \<and> ip = take (64 - 1) a" using c1(3) assms(8) by metis
  ultimately have "r = Some ip" by blast
  then show ?thesis using c1(1) l by blast
qed

theorem dns_insert_found_witness:
  "\<exists>c1 c2. moor_dns_cache_insert 513 10 (str ''Moor.Example.'') (quad 192 0 2 7) 300 moor_dns_cache_init = Some c1 \<and>
     moor_dns_cache_lookup 513 309 (str ''moor.example'') 64 c1 = Some (Some (quad 192 0 2 7), c2)"
proof -
  have n: "normalize_hostname (str ''moor.example'') = normalize_hostname (str ''Moor.Example.'')" "normalize_hostname (str ''Moor.Example.'') \<noteq> []"
    by (simp_all add: normalize_hostname_def str_def to_lower_def)
  have v: "valid_ip (quad 192 0 2 7)" by (simp add: valid_ip_def inet_pton4_quad)
  have l: "length (quad 192 0 2 7) < 64" by (simp add: quad_def numeral_3_eq_3)
  have t: "(309 :: u64) < 10 + ucast (cap_ttl 300)" by (simp add: cap_ttl_def)
  show ?thesis using dns_insert_found [of "[]" 513, OF _ _ _ v l n t] by simp
qed

lemma self_link_never_ends:
  "dn_hostname (dc_entries c ! i) \<noteq> name \<Longrightarrow> dn_hash_next (dc_entries c ! i) = Some i \<Longrightarrow> find_chain fuel c name (Some i) = None"
  by (induction fuel) auto

text \<open>
  C36. The name that is empty after normalisation, as of the root zone, breaks the cache: its
  slot still counts as free, so that the next insertion overwrites it while it is in a chain.
  When the two names share a bucket the entry is linked to itself and a later lookup in that
  bucket never ends, whatever number of steps it is given.
\<close>

theorem dns_empty_name_hangs:
  "\<exists>c1 c2. moor_dns_cache_insert (Suc (Suc n)) 0 (str ''.'') (quad 192 0 2 7) 60 moor_dns_cache_init = Some c1 \<and>
     moor_dns_cache_insert (Suc (Suc n)) 0 (str ''ai.io'') (quad 192 0 2 7) 60 c1 = Some c2 \<and>
     (\<forall>fuel. moor_dns_cache_lookup fuel 1 (str ''.'') 64 c2 = None)"
proof -
  let ?ip = "quad 192 0 2 7"
  have v: "valid_ip ?ip" by (simp add: valid_ip_def inet_pton4_quad)
  have h: "dns_hash [] = 261" "dns_hash (str ''ai.io'') = 261" by (simp_all add: dns_hash_def str_def)
  have n: "normalize_hostname (str ''.'') = []" "normalize_hostname (str ''ai.io'') = str ''ai.io''" "str ''ai.io'' \<noteq> []"
    by (simp_all add: normalize_hostname_def str_def to_lower_def)
  define c1 where "c1 = (fill_entry 0 [] ?ip 60 0 moor_dns_cache_init)\<lparr>dc_count := 1\<rparr>"
  define c2 where "c2 = (fill_entry 0 (str ''ai.io'') ?ip 60 0 c1)\<lparr>dc_count := 2\<rparr>"
  have I: "length (dc_entries moor_dns_cache_init) = 512" "dc_hash_buckets moor_dns_cache_init ! 261 = None" "dc_count moor_dns_cache_init = 0"
    "length (dc_hash_buckets moor_dns_cache_init) = 1024" "dn_hostname (dc_entries moor_dns_cache_init ! 0) = []"
    by (simp_all add: moor_dns_cache_init_def MOOR_DNS_CACHE_SIZE_def MOOR_DNS_HASH_BUCKETS_def zero_dns_entry_def)
  have e1: "length (dc_entries c1) = 512" "dc_hash_buckets c1 ! 261 = Some 0" "dn_hostname (dc_entries c1 ! 0) = []"
    "dn_hash_next (dc_entries c1 ! 0) = None" "dc_count c1 = 1" "length (dc_hash_buckets c1) = 1024"
    using I by (simp_all add: c1_def fill_entry_parts h)
  have e2: "dc_hash_buckets c2 ! 261 = Some 0" "dn_hostname (dc_entries c2 ! 0) = str ''ai.io''" "dn_hash_next (dc_entries c2 ! 0) = Some 0"
    using e1 by (simp_all add: c2_def fill_entry_parts h)
  have f: "first_index (\<lambda>e. dn_hostname e = []) (dc_entries c) = Some 0" if "length (dc_entries c) = 512" "dn_hostname (dc_entries c ! 0) = []" for c
    using that by (simp add: first_index_Some_iff)
  have "moor_dns_cache_insert (Suc (Suc n)) 0 (str ''.'') ?ip 60 moor_dns_cache_init = Some c1"
    using I f [OF I(1,5)] v by (simp add: moor_dns_cache_insert_def Let_def n h c1_def MOOR_DNS_CACHE_SIZE_def cap_ttl_def)
  moreover have "moor_dns_cache_insert (Suc (Suc n)) 0 (str ''ai.io'') ?ip 60 c1 = Some c2"
    using e1 f [OF e1(1,3)] v n(3) by (simp add: moor_dns_cache_insert_def Let_def n(2) h c2_def MOOR_DNS_CACHE_SIZE_def cap_ttl_def)
  moreover have "moor_dns_cache_lookup fuel 1 (str ''.'') 64 c2 = None" for fuel
    using self_link_never_ends [of c2 0 "[]" fuel] e2 n(3) by (simp add: moor_dns_cache_lookup_def Let_def n(1) h)
  ultimately show ?thesis by blast
qed

end
