(* ===== verification/ExitRelay.thy ===== *)
theory ExitRelay
  imports FlowControl ExitPolicy DnsCache
begin

text \<open>
  The exit end of a circuit (\<open>src/src/relay.c\<close>): the RELAY_BEGIN, DATA, END, RESOLVE, SENDME,
  XOFF and XON branches of \<open>moor_relay_handle_relay\<close>, opening a connection to the target, the
  callbacks that run when it completes and when the target has data, and the table that maps
  target descriptors back to streams. One circuit is modelled with the table and the resolver
  cache of the relay. The kernel, the resolver's network access, the cipher, the hash function
  and whether the circuit's queue takes a cell are parameters; calls with an effect outside
  the state are recorded in a trace.
\<close>

section \<open>State and environment\<close>

record exit_fd =
  xf_fd :: int
  xf_circ :: nat
  xf_circuit_id :: u32
  xf_conn :: nat
  xf_stream_id :: u16

datatype exit_effect =
    Ev_Add int bool
  | Ev_Remove int
  | Fd_Close int
  | Fd_Connect int bytes u16
  | Fd_Write int bytes
  | Cell_Queued moor_cell
  | Mark_Close u8

record exit_state =
  xs_self :: nat
  xs_circ :: flow_circ
  xs_relay :: relay_circ
  xs_prev_conn :: nat
  xs_prev_open :: bool
  xs_prev_circuit_id :: u32
  xs_auth_cells_sent :: nat
  xs_exit_fds :: "exit_fd list"
  xs_dns :: moor_dns_cache
  xs_effects :: "exit_effect list"

datatype connect_result = Conn_Done | Conn_Progress | Conn_Failed
datatype send_result = Sent nat | Would_Block | Send_Failed
datatype recv_result = Received bytes | Recv_Again | Recv_Closed

record exit_env =
  xe_chacha :: chacha20
  xe_blake2b :: "bytes \<Rightarrow> bytes"
  xe_queue :: "moor_cell \<Rightarrow> bool"
  xe_now :: u64
  xe_policy :: moor_exit_policy
  xe_resolve :: "bytes \<Rightarrow> bytes option"
  xe_getaddrinfo :: "bytes \<Rightarrow> bool"
  xe_socket :: int
  xe_connect :: "bytes \<Rightarrow> u16 \<Rightarrow> connect_result"
  xe_send :: "int \<Rightarrow> bytes \<Rightarrow> send_result"

definition MAX_EXIT_FDS :: nat where "MAX_EXIT_FDS = 512"

definition effect :: "exit_effect \<Rightarrow> exit_state \<Rightarrow> exit_state" where
  "effect e st = st\<lparr>xs_effects := xs_effects st @ [e]\<rparr>"

definition set_stream :: "nat \<Rightarrow> moor_stream \<Rightarrow> exit_state \<Rightarrow> exit_state" where
  "set_stream i s st = st\<lparr>xs_circ := (xs_circ st)\<lparr>fc_streams := (fc_streams (xs_circ st))[i := s]\<rparr>\<rparr>"

definition set_deliver :: "int \<Rightarrow> exit_state \<Rightarrow> exit_state" where
  "set_deliver w st = st\<lparr>xs_circ := (xs_circ st)\<lparr>fc_circ_deliver_window := w\<rparr>\<rparr>"

definition set_package :: "int \<Rightarrow> exit_state \<Rightarrow> exit_state" where
  "set_package w st = st\<lparr>xs_circ := (xs_circ st)\<lparr>fc_circ_package_window := w\<rparr>\<rparr>"

abbreviation xs_streams :: "exit_state \<Rightarrow> moor_stream list" where
  "xs_streams st \<equiv> fc_streams (xs_circ st)"

section \<open>Addresses an exit refuses\<close>

definition private_ipv4 :: "u32 \<Rightarrow> bool" where
  "private_ipv4 ip \<longleftrightarrow>
     drop_bit 24 ip = 127 \<or> drop_bit 24 ip = 10 \<or> drop_bit 20 ip = 2753 \<or> drop_bit 16 ip = 49320 \<or> drop_bit 16 ip = 43518 \<or>
     drop_bit 24 ip = 0 \<or> drop_bit 22 ip = 401 \<or> drop_bit 28 ip = 14 \<or> drop_bit 28 ip = 15"

text \<open>The \<open>IN6_IS_ADDR\<close> macros of the C library: loopback, link-local, IPv4-mapped, IPv4-compatible.\<close>

definition private_ipv6 :: "bytes \<Rightarrow> bool" where
  "private_ipv6 a \<longleftrightarrow>
     (take 15 a = replicate 15 0 \<and> a ! 15 = 1) \<or>
     (a ! 0 = 0xfe \<and> a ! 1 AND 0xc0 = 0x80) \<or>
     (a ! 0 AND 0xfe = 0xfc) \<or>
     (take 12 a = replicate 10 0 @ [0xff, 0xff] \<and> private_ipv4 (ntohl (drop 12 a))) \<or>
     (take 12 a = replicate 12 0 \<and> ntohl (drop 12 a) > 1) \<or>
     (a ! 0 = 0x20 \<and> a ! 1 = 0x02) \<or>
     (a ! 0 = 0x20 \<and> a ! 1 = 0x01 \<and> a ! 2 = 0 \<and> a ! 3 = 0) \<or>
     (a ! 0 = 0 \<and> a ! 1 = 0x64 \<and> a ! 2 = 0xff \<and> a ! 3 = 0x9b)"

definition is_private_address :: "bytes \<Rightarrow> bool" where
  "is_private_address addr \<longleftrightarrow>
     (case inet_pton4 addr of None \<Rightarrow> False | Some b \<Rightarrow> private_ipv4 (ntohl b)) \<or>
     (case inet_pton6 addr of None \<Rightarrow> False | Some a \<Rightarrow> private_ipv6 a) \<or>
     addr = str ''localhost''"

section \<open>Descriptors of targets\<close>

definition exit_fd_add :: "int \<Rightarrow> u16 \<Rightarrow> exit_state \<Rightarrow> exit_state option" where
  "exit_fd_add fd sid st =
    (if length (xs_exit_fds st) \<ge> MAX_EXIT_FDS then None
     else Some (st\<lparr>xs_exit_fds := xs_exit_fds st @ [\<lparr> xf_fd = fd, xf_circ = xs_self st, xf_circuit_id = fc_circuit_id (xs_circ st),
       xf_conn = xs_prev_conn st, xf_stream_id = sid \<rparr>]\<rparr>))"

definition exit_fd_find :: "int \<Rightarrow> exit_state \<Rightarrow> exit_fd option" where
  "exit_fd_find fd st = map_option (nth (xs_exit_fds st)) (first_index (\<lambda>e. xf_fd e = fd) (xs_exit_fds st))"

definition exit_fd_remove :: "int \<Rightarrow> exit_state \<Rightarrow> exit_state" where
  "exit_fd_remove fd st =
    (case first_index (\<lambda>e. xf_fd e = fd) (xs_exit_fds st) of
       None \<Rightarrow> st
     | Some i \<Rightarrow> st\<lparr>xs_exit_fds := butlast ((xs_exit_fds st)[i := last (xs_exit_fds st)])\<rparr>)"

text \<open>A closed circuit drops its entries; an entry moved into a gap is looked at again.\<close>

function cleanup_loop :: "nat \<Rightarrow> nat \<Rightarrow> exit_fd list \<Rightarrow> exit_fd list" where
  "cleanup_loop c i fds =
    (if i < length fds
     then if xf_circ (fds ! i) = c then cleanup_loop c i (butlast (fds[i := last fds])) else cleanup_loop c (i + 1) fds
     else fds)"
  by pat_completeness auto

termination
  by (relation "measure (\<lambda>(c, i, fds). length fds - i)") auto

declare cleanup_loop.simps [simp del]

definition moor_relay_cleanup_exit_fds :: "exit_state \<Rightarrow> exit_state" where
  "moor_relay_cleanup_exit_fds st = st\<lparr>xs_exit_fds := cleanup_loop (xs_self st) 0 (xs_exit_fds st)\<rparr>"

section \<open>Cells towards the client\<close>

text \<open>
  Stamping, encrypting and queueing a cell, as every sender here does it; the result of the
  encryption is not looked at.
\<close>

definition backward_cell :: "exit_env \<Rightarrow> moor_cell \<Rightarrow> exit_state \<Rightarrow> bool \<times> exit_state" where
  "backward_cell env cell st =
    (let (p, d) = moor_relay_set_digest (xe_blake2b env) (c_payload cell) (rc_backward_digest (xs_relay st));
         (_, rc, q, close) = moor_circuit_relay_encrypt (xe_chacha env) ((xs_relay st)\<lparr>rc_backward_digest := d\<rparr>) p;
         cell1 = cell\<lparr>c_payload := q\<rparr>;
         marks = (case close of None \<Rightarrow> [] | Some r \<Rightarrow> [Mark_Close r]);
         ok = xe_queue env cell1
     in (ok, st\<lparr>xs_relay := rc, xs_effects := xs_effects st @ marks @ (if ok then [Cell_Queued cell1] else [])\<rparr>))"

definition backward_relay :: "exit_env \<Rightarrow> moor_relay_cmd \<Rightarrow> u16 \<Rightarrow> bytes option \<Rightarrow> u16 \<Rightarrow> exit_state \<Rightarrow> bool \<times> exit_state" where
  "backward_relay env cmd sid data len st =
    backward_cell env (moor_cell_relay (xs_prev_circuit_id st) (relay_cmd_code cmd) sid data len) st"

definition exit_send_relay_end :: "exit_env \<Rightarrow> u16 \<Rightarrow> exit_state \<Rightarrow> exit_state" where
  "exit_send_relay_end env sid st =
    (if xs_prev_conn st = 0 \<or> \<not> xs_prev_open st then st else snd (backward_relay env RELAY_END sid None 0 st))"

definition exit_send_relay_connected :: "exit_env \<Rightarrow> u16 \<Rightarrow> exit_state \<Rightarrow> exit_state" where
  "exit_send_relay_connected env sid st =
    (if xs_prev_conn st = 0 \<or> \<not> xs_prev_open st then st else snd (backward_relay env RELAY_CONNECTED sid None 0 st))"

section \<open>Opening a stream\<close>

text \<open>
  The address to connect to: the given one when it is numeric, otherwise from the cache or
  the resolver. The outer \<open>None\<close> is a loop of the cache that does not end; the inner one a
  failure, for which RELAY_END has been sent.
\<close>

definition resolve_target :: "exit_env \<Rightarrow> u16 \<Rightarrow> bytes \<Rightarrow> exit_state \<Rightarrow> (bytes option \<times> exit_state) option" where
  "resolve_target env sid addr st =
    (if inet_pton4 addr \<noteq> None \<or> inet_pton6 addr \<noteq> None
     then if \<not> xe_getaddrinfo env addr then Some (None, exit_send_relay_end env sid st)
          else Some (Some (take 63 addr), st)
     else case moor_dns_cache_lookup 513 (xe_now env) addr 64 (xs_dns st) of
            None \<Rightarrow> None
          | Some (Some ip, dns) \<Rightarrow>
              let st1 = st\<lparr>xs_dns := dns\<rparr>
              in if \<not> xe_getaddrinfo env ip then Some (None, exit_send_relay_end env sid st1) else Some (Some ip, st1)
          | Some (None, dns) \<Rightarrow>
              let st1 = st\<lparr>xs_dns := dns\<rparr>
              in case map_option (take 63) (xe_resolve env addr) of
                   None \<Rightarrow> Some (None, exit_send_relay_end env sid st1)
                 | Some ip \<Rightarrow>
                     if \<not> xe_getaddrinfo env ip then Some (None, exit_send_relay_end env sid st1)
                     else (case moor_dns_cache_insert 513 (xe_now env) addr ip 300 (xs_dns st1) of
                             None \<Rightarrow> None
                           | Some dns2 \<Rightarrow> Some (Some ip, st1\<lparr>xs_dns := dns2\<rparr>)))"

text \<open>Giving the new descriptor a stream slot.\<close>

definition exit_take_slot :: "exit_env \<Rightarrow> u16 \<Rightarrow> bytes \<Rightarrow> u16 \<Rightarrow> int \<Rightarrow> bool \<Rightarrow> exit_state \<Rightarrow> bool \<times> exit_state" where
  "exit_take_slot env sid addr port fd in_progress st =
    (case first_index (\<lambda>s. st_stream_id s = 0) (xs_streams st) of
       None \<Rightarrow> (False, effect (Fd_Close fd) st)
     | Some i \<Rightarrow>
         let s = (xs_streams st ! i)\<lparr>st_stream_id := sid, st_target_fd := fd, st_target_addr := take 255 addr,
               st_target_port := port, st_deliver_window := MOOR_STREAM_WINDOW, st_package_window := MOOR_STREAM_WINDOW\<rparr>
         in case exit_fd_add fd sid st of
              None \<Rightarrow> (False, exit_send_relay_end env sid
                (set_stream i (s\<lparr>st_target_fd := -1, st_stream_id := 0\<rparr>) (effect (Fd_Close fd) st)))
            | Some st1 \<Rightarrow>
                if in_progress
                then (True, effect (Ev_Add fd False) (set_stream i (s\<lparr>st_connected := False\<rparr>) st1))
                else (True, exit_send_relay_connected env sid
                  (effect (Ev_Add fd True) (set_stream i (s\<lparr>st_connected := True\<rparr>) st1))))"

definition moor_relay_exit_connect :: "exit_env \<Rightarrow> u16 \<Rightarrow> bytes \<Rightarrow> u16 \<Rightarrow> exit_state \<Rightarrow> (bool \<times> exit_state) option" where
  "moor_relay_exit_connect env sid addr port st =
    (if sid = 0 then Some (False, st)
     else if moor_circuit_find_stream (xs_circ st) sid \<noteq> None then Some (False, st)
     else case resolve_target env sid addr st of
            None \<Rightarrow> None
          | Some (None, st1) \<Rightarrow> Some (False, st1)
          | Some (Some ip, st1) \<Rightarrow>
              if is_private_address ip then Some (False, exit_send_relay_end env sid st1)
              else if xe_policy env \<noteq> [] \<and> \<not> moor_exit_policy_allows (xe_policy env) (Some ip) port
              then Some (False, exit_send_relay_end env sid st1)
              else if xe_socket env < 0 then Some (False, exit_send_relay_end env sid st1)
              else let fd = xe_socket env; st2 = effect (Fd_Connect fd ip port) st1
                   in case xe_connect env ip port of
                        Conn_Failed \<Rightarrow> Some (False, exit_send_relay_end env sid (effect (Fd_Close fd) st2))
                      | Conn_Progress \<Rightarrow> Some (exit_take_slot env sid addr port fd True st2)
                      | Conn_Done \<Rightarrow> Some (exit_take_slot env sid addr port fd False st2))"

definition bad_suffixes :: "bytes list" where
  "bad_suffixes = map str [''.local'', ''.internal'', ''.lan'', ''.corp'', ''.home'', ''.localdomain'']"

definition has_bad_suffix :: "bytes \<Rightarrow> bool" where
  "has_bad_suffix addr \<longleftrightarrow>
    list_ex (\<lambda>suf. length addr \<ge> length suf \<and> strcasecmp_eq (drop (length addr - length suf) addr) suf) bad_suffixes"

text \<open>The bytes of a cell up to a terminating zero.\<close>

definition c_string :: "bytes \<Rightarrow> bytes" where
  "c_string b = takeWhile (\<lambda>x. x \<noteq> 0) b"

definition relay_begin :: "exit_env \<Rightarrow> moor_relay_payload \<Rightarrow> exit_state \<Rightarrow> (bool \<times> exit_state) option" where
  "relay_begin env r st =
    (if unat (r_data_length r) \<ge> 256 then Some (False, st)
     else case split_last 58 (c_string (take (unat (r_data_length r)) (r_data r))) of
            None \<Rightarrow> Some (False, st)
          | Some (addr, port_text) \<Rightarrow>
              (case strtol10 port_text of
                 (v, Some []) \<Rightarrow>
                   if v < 1 \<or> v > 65535 then Some (False, st)
                   else if is_private_address addr then Some (False, st)
                   else if 46 \<notin> set addr \<and> 58 \<notin> set addr then Some (False, st)
                   else if has_bad_suffix addr then Some (False, st)
                   else moor_relay_exit_connect env (r_stream_id r) addr (word_of_int v) st
               | _ \<Rightarrow> Some (False, st)))"

section \<open>Data from the client\<close>

datatype forward_result = STREAM_FWD_OK | STREAM_FWD_EAGAIN | STREAM_FWD_ERROR

text \<open>The send loop: how it ended and what the target has taken.\<close>

function moor_stream_forward_to_target :: "exit_env \<Rightarrow> int \<Rightarrow> bytes \<Rightarrow> forward_result \<times> bytes" where
  "moor_stream_forward_to_target env fd data =
    (if data = [] then (STREAM_FWD_OK, [])
     else case xe_send env fd data of
            Send_Failed \<Rightarrow> (STREAM_FWD_ERROR, [])
          | Would_Block \<Rightarrow> (STREAM_FWD_EAGAIN, [])
          | Sent n \<Rightarrow>
              if n = 0 then (STREAM_FWD_OK, [])
              else let (res, taken) = moor_stream_forward_to_target env fd (drop n data)
                   in (res, take n data @ taken))"
  by pat_completeness auto

termination
  by (relation "measure (\<lambda>(env, fd, data). length data)") auto

declare moor_stream_forward_to_target.simps [simp del]

definition spend_deliver :: "nat \<Rightarrow> exit_state \<Rightarrow> exit_state" where
  "spend_deliver i st =
    (let st1 = set_deliver (fc_circ_deliver_window (xs_circ st) - 1) st; s = xs_streams st1 ! i
     in set_stream i (s\<lparr>st_deliver_window := st_deliver_window s - 1\<rparr>) st1)"

text \<open>The label \<open>sendme_check\<close>, for the circuit and then for the stream.\<close>

definition circ_sendme :: "exit_env \<Rightarrow> exit_state \<Rightarrow> exit_state" where
  "circ_sendme env st =
    (let (ok, st1) = backward_relay env RELAY_SENDME 0 (Some (take MOOR_SENDME_AUTH_LEN (rc_forward_digest (xs_relay st))))
           (of_nat MOOR_SENDME_AUTH_LEN) st
     in if ok then set_deliver (fc_circ_deliver_window (xs_circ st1) + MOOR_SENDME_INCREMENT) st1 else st1)"

definition stream_sendme :: "exit_env \<Rightarrow> u16 \<Rightarrow> nat \<Rightarrow> exit_state \<Rightarrow> exit_state" where
  "stream_sendme env sid i st =
    (let (ok, st1) = backward_relay env RELAY_SENDME sid None 0 st; s = xs_streams st1 ! i
     in if ok then set_stream i (s\<lparr>st_deliver_window := st_deliver_window s + MOOR_SENDME_INCREMENT\<rparr>) st1 else st1)"

definition sendme_check :: "exit_env \<Rightarrow> u16 \<Rightarrow> nat option \<Rightarrow> exit_state \<Rightarrow> bool \<times> exit_state" where
  "sendme_check env sid stream st =
    (if xs_prev_conn st = 0 \<or> \<not> xs_prev_open st then (True, st)
     else let w = fc_circ_deliver_window (xs_circ st);
              due = (w \<le> MOOR_CIRCUIT_WINDOW - MOOR_SENDME_INCREMENT)
          in if due \<and> w + MOOR_SENDME_INCREMENT > MOOR_CIRCUIT_WINDOW then (False, st)
             else let st1 = (if due then circ_sendme env st else st)
                  in case stream of None \<Rightarrow> (True, st1)
                     | Some i \<Rightarrow>
                         if st_deliver_window (xs_streams st1 ! i) \<le> MOOR_STREAM_WINDOW - MOOR_SENDME_INCREMENT
                         then (True, stream_sendme env sid i st1) else (True, st1))"

definition floor_windows :: "nat \<Rightarrow> exit_state \<Rightarrow> exit_state" where
  "floor_windows i st =
    (let w = fc_circ_deliver_window (xs_circ st);
         st1 = (if w > - MOOR_CIRCUIT_WINDOW then set_deliver (w - 1) st else st);
         s = xs_streams st1 ! i
     in if st_deliver_window s > - MOOR_STREAM_WINDOW then set_stream i (s\<lparr>st_deliver_window := st_deliver_window s - 1\<rparr>) st1 else st1)"

text \<open>The target does not take data any more: RELAY_END and the stream is closed.\<close>

definition data_failed :: "exit_env \<Rightarrow> u16 \<Rightarrow> nat \<Rightarrow> exit_state \<Rightarrow> exit_state" where
  "data_failed env sid i st =
    (let st1 = (if xs_prev_conn st \<noteq> 0 then snd (backward_relay env RELAY_END sid None 0 st) else st);
         s = xs_streams st1 ! i; fd = st_target_fd s
     in set_stream i (s\<lparr>st_target_fd := -1, st_stream_id := 0\<rparr>)
          (effect (Fd_Close fd) (exit_fd_remove fd (effect (Ev_Remove fd) st1))))"

definition send_xoff :: "exit_env \<Rightarrow> u16 \<Rightarrow> nat \<Rightarrow> exit_state \<Rightarrow> exit_state" where
  "send_xoff env sid i st =
    (if \<not> st_xoff_sent (xs_streams st ! i) \<and> xs_prev_conn st \<noteq> 0
     then let (ok, st1) = backward_relay env RELAY_XOFF sid None 0 st
          in if ok then set_stream i ((xs_streams st1 ! i)\<lparr>st_xoff_sent := True\<rparr>) st1 else st1
     else st)"

definition send_xon :: "exit_env \<Rightarrow> u16 \<Rightarrow> nat \<Rightarrow> exit_state \<Rightarrow> exit_state" where
  "send_xon env sid i st =
    (let (ok, st1) = backward_relay env RELAY_XON sid None 0 st
     in if ok then set_stream i ((xs_streams st1 ! i)\<lparr>st_xoff_sent := False\<rparr>) st1 else st1)"

definition relay_data :: "exit_env \<Rightarrow> moor_relay_payload \<Rightarrow> exit_state \<Rightarrow> bool \<times> exit_state" where
  "relay_data env r st =
    (let sid = r_stream_id r; data = take (unat (r_data_length r)) (r_data r); stream = moor_circuit_find_stream (xs_circ st) sid
     in case stream of
          None \<Rightarrow> sendme_check env sid None (set_deliver (fc_circ_deliver_window (xs_circ st) - 1) st)
        | Some i \<Rightarrow>
            let s = xs_streams st ! i in
            if st_target_fd s < 0 then sendme_check env sid (Some i) (set_deliver (fc_circ_deliver_window (xs_circ st) - 1) st)
            else if \<not> st_connected s then sendme_check env sid (Some i) (spend_deliver i st)
            else if fc_circ_deliver_window (xs_circ st) \<le> 0 \<or> st_deliver_window s \<le> 0
            then sendme_check env sid (Some i) (floor_windows i st)
            else let (fwd, taken) = moor_stream_forward_to_target env (st_target_fd s) data;
                     st1 = effect (Fd_Write (st_target_fd s) taken) st
                 in if fwd = STREAM_FWD_ERROR then (True, data_failed env sid i st1)
                    else let st2 = (if fwd = STREAM_FWD_EAGAIN then send_xoff env sid i st1 else st1)
                         in if taken = [] then sendme_check env sid (Some i) (spend_deliver i st2)
                            else let st3 = (if st_xoff_sent (xs_streams st2 ! i) \<and> length taken \<ge> length data \<and> xs_prev_conn st2 \<noteq> 0
                                            then send_xon env sid i st2 else st2)
                                 in sendme_check env sid (Some i) (spend_deliver i st3))"

section \<open>Other commands of the client\<close>

definition relay_end :: "moor_relay_payload \<Rightarrow> exit_state \<Rightarrow> bool \<times> exit_state" where
  "relay_end r st =
    (case moor_circuit_find_stream (xs_circ st) (r_stream_id r) of
       None \<Rightarrow> (True, st)
     | Some i \<Rightarrow>
         let s = xs_streams st ! i; fd = st_target_fd s
         in if fd \<ge> 0
            then (True, set_stream i (s\<lparr>st_target_fd := -1, st_stream_id := 0\<rparr>)
                   (effect (Fd_Close fd) (exit_fd_remove fd (effect (Ev_Remove fd) st))))
            else (True, st))"

definition resolved_answer :: "bytes option \<Rightarrow> bytes" where
  "resolved_answer ip =
    (case ip of None \<Rightarrow> [0xF0, 0, 0, 0, 0, 0]
     | Some a \<Rightarrow>
         if is_private_address a then [0xF0, 0, 0, 0, 0, 0]
         else (case inet_pton4 a of Some b \<Rightarrow> [4, 4] @ b @ [0, 0, 0, 60] | None \<Rightarrow> [0xF0, 0, 0, 0, 0, 0]))"

definition relay_resolve :: "exit_env \<Rightarrow> moor_relay_payload \<Rightarrow> exit_state \<Rightarrow> (bool \<times> exit_state) option" where
  "relay_resolve env r st =
    (let len = unat (r_data_length r) in
     if len < 1 \<or> len > 253 then Some (False, st)
     else let hostname = c_string (take len (r_data r)) in
          if is_private_address hostname then Some (False, st)
          else let reply = (\<lambda>ip st1. let d = resolved_answer ip in
                 (True, if xs_prev_conn st1 \<noteq> 0 \<and> xs_prev_open st1
                        then snd (backward_relay env RELAY_RESOLVED (r_stream_id r) (Some d) (of_nat (length d)) st1) else st1))
               in case moor_dns_cache_lookup 513 (xe_now env) hostname 64 (xs_dns st) of
                    None \<Rightarrow> None
                  | Some (Some ip, dns) \<Rightarrow> Some (reply (Some ip) (st\<lparr>xs_dns := dns\<rparr>))
                  | Some (None, dns) \<Rightarrow>
                      (case map_option (take 63) (xe_resolve env hostname) of
                         None \<Rightarrow> Some (reply None (st\<lparr>xs_dns := dns\<rparr>))
                       | Some ip \<Rightarrow>
                           (case moor_dns_cache_insert 513 (xe_now env) hostname ip 300 dns of
                              None \<Rightarrow> None
                            | Some dns2 \<Rightarrow> Some (reply (Some ip) (st\<lparr>xs_dns := dns2\<rparr>)))))"

text \<open>A SENDME of the client: check the digest when one is awaited, refill, and read from the targets again.\<close>

definition resume_reads :: "exit_state \<Rightarrow> exit_state" where
  "resume_reads st = fold (\<lambda>s st1. if st_stream_id s \<noteq> 0 \<and> st_target_fd s \<ge> 0 \<and> st_connected s
     then effect (Ev_Add (st_target_fd s) True) st1 else st1) (xs_streams st) st"

definition refill_circuit :: "exit_state \<Rightarrow> bool \<times> exit_state" where
  "refill_circuit st =
    (let w = fc_circ_package_window (xs_circ st)
     in if w > MOOR_CIRCUIT_WINDOW then (False, st)
        else (True, resume_reads (set_package (w + MOOR_SENDME_INCREMENT) st)))"

definition relay_sendme :: "moor_relay_payload \<Rightarrow> exit_state \<Rightarrow> bool \<times> exit_state" where
  "relay_sendme r st =
    (let c = xs_circ st in
     if r_stream_id r = 0
     then if fc_sendme_auth_count c > 0
          then if unat (r_data_length r) < 8 then (False, st)
               else if take MOOR_SENDME_AUTH_LEN (r_data r) \<noteq>
                   fc_sendme_auth_expected c ! ring_tail MOOR_SENDME_AUTH_MAX (fc_sendme_auth_head c) (fc_sendme_auth_count c)
               then (False, st)
               else refill_circuit (st\<lparr>xs_circ := c\<lparr>fc_sendme_auth_count := fc_sendme_auth_count c - 1\<rparr>\<rparr>)
          else refill_circuit st
     else (case moor_circuit_find_stream c (r_stream_id r) of
             None \<Rightarrow> (True, st)
           | Some i \<Rightarrow>
               let s = xs_streams st ! i in
               if st_package_window s > MOOR_STREAM_WINDOW then (False, st)
               else let st1 = set_stream i (s\<lparr>st_package_window := st_package_window s + MOOR_SENDME_INCREMENT\<rparr>) st
                    in (True, if st_target_fd s \<ge> 0 \<and> st_connected s then effect (Ev_Add (st_target_fd s) True) st1 else st1)))"

definition relay_xoff :: "moor_relay_payload \<Rightarrow> exit_state \<Rightarrow> bool \<times> exit_state" where
  "relay_xoff r st =
    (case moor_circuit_find_stream (xs_circ st) (r_stream_id r) of
       None \<Rightarrow> (True, st)
     | Some i \<Rightarrow> let s = xs_streams st ! i in
         if st_target_fd s \<ge> 0 then (True, effect (Ev_Remove (st_target_fd s)) (set_stream i (s\<lparr>st_xoff_recv := True\<rparr>) st)) else (True, st))"

definition relay_xon :: "moor_relay_payload \<Rightarrow> exit_state \<Rightarrow> bool \<times> exit_state" where
  "relay_xon r st =
    (case moor_circuit_find_stream (xs_circ st) (r_stream_id r) of
       None \<Rightarrow> (True, st)
     | Some i \<Rightarrow> let s = xs_streams st ! i in
         if st_target_fd s \<ge> 0 \<and> st_connected s
         then (True, effect (Ev_Add (st_target_fd s) True) (set_stream i (s\<lparr>st_xoff_recv := False\<rparr>) st)) else (True, st))"

section \<open>Callbacks on a target descriptor\<close>

definition drop_fd :: "int \<Rightarrow> exit_state \<Rightarrow> exit_state" where
  "drop_fd fd st = exit_fd_remove fd (effect (Fd_Close fd) (effect (Ev_Remove fd) st))"

text \<open>\<open>found\<close> is whether \<open>moor_circuit_find\<close> still finds the circuit, \<open>failed\<close> the value of \<open>SO_ERROR\<close>.\<close>

definition exit_connect_complete_cb :: "exit_env \<Rightarrow> bool \<Rightarrow> bool \<Rightarrow> int \<Rightarrow> exit_state \<Rightarrow> exit_state" where
  "exit_connect_complete_cb env found failed fd st =
    (case exit_fd_find fd st of
       None \<Rightarrow> effect (Fd_Close fd) (effect (Ev_Remove fd) st)
     | Some m \<Rightarrow>
         let sid = xf_stream_id m in
         if \<not> found then drop_fd fd st
         else if failed
         then let st1 = drop_fd fd st;
                  st2 = (case moor_circuit_find_stream (xs_circ st1) sid of None \<Rightarrow> st1
                         | Some i \<Rightarrow> set_stream i ((xs_streams st1 ! i)\<lparr>st_target_fd := -1, st_stream_id := 0\<rparr>) st1)
              in exit_send_relay_end env sid st2
         else let st1 = (case moor_circuit_find_stream (xs_circ st) sid of None \<Rightarrow> st
                         | Some i \<Rightarrow> set_stream i ((xs_streams st ! i)\<lparr>st_connected := True\<rparr>) st)
              in exit_send_relay_connected env sid (effect (Ev_Add fd True) (effect (Ev_Remove fd) st1)))"

text \<open>Every hundred cells the backward digest is kept for the client's SENDME.\<close>

definition note_auth :: "exit_state \<Rightarrow> exit_state" where
  "note_auth st =
    (let n = xs_auth_cells_sent st + 1; c = xs_circ st
     in if int n \<ge> MOOR_SENDME_INCREMENT
        then if fc_sendme_auth_count c < MOOR_SENDME_AUTH_MAX
             then st\<lparr>xs_auth_cells_sent := 0, xs_circ := c\<lparr>fc_sendme_auth_expected := (fc_sendme_auth_expected c)[fc_sendme_auth_head c :=
                       take MOOR_SENDME_AUTH_LEN (rc_backward_digest (xs_relay st))],
                    fc_sendme_auth_head := (fc_sendme_auth_head c + 1) mod MOOR_SENDME_AUTH_MAX,
                    fc_sendme_auth_count := fc_sendme_auth_count c + 1\<rparr>\<rparr>
             else st\<lparr>xs_auth_cells_sent := 0\<rparr>
        else st\<lparr>xs_auth_cells_sent := n\<rparr>)"

text \<open>The target has closed: RELAY_END, provided that the link to the client is open.\<close>

definition target_closed :: "exit_env \<Rightarrow> int \<Rightarrow> u16 \<Rightarrow> nat \<Rightarrow> exit_state \<Rightarrow> exit_state" where
  "target_closed env fd sid i st =
    (let st1 = (if st_stream_id (xs_streams st ! i) \<noteq> 0 \<and> xs_prev_conn st \<noteq> 0 \<and> xs_prev_open st
                then let st0 = snd (backward_relay env RELAY_END sid None 0 st)
                     in set_stream i ((xs_streams st0 ! i)\<lparr>st_target_fd := -1, st_stream_id := 0\<rparr>) st0
                else st)
     in drop_fd fd st1)"

definition target_data :: "exit_env \<Rightarrow> int \<Rightarrow> u16 \<Rightarrow> nat \<Rightarrow> bytes \<Rightarrow> exit_state \<Rightarrow> exit_state" where
  "target_data env fd sid i buf st =
    (let s = xs_streams st ! i;
         st1 = set_package (fc_circ_package_window (xs_circ st) - 1) (set_stream i (s\<lparr>st_package_window := st_package_window s - 1\<rparr>) st)
     in if xs_prev_conn st1 = 0 \<or> \<not> xs_prev_open st1 then drop_fd fd st1
        else let st2 = note_auth (snd (backward_relay env RELAY_DATA sid (Some buf) (of_nat (length buf)) st1))
             in if st_package_window (xs_streams st2 ! i) \<le> 0 \<or> fc_circ_package_window (xs_circ st2) \<le> 0
                then effect (Ev_Remove fd) st2 else st2)"

definition exit_target_read_cb :: "exit_env \<Rightarrow> bool \<Rightarrow> recv_result \<Rightarrow> int \<Rightarrow> exit_state \<Rightarrow> exit_state" where
  "exit_target_read_cb env found got fd st =
    (case exit_fd_find fd st of
       None \<Rightarrow> effect (Fd_Close fd) (effect (Ev_Remove fd) st)
     | Some m \<Rightarrow>
         let sid = xf_stream_id m in
         if \<not> found then drop_fd fd st
         else (case moor_circuit_find_stream (xs_circ st) sid of
                 None \<Rightarrow> effect (Ev_Remove fd) st
               | Some i \<Rightarrow>
                   if st_package_window (xs_streams st ! i) \<le> 0 \<or> fc_circ_package_window (xs_circ st) \<le> 0 then effect (Ev_Remove fd) st
                   else (case got of
                           Recv_Again \<Rightarrow> st
                         | Recv_Closed \<Rightarrow> target_closed env fd sid i st
                         | Received buf \<Rightarrow> target_data env fd sid i (take MOOR_RELAY_DATA buf) st)))"

text \<open>The reader that stops on XOFF; no callback is registered with it.\<close>

definition moor_relay_exit_read :: "exit_env \<Rightarrow> recv_result \<Rightarrow> nat \<Rightarrow> exit_state \<Rightarrow> bool \<times> exit_state" where
  "moor_relay_exit_read env got i st =
    (let s = xs_streams st ! i; fd = st_target_fd s in
     if fd < 0 \<or> xs_prev_conn st = 0 then (False, st)
     else if st_xoff_recv s then (True, effect (Ev_Remove fd) st)
     else (case got of
             Received buf \<Rightarrow>
               let d = take MOOR_RELAY_DATA buf
               in (True, snd (backward_relay env RELAY_DATA (st_stream_id s) (Some d) (of_nat (length d)) st))
           | _ \<Rightarrow>
               let st1 = snd (backward_relay env RELAY_END (st_stream_id s) None 0 st)
               in (False, set_stream i ((xs_streams st1 ! i)\<lparr>st_target_fd := -1, st_stream_id := 0\<rparr>)
                    (effect (Fd_Close fd) (exit_fd_remove fd (effect (Ev_Remove fd) st1))))))"

end
