(* ===== verification/RelayLinks.thy ===== *)
theory RelayLinks
  imports CircuitPool ExitRelay
begin

text \<open>
  The handlers that give circuits their links (\<open>src/src/relay.c\<close>, \<open>src/src/circuit.c\<close>): CREATE and
  EXTEND at a relay, the completion of an extension, the registration and the failure of a
  client build, and the rendezvous point with its table of cookies. They run on the pool of
  theory CircuitPool. Key exchange, stamping and encryption of a cell, the channel table and the
  consensus are parameters. Keys, the state of channels apart from the attachment of circuits, and
  the callbacks of pending connects are not part of the pool; the request a worker carries is
  reduced to what its completion reads.
\<close>

section \<open>Operations\<close>

definition circ_retain :: "u64 \<Rightarrow> circ_pool \<Rightarrow> circ_pool" where
  "circ_retain conn p = p\<lparr>cp_refcount := (cp_refcount p)(conn := cp_refcount p conn + 1)\<rparr>"

definition CREATE_RATE_LIMIT :: u32 where "CREATE_RATE_LIMIT = 10"
definition CREATE_RATE_WINDOW :: u64 where "CREATE_RATE_WINDOW = 5"

text \<open>The window of CREATE cells of one connection: its start and the cells seen in it.\<close>

record create_window =
  cw_start :: u64
  cw_count :: u32

definition create_window_step :: "u64 \<Rightarrow> create_window \<Rightarrow> create_window" where
  "create_window_step now w =
    (let w1 = (if now - cw_start w \<ge> CREATE_RATE_WINDOW then \<lparr> cw_start = now, cw_count = 0 \<rparr> else w)
     in w1\<lparr>cw_count := cw_count w1 + 1\<rparr>)"

text \<open>
  \<open>cke\<close> is the key exchange with the client's ephemeral key: the relay's ephemeral key and the
  authentication tag, or \<open>None\<close> when it fails. \<open>sent\<close> tells whether the CREATED cell is sent.
\<close>

definition moor_relay_handle_create ::
    "circ_env \<Rightarrow> bytes \<Rightarrow> (bytes \<Rightarrow> (bytes \<times> bytes) option) \<Rightarrow> bool \<Rightarrow> bool \<Rightarrow> bool \<Rightarrow> nat \<Rightarrow> u64 \<Rightarrow> moor_cell \<Rightarrow>
      create_window \<Rightarrow> circ_pool \<Rightarrow> (bool \<times> create_window \<times> circ_pool) option" where
  "moor_relay_handle_create env identity_pk cke sent ok1 ok2 addr conn cell w p =
    (let w1 = create_window_step (env_now env) w; cid = c_circuit_id cell in
     if cw_count w1 > CREATE_RATE_LIMIT then Some (False, w1, p)
     else if take 32 (c_payload cell) \<noteq> identity_pk then Some (False, w1, p)
     else if moor_circuit_find cid conn p \<noteq> None then Some (False, w1, p)
     else case cke (take 32 (drop 32 (c_payload cell))) of
         None \<Rightarrow> Some (False, w1, p)
       | Some (eph_pk, auth_tag) \<Rightarrow>
           (case moor_circuit_alloc env ok1 ok2 addr p of
              (None, p1) \<Rightarrow> Some (False, w1, p1)
            | (Some c, p1) \<Rightarrow>
                let p2 = set_circ c ((cp_mem p1 c)\<lparr>pc_circuit_id := cid, pc_prev_conn := conn, pc_prev_circuit_id := cid,
                                       pc_is_client := False\<rparr>) p1;
                    p3 = emit [Send_cell conn (moor_cell_created cid eph_pk auth_tag)] p2
                in if \<not> sent then map_option (\<lambda>q. (False, w1, q)) (moor_circuit_free env c p3)
                   else Some (True, w1, circ_register_unlocked c (circ_retain conn p3))))"

definition MOOR_MAX_RELAY_EARLY :: u8 where "MOOR_MAX_RELAY_EARLY = 8"

text \<open>
  What EXTEND reads outside the circuit: the relay's identity, the addresses in the consensus
  by identity, open channels by the identity of the peer, the fresh circuit id, and whether
  sending and starting a worker succeed.
\<close>

record extend_env =
  en_identity_pk :: bytes
  en_consensus :: "bytes \<Rightarrow> bytes option"
  en_channel :: "bytes \<Rightarrow> u64 option"
  en_next_circ_id :: u32
  en_sent :: bool
  en_worker_starts :: bool

text \<open>The address in the cell; when it is all zero, the one the consensus has for the identity.\<close>

definition extend_address :: "extend_env \<Rightarrow> bytes \<Rightarrow> bytes" where
  "extend_address xe data =
    (let addr = takeWhile (\<lambda>b. b \<noteq> 0) (take 63 data)
     in if \<forall>b \<in> set (take 64 data). b = 0
        then (case en_consensus xe (take 32 (drop 66 data)) of None \<Rightarrow> addr | Some a \<Rightarrow> take 63 a)
        else addr)"

text \<open>The circuit is linked to an open channel and registered; the earlier next hop is overwritten.\<close>

definition extend_link :: "u64 \<Rightarrow> moor_cell \<Rightarrow> nat \<Rightarrow> circ_pool \<Rightarrow> circ_pool" where
  "extend_link conn create_cell c p =
    (let p1 = emit [Send_cell conn create_cell] p;
         p2 = set_circ c ((cp_mem p1 c)\<lparr>pc_n_chan := True, pc_next_conn := conn, pc_next_circuit_id := c_circuit_id create_cell,
                pc_extend_pending := True\<rparr>) p1;
         p3 = emit [Mux_attach c (c_circuit_id create_cell), Event_add conn] (circ_retain conn p2)
     in circ_register_unlocked c p3)"

definition relay_extend :: "extend_env \<Rightarrow> bool \<Rightarrow> bytes \<Rightarrow> nat \<Rightarrow> circ_pool \<Rightarrow> bool \<times> circ_pool" where
  "relay_extend xe early data c p =
    (let r = cp_mem p c in
     if \<not> early \<or> pc_relay_early_count r \<ge> MOOR_MAX_RELAY_EARLY then (False, p)
     else let p1 = set_circ c (r\<lparr>pc_relay_early_count := pc_relay_early_count r + 1\<rparr>) p;
              next_identity_pk = take 32 (drop 66 data);
              client_eph_pk = take 32 (drop 98 data) in
       if length data < 130 \<or> pc_extend_pending r then (False, p1)
       else if next_identity_pk = en_identity_pk xe then (False, p1)
       else if is_private_address (extend_address xe data) then (False, p1)
       else case en_channel xe next_identity_pk of
           Some conn \<Rightarrow>
             if \<not> en_sent xe then (False, p1)
             else (True, extend_link conn (moor_cell_create (en_next_circ_id xe) next_identity_pk client_eph_pk) c p1)
         | None \<Rightarrow>
             if \<not> en_worker_starts xe then (False, p1)
             else (True, emit [Extend_worker c] (set_circ c ((cp_mem p1 c)\<lparr>pc_extend_pending := True\<rparr>) p1)))"

text \<open>
  A finished worker. \<open>ew_stale\<close>: the connection the request came from has been cleared or its slot
  reused. \<open>ew_failed\<close> is the reason when the connection could not be made. \<open>seal c\<close> stamps and
  encrypts a cell that goes back to the client on circuit \<open>c\<close>.
\<close>

record extend_work =
  ew_stale :: bool
  ew_prev_conn :: u64
  ew_prev_circuit_id :: u32
  ew_failed :: "u8 option"
  ew_chan :: bool
  ew_next_conn :: u64
  ew_next_circuit_id :: u32
  ew_created_payload :: bytes

definition extend_complete ::
    "circ_env \<Rightarrow> (nat \<Rightarrow> moor_cell \<Rightarrow> moor_cell) \<Rightarrow> extend_work \<Rightarrow> circ_pool \<Rightarrow> circ_pool" where
  "extend_complete env seal w p =
    (let discard = emit (if ew_failed w = None then [Conn_drop (ew_next_conn w)] else []) in
     if ew_stale w then discard p
     else case moor_circuit_find (ew_prev_circuit_id w) (ew_prev_conn w) p of
         None \<Rightarrow> discard p
       | Some c \<Rightarrow>
           let r = cp_mem p c in
           if \<not> pc_extend_pending r then discard p
           else let p1 = set_circ c (r\<lparr>pc_extend_pending := False\<rparr>) p in
             if pc_prev_conn r = 0 \<or> \<not> env_conn_open env (cp_trace p1) (pc_prev_conn r) then discard p1
             else case ew_failed w of
                 Some reason \<Rightarrow> emit [Send_cell (pc_prev_conn r) (moor_cell_destroy_reason (pc_prev_circuit_id r) reason)] p1
               | None \<Rightarrow>
                   let p2 = set_circ c ((cp_mem p1 c)\<lparr>pc_n_chan := ew_chan w, pc_next_conn := ew_next_conn w,
                              pc_next_circuit_id := ew_next_circuit_id w\<rparr>) p1;
                       p3 = emit ((if ew_chan w then [Mux_attach c (ew_next_circuit_id w)] else []) @ [Event_add (ew_next_conn w)]) p2;
                       p4 = circ_register_unlocked c p3
                   in emit [Queue_cell c (seal c (moor_cell_relay (pc_prev_circuit_id r) (relay_cmd_code RELAY_EXTENDED) 0
                                 (Some (ew_created_payload w)) 64)) 1] p4)"

text \<open>A CREATED cell from the next hop ends an extension over an open channel.\<close>

definition relay_created :: "circ_env \<Rightarrow> (nat \<Rightarrow> moor_cell \<Rightarrow> moor_cell) \<Rightarrow> u64 \<Rightarrow> moor_cell \<Rightarrow> circ_pool \<Rightarrow> circ_pool" where
  "relay_created env seal conn cell p =
    (case moor_circuit_find (c_circuit_id cell) conn p of
       None \<Rightarrow> p
     | Some c \<Rightarrow>
         let r = cp_mem p c in
         if \<not> pc_extend_pending r then p
         else let p1 = set_circ c (r\<lparr>pc_extend_pending := False\<rparr>) p in
           if pc_prev_conn r = 0 \<or> \<not> env_conn_open env (cp_trace p1) (pc_prev_conn r) then p1
           else emit [Queue_cell c (seal c (moor_cell_relay (pc_prev_circuit_id r) (relay_cmd_code RELAY_EXTENDED) 0
                        (Some (c_payload cell)) 64)) 1] p1)"

text \<open>The client side: a build is connected to its guard, or fails.\<close>

definition cbuild_link :: "u64 \<Rightarrow> nat \<Rightarrow> circ_pool \<Rightarrow> circ_pool" where
  "cbuild_link conn c p = circ_register_unlocked c (circ_retain conn (set_circ c ((cp_mem p c)\<lparr>pc_conn := conn\<rparr>) p))"

definition cbuild_fail :: "nat \<Rightarrow> circ_pool \<Rightarrow> circ_pool option" where
  "cbuild_fail c p =
    (let r = cp_mem p c;
         p1 = (if pc_chan r then set_circ c (r\<lparr>pc_chan := False\<rparr>) (emit [Mux_detach c] p) else p)
     in do {
       p2 \<leftarrow> circ_unregister_unlocked c p1;
       let p3 = drop_ref (pc_conn r) p2;
       let p4 = (if pc_conn r \<noteq> 0 \<and> cp_refcount p3 (pc_conn r) = 0 then emit [Conn_drop (pc_conn r)] p3 else p3);
       Some (set_circ c ((cp_mem p4 c)\<lparr>pc_conn := 0, pc_build_ctx := None\<rparr>) p4)
     })"

section \<open>The rendezvous point\<close>

definition MAX_RP_COOKIES :: nat where "MAX_RP_COOKIES = 64"
definition MOOR_RENDEZVOUS_COOKIE_LEN :: nat where "MOOR_RENDEZVOUS_COOKIE_LEN = 20"
definition RP_COOKIE_TTL_SECS :: int where "RP_COOKIE_TTL_SECS = 120"

record rp_cookie_entry =
  rc_cookie :: bytes
  rc_circ :: "nat option"
  rc_circuit_id :: u32
  rc_conn :: u64
  rc_valid :: bool
  rc_created_at :: int

definition g_rp_cookies :: "rp_cookie_entry list" where
  "g_rp_cookies = replicate MAX_RP_COOKIES \<lparr> rc_cookie = replicate MOOR_RENDEZVOUS_COOKIE_LEN 0, rc_circ = None,
    rc_circuit_id = 0, rc_conn = 0, rc_valid = False, rc_created_at = 0 \<rparr>"

definition moor_relay_invalidate_rp_cookies :: "nat \<Rightarrow> rp_cookie_entry list \<Rightarrow> rp_cookie_entry list" where
  "moor_relay_invalidate_rp_cookies c tab =
    map (\<lambda>e. if rc_valid e \<and> rc_circ e = Some c then e\<lparr>rc_valid := False, rc_circ := None\<rparr> else e) tab"

definition relay_establish_rendezvous ::
    "(nat \<Rightarrow> moor_cell \<Rightarrow> moor_cell) \<Rightarrow> int \<Rightarrow> bytes \<Rightarrow> nat \<Rightarrow> rp_cookie_entry list \<Rightarrow> circ_pool \<Rightarrow>
      bool \<times> rp_cookie_entry list \<times> circ_pool" where
  "relay_establish_rendezvous seal now data c tab p =
    (if length data < MOOR_RENDEZVOUS_COOKIE_LEN then (False, tab, p)
     else let tab1 = map (\<lambda>e. if rc_valid e \<and> now - rc_created_at e > RP_COOKIE_TTL_SECS
                            then e\<lparr>rc_valid := False, rc_circ := None\<rparr> else e) tab
          in case first_index (\<lambda>e. \<not> rc_valid e) tab1 of
              None \<Rightarrow> (False, tab1, p)
            | Some i \<Rightarrow>
                let r = cp_mem p c;
                    e = \<lparr> rc_cookie = take MOOR_RENDEZVOUS_COOKIE_LEN data, rc_circ = Some c, rc_circuit_id = pc_circuit_id r,
                          rc_conn = pc_prev_conn r, rc_valid = True, rc_created_at = now \<rparr>
                in (True, tab1[i := e],
                    emit [Queue_cell c (seal c (moor_cell_relay (pc_prev_circuit_id r)
                            (relay_cmd_code RELAY_RENDEZVOUS_ESTABLISHED) 0 None 0)) 1] p))"

definition find_cookie :: "bytes \<Rightarrow> rp_cookie_entry list \<Rightarrow> nat option" where
  "find_cookie data tab =
    first_index (\<lambda>e. rc_valid e \<and> rc_cookie e = take MOOR_RENDEZVOUS_COOKIE_LEN data) tab"

text \<open>The client's circuit is looked up again by the ids stored with the cookie.\<close>

definition rendezvous_client :: "bytes \<Rightarrow> rp_cookie_entry list \<Rightarrow> circ_pool \<Rightarrow> nat option" where
  "rendezvous_client data tab p =
    (case find_cookie data tab of None \<Rightarrow> None
     | Some i \<Rightarrow> moor_circuit_find (rc_circuit_id (tab ! i)) (rc_conn (tab ! i)) p)"

definition rendezvous_join :: "nat \<Rightarrow> nat \<Rightarrow> circ_pool \<Rightarrow> circ_pool" where
  "rendezvous_join circ client_circ p =
    (let p1 = set_circ circ ((cp_mem p circ)\<lparr>pc_rp_partner := Some client_circ\<rparr>) p
     in set_circ client_circ ((cp_mem p1 client_circ)\<lparr>pc_rp_partner := Some circ\<rparr>) p1)"

definition relay_rendezvous1 ::
    "circ_env \<Rightarrow> (nat \<Rightarrow> moor_cell \<Rightarrow> moor_cell) \<Rightarrow> bytes \<Rightarrow> nat \<Rightarrow> rp_cookie_entry list \<Rightarrow> circ_pool \<Rightarrow>
      bool \<times> rp_cookie_entry list \<times> circ_pool" where
  "relay_rendezvous1 env seal data circ tab p =
    (if length data < MOOR_RENDEZVOUS_COOKIE_LEN + 64 then (False, tab, p)
     else case find_cookie data tab of
         None \<Rightarrow> (False, tab, p)
       | Some i \<Rightarrow>
           let tab1 = tab[i := (tab ! i)\<lparr>rc_valid := False\<rparr>] in
           case rendezvous_client data tab p of
             None \<Rightarrow> (False, tab1, p)
           | Some client_circ \<Rightarrow>
               let r = cp_mem p client_circ in
               if pc_prev_conn r = 0 \<or> \<not> env_conn_open env (cp_trace p) (pc_prev_conn r) then (False, tab1, p)
               else (True, tab1,
                 emit [Send_cell (pc_prev_conn r) (seal client_circ (moor_cell_relay (pc_prev_circuit_id r)
                         (relay_cmd_code RELAY_RENDEZVOUS2) 0 (Some (take 64 (drop MOOR_RENDEZVOUS_COOKIE_LEN data))) 64))]
                   (rendezvous_join circ client_circ p)))"

section \<open>The operations keep the invariant\<close>

lemma retain_simps [simp]:
  "cp_mem (circ_retain n p) = cp_mem p" "cp_circuits (circ_retain n p) = cp_circuits p"
  "cp_pending (circ_retain n p) = cp_pending p" "cp_ht (circ_retain n p) = cp_ht p"
  "cp_freed (circ_retain n p) = cp_freed p" "cp_trace (circ_retain n p) = cp_trace p"
  "cp_init_done (circ_retain n p) = cp_init_done p"
  by (simp_all add: circ_retain_def)

lemma pool_inv_retain [simp]: "pool_inv (circ_retain n p) \<longleftrightarrow> pool_inv p"
  by (simp add: pool_inv_def)

lemma register_frame [simp]:
  "cp_init_done (circ_register_unlocked c p) = cp_init_done p" "cp_circuits (circ_register_unlocked c p) = cp_circuits p"
  "cp_mem (circ_register_unlocked c p) = cp_mem p" "cp_pending (circ_register_unlocked c p) = cp_pending p"
  "cp_freed (circ_register_unlocked c p) = cp_freed p" "cp_trace (circ_register_unlocked c p) = cp_trace p"
  by (simp_all add: circ_register_unlocked_def Let_def)

text \<open>
  New contents for a circuit are harmless when the mark and the partner stay, a marked circuit
  keeps its id, and every key under which the table has the circuit is still one of its keys.
\<close>

definition keeps_keys :: "circ_pool \<Rightarrow> nat \<Rightarrow> pool_circ \<Rightarrow> bool" where
  "keeps_keys p c r \<longleftrightarrow> (\<forall>conn cid. circ_ht_lookup conn cid (cp_ht p) = Some c \<longrightarrow> (conn, cid) \<in> circ_keys r)"

definition fields_ok :: "pool_circ \<Rightarrow> pool_circ \<Rightarrow> bool" where
  "fields_ok r r' \<longleftrightarrow> pc_marked_for_close r' = pc_marked_for_close r \<and> pc_rp_partner r' = pc_rp_partner r \<and>
    (pc_marked_for_close r = 0 \<or> pc_circuit_id r' = pc_circuit_id r)"

lemma fields_inv:
  assumes inv: "pool_inv p" and f: "fields_ok (cp_mem p c) r" and k: "keeps_keys p c r"
  shows "pool_inv (set_circ c r p)"
proof -
  let ?m = "(cp_mem p)(c := r)"
  have "pending_ok ?m (cp_circuits p) (cp_pending p)"
    using pool_inv_pendingD [OF inv] pool_invD(4) [OF inv] f unfolding pending_ok_def fields_ok_def by auto
  moreover have "partners_ok ?m (cp_circuits p)"
    using pool_inv_partnerD [OF inv] f unfolding partners_ok_def fields_ok_def by (metis (no_types, lifting) fun_upd_apply)
  moreover have "table_ok ?m (cp_circuits p) (cp_ht p)"
    unfolding table_ok_def
  proof (intro conjI allI impI)
    fix q x assume q: "ht_abs (cp_ht p) q = Some x"
    from pool_inv_tableD [OF inv q] k q show "x \<in> set (cp_circuits p)" "q \<in> circ_keys (?m x)"
      by (cases q, auto simp: keeps_keys_def ht_abs_def)+
  qed (rule pool_invD(1) [OF inv])
  ultimately show ?thesis using inv by (simp add: pool_inv_def)
qed

lemma keeps_keys_subset: "pool_inv p \<Longrightarrow> circ_keys (cp_mem p c) \<subseteq> circ_keys r \<Longrightarrow> keeps_keys p c r"
  using pool_inv_tableD(2) unfolding keeps_keys_def ht_abs_def by fastforce

lemma keys_grow_next:
  "pc_next_conn r = 0 \<Longrightarrow> pc_circuit_id r' = pc_circuit_id r \<Longrightarrow> pc_conn r' = pc_conn r \<Longrightarrow>
    pc_prev_conn r' = pc_prev_conn r \<Longrightarrow> pc_prev_circuit_id r' = pc_prev_circuit_id r \<Longrightarrow> circ_keys r \<subseteq> circ_keys r'"
  by (auto simp: circ_keys_def)

lemma keys_grow_conn:
  "pc_conn r = 0 \<or> pc_conn r = n \<Longrightarrow> circ_keys r \<subseteq> circ_keys (r\<lparr>pc_conn := n\<rparr>)"
  by (auto simp: circ_keys_def)

lemma link_keys_simps [simp]:
  "circ_keys (r\<lparr>pc_extend_pending := b\<rparr>) = circ_keys r" "circ_keys (r\<lparr>pc_n_chan := b\<rparr>) = circ_keys r"
  "circ_keys (r\<lparr>pc_relay_early_count := n\<rparr>) = circ_keys r" "circ_keys (r\<lparr>pc_chan := b\<rparr>) = circ_keys r"
  by (simp_all add: circ_keys_def)

lemma find_result:
  assumes "pool_inv p" and "moor_circuit_find cid conn p = Some c"
  shows "c \<in> set (cp_circuits p) \<and> pc_marked_for_close (cp_mem p c) = 0"
proof -
  consider "circ_ht_lookup conn cid (cp_ht p) = Some c" "pc_marked_for_close (cp_mem p c) = 0"
    | "List.find (\<lambda>c. find_scan_hit cid conn (cp_mem p c)) (cp_circuits p) = Some c"
    using assms(2) by (auto simp: moor_circuit_find_def split: option.splits if_splits)
  then show ?thesis
  proof cases
    case 1
    then have "ht_abs (cp_ht p) (conn, cid) = Some c" by (simp add: ht_abs_def)
    with pool_inv_tableD(1) [OF assms(1) this] 1(2) show ?thesis by simp
  next
    case 2
    then show ?thesis by (auto simp: find_Some_iff find_scan_hit_def)
  qed
qed

text \<open>A flag that is no link.\<close>

lemma flag_inv:
  assumes "pool_inv p" and "fields_ok (cp_mem p c) r" and "circ_keys r = circ_keys (cp_mem p c)"
  shows "pool_inv (set_circ c r p)"
  using fields_inv [OF assms(1,2) keeps_keys_subset [OF assms(1)]] assms(3) by simp

lemma extend_link_inv:
  assumes "pool_inv p" and "c \<in> set (cp_circuits p)" and "pc_next_conn (cp_mem p c) = 0"
  shows "pool_inv (extend_link conn cell c p)"
proof -
  let ?r = "(cp_mem p c)\<lparr>pc_n_chan := True, pc_next_conn := conn, pc_next_circuit_id := c_circuit_id cell, pc_extend_pending := True\<rparr>"
  have "circ_keys (cp_mem p c) \<subseteq> circ_keys ?r" using keys_grow_next [OF assms(3)] by simp
  then have "pool_inv (set_circ c ?r (emit [Send_cell conn cell] p))"
    using assms(1) by (intro fields_inv keeps_keys_subset) (simp_all add: fields_ok_def)
  from register_inv [of "emit [Mux_attach c (c_circuit_id cell), Event_add conn] (circ_retain conn (set_circ c ?r (emit [Send_cell conn cell] p)))" c]
    this assms(2) show ?thesis by (simp add: extend_link_def Let_def)
qed

lemma relay_extend_inv:
  assumes inv: "pool_inv p" and c: "c \<in> set (cp_circuits p)" and n: "pc_next_conn (cp_mem p c) = 0"
  shows "pool_inv (snd (relay_extend xe early data c p))"
proof -
  let ?r1 = "(cp_mem p c)\<lparr>pc_relay_early_count := pc_relay_early_count (cp_mem p c) + 1\<rparr>"
  let ?p1 = "set_circ c ?r1 p"
  have p1: "pool_inv ?p1" by (rule flag_inv [OF inv]) (simp_all add: fields_ok_def)
  have p2: "pool_inv (set_circ c (?r1\<lparr>pc_extend_pending := True\<rparr>) ?p1)" by (rule flag_inv [OF p1]) (simp_all add: fields_ok_def)
  have p3: "pool_inv (extend_link conn cell c ?p1)" for conn cell
    by (rule extend_link_inv [OF p1]) (use c n in simp_all)
  show ?thesis using inv p1 p2 p3 by (simp add: relay_extend_def Let_def split: option.split)
qed

lemma extend_complete_inv:
  assumes inv: "pool_inv p"
    and n: "\<And>c. moor_circuit_find (ew_prev_circuit_id w) (ew_prev_conn w) p = Some c \<Longrightarrow> pc_next_conn (cp_mem p c) = 0"
  shows "pool_inv (extend_complete env seal w p)"
proof (cases "moor_circuit_find (ew_prev_circuit_id w) (ew_prev_conn w) p")
  case None
  then show ?thesis using inv by (simp add: extend_complete_def Let_def)
next
  case (Some c)
  let ?r1 = "(cp_mem p c)\<lparr>pc_extend_pending := False\<rparr>"
  let ?p1 = "set_circ c ?r1 p"
  let ?r2 = "?r1\<lparr>pc_n_chan := ew_chan w, pc_next_conn := ew_next_conn w, pc_next_circuit_id := ew_next_circuit_id w\<rparr>"
  have p1: "pool_inv ?p1" by (rule flag_inv [OF inv]) (simp_all add: fields_ok_def)
  have "circ_keys ?r1 \<subseteq> circ_keys ?r2" by (rule keys_grow_next) (use n [OF Some] in simp_all)
  then have "keeps_keys ?p1 c ?r2" by (intro keeps_keys_subset [OF p1]) simp
  then have "pool_inv (set_circ c ?r2 ?p1)" by (intro fields_inv [OF p1]) (simp_all add: fields_ok_def)
  then have p2: "pool_inv (circ_register_unlocked c (emit es (set_circ c ?r2 ?p1)))" for es
    using find_result [OF inv Some] by (intro register_inv) simp_all
  show ?thesis using inv p1 p2 Some by (cases "ew_chan w") (simp_all add: extend_complete_def Let_def split: option.split)
qed

lemma relay_created_inv:
  assumes inv: "pool_inv p"
  shows "pool_inv (relay_created env seal conn cell p)"
proof -
  have "pool_inv (set_circ c ((cp_mem p c)\<lparr>pc_extend_pending := False\<rparr>) p)" for c
    by (rule flag_inv [OF inv]) (simp_all add: fields_ok_def)
  then show ?thesis using inv by (simp add: relay_created_def Let_def split: option.split)
qed

lemma cbuild_link_inv:
  assumes "pool_inv p" and "c \<in> set (cp_circuits p)" and "pc_conn (cp_mem p c) = 0 \<or> pc_conn (cp_mem p c) = conn"
  shows "pool_inv (cbuild_link conn c p)"
proof -
  have "pool_inv (set_circ c ((cp_mem p c)\<lparr>pc_conn := conn\<rparr>) p)"
    using assms keys_grow_conn by (intro fields_inv keeps_keys_subset) (simp_all add: fields_ok_def)
  then show ?thesis unfolding cbuild_link_def using assms(2) by (intro register_inv) simp_all
qed

lemma cbuild_fail_inv:
  assumes inv: "pool_inv p"
  shows "\<exists>p'. cbuild_fail c p = Some p' \<and> pool_inv p' \<and> cp_init_done p' = cp_init_done p"
proof -
  define p1 where "p1 = (if pc_chan (cp_mem p c) then set_circ c ((cp_mem p c)\<lparr>pc_chan := False\<rparr>) (emit [Mux_detach c] p) else p)"
  have p1: "pool_inv p1" "cp_init_done p1 = cp_init_done p" "circ_keys (cp_mem p1 c) = circ_keys (cp_mem p c)"
    using inv flag_inv [of "emit [Mux_detach c] p" c "(cp_mem p c)\<lparr>pc_chan := False\<rparr>"] by (simp_all add: p1_def fields_ok_def)
  from unregister_table [OF pool_invD(1) [OF p1(1)], of c] obtain t where
    t: "circ_unregister_unlocked c p1 = Some (p1\<lparr>cp_ht := t\<rparr>)" "table_sub (cp_ht p1) t"
    "\<forall>k \<in> circ_keys (cp_mem p1 c). ht_abs t k = None" by blast
  have it: "pool_inv (p1\<lparr>cp_ht := t\<rparr>)"
    using p1(1) t(2) unfolding pool_inv_def table_ok_def table_sub_def by (simp del: split_paired_All) blast
  define q where "q = (let q = drop_ref (pc_conn (cp_mem p c)) (p1\<lparr>cp_ht := t\<rparr>) in
      if pc_conn (cp_mem p c) \<noteq> 0 \<and> cp_refcount q (pc_conn (cp_mem p c)) = 0 then emit [Conn_drop (pc_conn (cp_mem p c))] q else q)"
  have q: "pool_inv q" "cp_mem q = cp_mem p1" "cp_ht q = t" "cp_init_done q = cp_init_done p"
    using it p1(2) by (simp_all add: q_def Let_def pool_inv_def)
  have "circ_ht_lookup conn cid t \<noteq> Some c" for conn cid
  proof
    assume a: "circ_ht_lookup conn cid t = Some c"
    then have "ht_abs (cp_ht p1) (conn, cid) = Some c" using t(2) by (simp add: table_sub_def ht_abs_def)
    from pool_inv_tableD(2) [OF p1(1) this] t(3) a show False by (auto simp: ht_abs_def)
  qed
  then have "pool_inv (set_circ c ((cp_mem q c)\<lparr>pc_conn := 0, pc_build_ctx := None\<rparr>) q)"
    using q by (intro fields_inv) (simp_all add: fields_ok_def keeps_keys_def)
  moreover have "cbuild_fail c p = Some (set_circ c ((cp_mem q c)\<lparr>pc_conn := 0, pc_build_ctx := None\<rparr>) q)"
    unfolding cbuild_fail_def Let_def p1_def [symmetric] t(1) q_def by simp
  ultimately show ?thesis using q(4) by simp
qed

end
