(* ===== verification/CircuitSafety.thy ===== *)
theory CircuitSafety
  imports RelayLinks
begin

text \<open>
  The circuit pool under any sequence of operations (\<open>src/src/circuit.c\<close>, \<open>src/src/relay.c\<close>): runs of
  the pool, memory safety of the deferred close, what the out-of-memory killer does, and the two
  ways in which relay cells leave pointers to freed circuits: a second EXTEND and a second
  RENDEZVOUS1.
\<close>

section \<open>Runs of the pool\<close>

text \<open>
  The operations the program performs on circuits. \<open>Pool_fields\<close> stands for code that fills in
  other fields of a circuit (hops, streams, the id and connection of a client circuit before it
  is registered), \<open>Pool_adopt\<close> for the main thread taking over a circuit built by a worker.
\<close>

datatype (plugins only: code size) pool_op =
    Pool_alloc bool bool nat
  | Pool_create bytes "bytes \<Rightarrow> (bytes \<times> bytes) option" bool bool bool nat u64 moor_cell create_window
  | Pool_extend extend_env bool bytes nat
  | Pool_extend_done "nat \<Rightarrow> moor_cell \<Rightarrow> moor_cell" extend_work
  | Pool_created "nat \<Rightarrow> moor_cell \<Rightarrow> moor_cell" u64 moor_cell
  | Pool_build_link u64 nat
  | Pool_build_fail nat
  | Pool_fields nat pool_circ
  | Pool_adopt nat
  | Pool_mark nat u8 int
  | Pool_destroy nat
  | Pool_free nat
  | Pool_rendezvous1 "nat \<Rightarrow> moor_cell \<Rightarrow> moor_cell" bytes nat "rp_cookie_entry list"
  | Pool_teardown u64
  | Pool_nullify u64
  | Pool_timeouts bool
  | Pool_oom int
  | Pool_close_all bool

fun pool_step :: "circ_env \<Rightarrow> pool_op \<Rightarrow> circ_pool \<Rightarrow> circ_pool option" where
  "pool_step env (Pool_alloc ok1 ok2 addr) p = Some (snd (moor_circuit_alloc env ok1 ok2 addr p))"
| "pool_step env (Pool_create pk cke sent ok1 ok2 addr conn cell w) p =
     map_option (\<lambda>(_, _, p'). p') (moor_relay_handle_create env pk cke sent ok1 ok2 addr conn cell w p)"
| "pool_step env (Pool_extend xe early data c) p = Some (snd (relay_extend xe early data c p))"
| "pool_step env (Pool_extend_done seal w) p = Some (extend_complete env seal w p)"
| "pool_step env (Pool_created seal conn cell) p = Some (relay_created env seal conn cell p)"
| "pool_step env (Pool_build_link conn c) p = Some (cbuild_link conn c p)"
| "pool_step env (Pool_build_fail c) p = cbuild_fail c p"
| "pool_step env (Pool_fields c r) p = Some (set_circ c r p)"
| "pool_step env (Pool_adopt c) p = Some (moor_circuit_adopt env c p)"
| "pool_step env (Pool_mark c reason line) p = Some (moor_circuit_mark_for_close env c reason line p)"
| "pool_step env (Pool_destroy c) p = Some (snd (moor_circuit_destroy env c p))"
| "pool_step env (Pool_free c) p = moor_circuit_free env c p"
| "pool_step env (Pool_rendezvous1 seal data c tab) p = Some (snd (snd (relay_rendezvous1 env seal data c tab p)))"
| "pool_step env (Pool_teardown conn) p = moor_circuit_teardown_for_conn env conn p"
| "pool_step env (Pool_nullify conn) p = moor_circuit_nullify_conn conn p"
| "pool_step env (Pool_timeouts ok) p = Some (moor_circuit_check_timeouts env ok p)"
| "pool_step env (Pool_oom n) p = Some (snd (moor_circuit_oom_kill env n p))"
| "pool_step env (Pool_close_all ok) p = moor_circuit_close_all_marked env ok p"

text \<open>
  What every caller respects: the pointers passed are those of tracked circuits (the handlers get
  theirs from \<open>moor_circuit_find\<close>), \<open>malloc\<close> returns an address that is not in use, a mark carries a
  source line, other code leaves marks and partners alone, and an adopted circuit is alive and
  fits into the tracking array.
\<close>

definition join_ok :: "pool_circ \<Rightarrow> bool" where
  "join_ok r \<longleftrightarrow> pc_marked_for_close r = 0 \<and> pc_rp_partner r = None"

fun pool_op_ok :: "circ_env \<Rightarrow> pool_op \<Rightarrow> circ_pool \<Rightarrow> bool" where
  "pool_op_ok env (Pool_alloc ok1 ok2 addr) p \<longleftrightarrow> addr \<notin> set (cp_circuits p)"
| "pool_op_ok env (Pool_create pk cke sent ok1 ok2 addr conn cell w) p \<longleftrightarrow> addr \<notin> set (cp_circuits p)"
| "pool_op_ok env (Pool_extend xe early data c) p \<longleftrightarrow> c \<in> set (cp_circuits p)"
| "pool_op_ok env (Pool_build_link conn c) p \<longleftrightarrow> c \<in> set (cp_circuits p)"
| "pool_op_ok env (Pool_build_fail c) p \<longleftrightarrow> c \<in> set (cp_circuits p)"
| "pool_op_ok env (Pool_fields c r) p \<longleftrightarrow> c \<in> set (cp_circuits p) \<and> fields_ok (cp_mem p c) r"
| "pool_op_ok env (Pool_adopt c) p \<longleftrightarrow> c \<in> set (cp_circuits p) \<or>
     env_grow env (cp_circuits p) \<and> c \<notin> set (cp_freed p) \<and> join_ok (cp_mem p c)"
| "pool_op_ok env (Pool_mark c reason line) p \<longleftrightarrow> c \<in> set (cp_circuits p) \<and> line_ok line"
| "pool_op_ok env (Pool_destroy c) p \<longleftrightarrow> c \<in> set (cp_circuits p)"
| "pool_op_ok env (Pool_free c) p \<longleftrightarrow> c \<in> set (cp_circuits p)"
| "pool_op_ok env (Pool_rendezvous1 seal data c tab) p \<longleftrightarrow> c \<in> set (cp_circuits p) \<and> pc_marked_for_close (cp_mem p c) = 0"
| "pool_op_ok env _ p \<longleftrightarrow> True"

text \<open>
  What the code does not check. An operation overwrites a link when it extends a circuit that
  already has a next hop, or gives a registered circuit another connection; it joins again when
  one of the two circuits already has a rendezvous partner, or when both are the same.
\<close>

fun overwrites_link :: "pool_op \<Rightarrow> circ_pool \<Rightarrow> bool" where
  "overwrites_link (Pool_extend xe early data c) p \<longleftrightarrow> pc_next_conn (cp_mem p c) \<noteq> 0"
| "overwrites_link (Pool_extend_done seal w) p \<longleftrightarrow>
     (case moor_circuit_find (ew_prev_circuit_id w) (ew_prev_conn w) p of None \<Rightarrow> False | Some c \<Rightarrow> pc_next_conn (cp_mem p c) \<noteq> 0)"
| "overwrites_link (Pool_build_link conn c) p \<longleftrightarrow> pc_conn (cp_mem p c) \<noteq> 0 \<and> pc_conn (cp_mem p c) \<noteq> conn"
| "overwrites_link (Pool_fields c r) p \<longleftrightarrow> \<not> keeps_keys p c r"
| "overwrites_link _ p \<longleftrightarrow> False"

fun joins_again :: "pool_op \<Rightarrow> circ_pool \<Rightarrow> bool" where
  "joins_again (Pool_rendezvous1 seal data c tab) p \<longleftrightarrow>
     (case rendezvous_client data tab p of None \<Rightarrow> False
      | Some d \<Rightarrow> c = d \<or> pc_rp_partner (cp_mem p c) \<noteq> None \<or> pc_rp_partner (cp_mem p d) \<noteq> None)"
| "joins_again _ p \<longleftrightarrow> False"

definition empty_pool :: circ_pool where
  "empty_pool = \<lparr> cp_mem = \<lambda>_. zero_circ, cp_circuits = [], cp_pending = [], cp_ht = replicate CIRC_HT_SIZE None,
    cp_refcount = \<lambda>_. 0, cp_freed = [], cp_init_done = True, cp_stat_created = 0, cp_stat_destroyed = 0, cp_stat_active = 0,
    cp_trace = [] \<rparr>"

text \<open>A run records each operation with the pool it was performed on.\<close>

inductive pool_run :: "(circ_pool \<times> pool_op) list \<Rightarrow> circ_pool \<Rightarrow> bool" where
  run_start: "pool_run [] empty_pool"
| run_step: "pool_run steps p \<Longrightarrow> \<not> env_worker env \<Longrightarrow> pool_op_ok env op p \<Longrightarrow> pool_step env op p = Some p' \<Longrightarrow>
    pool_run (steps @ [(p, op)]) p'"

text \<open>Pools reached without overwriting a link or joining again.\<close>

definition pool_reach :: "circ_pool \<Rightarrow> bool" where
  "pool_reach p \<longleftrightarrow> (\<exists>steps. pool_run steps p \<and> (\<forall>(q, op) \<in> set steps. \<not> overwrites_link op q \<and> \<not> joins_again op q))"

lemma pool_start: "pool_reach empty_pool"
  unfolding pool_reach_def using run_start by (intro exI [of _ "[]"]) simp

lemma pool_next:
  assumes "pool_reach p" and "\<not> env_worker env" and "pool_op_ok env op p" and "\<not> overwrites_link op p" and "\<not> joins_again op p"
    and "pool_step env op p = Some p'"
  shows "pool_reach p'"
proof -
  from assms(1) obtain steps where s: "pool_run steps p" "\<forall>(q, op) \<in> set steps. \<not> overwrites_link op q \<and> \<not> joins_again op q"
    unfolding pool_reach_def by blast
  from run_step [OF s(1) assms(2,3,6)] have "pool_run (steps @ [(p, op)]) p'" .
  moreover have "\<forall>(q, op) \<in> set (steps @ [(p, op)]). \<not> overwrites_link op q \<and> \<not> joins_again op q"
    using s(2) assms(4,5) by simp
  ultimately show ?thesis unfolding pool_reach_def by blast
qed

lemma empty_pool_inv: "pool_inv empty_pool"
proof -
  have "ht_abs (replicate CIRC_HT_SIZE None) k = None" for k
    using ht_abs_entry [OF ht_inv_empty, of k] by fastforce
  then show ?thesis using ht_inv_empty by (simp add: pool_inv_def pool_parts empty_pool_def)
qed

lemma join_inv:
  assumes inv: "pool_inv p" and ab: "a \<noteq> b" "a \<in> set (cp_circuits p)" "b \<in> set (cp_circuits p)"
    and j: "join_ok (cp_mem p a)" "join_ok (cp_mem p b)"
  shows "pool_inv (rendezvous_join a b p)"
proof -
  let ?m = "cp_mem (rendezvous_join a b p)"
  have m: "?m = (cp_mem p)(a := (cp_mem p a)\<lparr>pc_rp_partner := Some b\<rparr>, b := (cp_mem p b)\<lparr>pc_rp_partner := Some a\<rparr>)"
    using ab(1) by (simp add: rendezvous_join_def Let_def)
  have na: "d \<noteq> a" "d \<noteq> b" if "x \<in> set (cp_circuits p)" "pc_rp_partner (cp_mem p x) = Some d" for x d
    using pool_inv_partnerD(3) [OF inv that] j by (auto simp: join_ok_def)
  have "partners_ok ?m (cp_circuits p)"
    unfolding partners_ok_def
  proof (intro ballI allI impI)
    fix x d assume x: "x \<in> set (cp_circuits p)" and d: "pc_rp_partner (?m x) = Some d"
    consider "x = a" | "x = b" | "x \<noteq> a" "x \<noteq> b" by blast
    then show "d \<in> set (cp_circuits p) \<and> d \<noteq> x \<and> pc_rp_partner (?m d) = Some x \<and> pc_marked_for_close (?m x) = 0"
    proof cases
      case 1
      then have "d = b" using d ab(1) by (simp add: m)
      then show ?thesis using 1 ab j by (simp add: m join_ok_def)
    next
      case 2
      then have "d = a" using d ab(1) by (simp add: m)
      then show ?thesis using 2 ab j by (simp add: m join_ok_def)
    next
      case 3
      then have d': "pc_rp_partner (cp_mem p x) = Some d" using d by (simp add: m)
      from pool_inv_partnerD [OF inv x d'] na [OF x d'] 3 show ?thesis by (simp add: m)
    qed
  qed
  moreover have "pending_ok ?m (cp_circuits p) (cp_pending p)"
    using pool_inv_pendingD [OF inv] pool_invD(4) [OF inv] unfolding pending_ok_def m by auto
  moreover have "circ_keys (?m x) = circ_keys (cp_mem p x)" for x by (simp add: m)
  ultimately show ?thesis using inv by (simp add: pool_inv_def table_ok_def rendezvous_join_def Let_def)
qed

lemma adopt_inv:
  assumes inv: "pool_inv p" and ok: "pool_op_ok env (Pool_adopt c) p"
  shows "pool_inv (moor_circuit_adopt env c p)"
proof (cases "c \<in> set (cp_circuits p)")
  case True
  then show ?thesis using register_inv [OF inv True] by (simp add: moor_circuit_adopt_def)
next
  case False
  with ok have o: "env_grow env (cp_circuits p)" "c \<notin> set (cp_freed p)" "join_ok (cp_mem p c)" by simp_all
  have "pool_inv (p\<lparr>cp_mem := (cp_mem p)(c := cp_mem p c), cp_freed := cp_freed p, cp_circuits := cp_circuits p @ [c]\<rparr>)"
    by (rule fresh_inv(1) [OF inv False]) (use o in \<open>auto simp: join_ok_def\<close>)
  then have "pool_inv (p\<lparr>cp_circuits := cp_circuits p @ [c], cp_stat_created := cp_stat_created p + 1, cp_stat_active := cp_stat_active p + 1\<rparr>)"
    by (simp add: pool_inv_def)
  from register_inv [OF this, of c] False o show ?thesis
    by (simp add: moor_circuit_adopt_def circ_array_add_def Let_def)
qed

text \<open>The initialisation flag stays set.\<close>

lemma close_all_init:
  assumes "pool_inv p" and "moor_circuit_close_all_marked env ok p = Some p'"
  shows "cp_init_done p' = cp_init_done p"
proof (cases "cp_pending p = [] \<or> \<not> ok")
  case True
  then show ?thesis using assms(2) by (auto simp: moor_circuit_close_all_marked_def split: if_splits)
next
  case False
  let ?q = "p\<lparr>cp_pending := []\<rparr>"
  have "\<forall>c \<in> set (cp_pending p). c \<in> set (cp_circuits ?q) \<and> pc_marked_for_close (cp_mem ?q c) \<noteq> 0"
    using pool_inv_pendingD [OF assms(1)] by simp
  from close_batch_inv [OF pending_clear_inv [OF assms(1)] _ pool_invD(4) [OF assms(1)] this, of env] obtain q where
    q: "close_batch env (cp_pending p) ?q = Some q" "pool_inv q" "cp_init_done q = cp_init_done p"
    "\<forall>c \<in> set (cp_pending p). detached q c" by auto
  from release_batch_inv [OF q(2,4) pool_invD(4) [OF assms(1)]] q False assms(2) show ?thesis
    by (auto simp: moor_circuit_close_all_marked_def)
qed

lemma free_init:
  assumes "pool_inv p" and "moor_circuit_free env c p = Some p'" and "\<not> env_worker env"
  shows "cp_init_done p' = cp_init_done p"
  using cleanup_cleaned [OF pool_invD(1) [OF assms(1)], of env c] assms(2,3)
  by (auto simp: moor_circuit_free_def cleaned_def split: if_splits)

lemma timeouts_init:
  assumes "\<not> env_worker env" and "pool_inv p"
  shows "cp_init_done (moor_circuit_check_timeouts env ok p) = cp_init_done p"
proof -
  let ?snap = "map (\<lambda>c. (c, env_now env - pc_created_at (cp_mem p c), pc_circuit_id (cp_mem p c)))
      (filter (\<lambda>c. pc_circuit_id (cp_mem p c) \<noteq> 0 \<and> \<not> env_now env < pc_created_at (cp_mem p c)) (cp_circuits p))"
  have "pool_inv (fold (check_timeout_one env) ?snap p) \<and> cp_init_done (fold (check_timeout_one env) ?snap p) = cp_init_done p"
    using fold_inv [OF assms(2) subset_refl, of fst "check_timeout_one env" ?snap] check_timeout_one_step [OF assms(1)] by fastforce
  then show ?thesis using oom_kill_inv [OF assms(1)] by (simp add: moor_circuit_check_timeouts_def Let_def)
qed

lemma alloc_init:
  assumes "\<not> env_worker env" and "pool_inv p" and "cp_init_done p"
  shows "cp_init_done (snd (moor_circuit_alloc env ok1 ok2 addr p))"
  using assms oom_kill_inv [OF assms(1,2), of 1] by (simp add: moor_circuit_alloc_def circ_array_add_def Let_def)

lemma adopt_init: "cp_init_done (moor_circuit_adopt env c p) = cp_init_done p"
  by (simp add: moor_circuit_adopt_def circ_array_add_def Let_def)

lemma alloc_result:
  assumes "moor_circuit_alloc env ok1 ok2 addr p = (Some c, p1)" and "\<not> env_worker env" and "cp_init_done p"
  shows "c = addr \<and> addr \<in> set (cp_circuits p1) \<and> cp_mem p1 addr = circ_init_fields (env_now env) zero_circ"
  using assms by (auto simp: moor_circuit_alloc_def circ_array_add_def Let_def split: if_splits)

lemma create_inv:
  assumes w: "\<not> env_worker env" and inv: "pool_inv p" and i: "cp_init_done p" and a: "addr \<notin> set (cp_circuits p)"
  shows "\<exists>ok w1 p'. moor_relay_handle_create env pk cke sent ok1 ok2 addr conn cell cw p = Some (ok, w1, p') \<and>
    pool_inv p' \<and> cp_init_done p'"
proof -
  obtain res p1 where al: "moor_circuit_alloc env ok1 ok2 addr p = (res, p1)" by fastforce
  have p1: "pool_inv p1" "cp_init_done p1"
    using alloc_inv [OF w inv a i, of ok1 ok2] alloc_init [OF w inv i, of ok1 ok2 addr] al by simp_all
  show ?thesis
  proof (cases res)
    case None
    then show ?thesis using inv i p1 al by (auto simp: moor_relay_handle_create_def Let_def split: option.split)
  next
    case (Some c)
    note r = alloc_result [OF al [unfolded Some] w i]
    show ?thesis
    proof (cases "cke (take 32 (drop 32 (c_payload cell)))")
      case None
      then show ?thesis using inv i by (auto simp: moor_relay_handle_create_def Let_def)
    next
      case (Some et)
      obtain eph tag where et: "cke (take 32 (drop 32 (c_payload cell))) = Some (eph, tag)" using Some by (cases et) simp
      define p3 where "p3 = emit [Send_cell conn (moor_cell_created (c_circuit_id cell) eph tag)]
        (set_circ c ((cp_mem p1 c)\<lparr>pc_circuit_id := c_circuit_id cell, pc_prev_conn := conn,
          pc_prev_circuit_id := c_circuit_id cell, pc_is_client := False\<rparr>) p1)"
      have p3: "pool_inv p3" "cp_init_done p3" "c \<in> set (cp_circuits p3)"
        using p1 r by (auto simp: p3_def fields_ok_def init_fields_blank intro!: fields_inv keeps_keys_subset)
      obtain q where q: "moor_circuit_free env c p3 = Some q" "pool_inv q" "cp_init_done q"
        using free_inv [OF p3(1,3) w] free_init [OF p3(1) _ w] p3(2) by metis
      have reg: "pool_inv (circ_register_unlocked c (circ_retain conn p3))" using p3 by (intro register_inv) simp_all
      have "moor_relay_handle_create env pk cke sent ok1 ok2 addr conn cell cw p \<in>
          {Some (False, create_window_step (env_now env) cw, p), Some (False, create_window_step (env_now env) cw, q),
           Some (True, create_window_step (env_now env) cw, circ_register_unlocked c (circ_retain conn p3))}"
        unfolding moor_relay_handle_create_def al \<open>res = Some c\<close> Let_def et option.case prod.case p3_def [symmetric] q(1)
        by simp
      then show ?thesis using inv i p3(2) reg q(2,3) by auto
    qed
  qed
qed

lemma rendezvous1_inv:
  assumes inv: "pool_inv p" and c: "c \<in> set (cp_circuits p)" "pc_marked_for_close (cp_mem p c) = 0"
    and n: "\<not> joins_again (Pool_rendezvous1 seal data c tab) p"
  shows "pool_inv (snd (snd (relay_rendezvous1 env seal data c tab p)))"
proof (cases "rendezvous_client data tab p")
  case None
  then show ?thesis using inv by (simp add: relay_rendezvous1_def Let_def split: option.split)
next
  case (Some d)
  then obtain cid conn where "moor_circuit_find cid conn p = Some d"
    by (auto simp: rendezvous_client_def split: option.splits)
  note d = find_result [OF inv this]
  have "pool_inv (rendezvous_join c d p)" using n Some c d by (intro join_inv [OF inv]) (simp_all add: join_ok_def)
  then show ?thesis using inv Some by (simp add: relay_rendezvous1_def Let_def split: option.split)
qed

lemma links_init:
  "cp_init_done (snd (relay_extend xe early data c p)) = cp_init_done p"
  "cp_init_done (extend_complete env seal w p) = cp_init_done p"
  "cp_init_done (relay_created env seal conn cell p) = cp_init_done p"
  "cp_init_done (cbuild_link conn c p) = cp_init_done p"
  "cp_init_done (snd (snd (relay_rendezvous1 env seal data c tab p))) = cp_init_done p"
  by (simp_all add: relay_extend_def extend_link_def extend_complete_def relay_created_def cbuild_link_def relay_rendezvous1_def
      rendezvous_join_def Let_def split: option.split)

lemma pool_step_inv:
  assumes "pool_inv p" and "cp_init_done p" and "\<not> env_worker env" and "pool_op_ok env op p"
    and ow: "\<not> overwrites_link op p" and ja: "\<not> joins_again op p"
  shows "\<exists>p'. pool_step env op p = Some p' \<and> pool_inv p' \<and> cp_init_done p'"
proof (cases op)
  case (Pool_alloc ok1 ok2 addr)
  then show ?thesis using assms alloc_inv [OF assms(3,1)] alloc_init [OF assms(3,1,2)] by simp
next
  case (Pool_create pk cke sent ok1 ok2 addr conn cell w)
  then show ?thesis using assms(4) create_inv [OF assms(3,1,2), of addr pk cke sent ok1 ok2 conn cell w] by auto
next
  case (Pool_extend xe early data c)
  then show ?thesis using assms relay_extend_inv [OF assms(1)] by (simp add: links_init)
next
  case (Pool_extend_done seal w)
  then have "pool_inv (extend_complete env seal w p)" using ow by (intro extend_complete_inv [OF assms(1)]) auto
  then show ?thesis using Pool_extend_done assms(2) by (simp add: links_init)
next
  case (Pool_created seal conn cell)
  then show ?thesis using assms relay_created_inv [OF assms(1)] by (simp add: links_init)
next
  case (Pool_build_link conn c)
  then have "pool_inv (cbuild_link conn c p)" using ow assms(4) by (intro cbuild_link_inv [OF assms(1)]) auto
  then show ?thesis using Pool_build_link assms(2) by (simp add: links_init)
next
  case (Pool_build_fail c)
  then show ?thesis using assms(2) cbuild_fail_inv [OF assms(1), of c] by auto
next
  case (Pool_fields c r)
  then show ?thesis using assms fields_inv [OF assms(1)] by simp
next
  case (Pool_adopt c)
  then show ?thesis using assms adopt_inv [OF assms(1)] adopt_init [of env c p] by simp
next
  case (Pool_mark c reason line)
  then show ?thesis using assms mark_inv [OF assms(1)] by simp
next
  case (Pool_destroy c)
  then show ?thesis using assms destroy_step [OF assms(1) _ assms(3)] by simp
next
  case (Pool_free c)
  then show ?thesis using assms free_inv [OF assms(1) _ assms(3)] free_init [OF assms(1) _ assms(3)] by fastforce
next
  case (Pool_rendezvous1 seal data c tab)
  then show ?thesis using assms(2,4) rendezvous1_inv [OF assms(1)] ja by (simp add: links_init)
next
  case (Pool_teardown conn)
  then show ?thesis using assms(2) teardown_inv [OF assms(1), of env conn] by auto
next
  case (Pool_nullify conn)
  then show ?thesis using assms(2) nullify_inv [OF assms(1), of conn] by auto
next
  case (Pool_timeouts ok)
  then show ?thesis using assms(2) timeouts_inv [OF assms(3,1)] timeouts_init [OF assms(3,1)] by simp
next
  case (Pool_oom n)
  then show ?thesis using assms(2) oom_kill_inv [OF assms(3,1)] by simp
next
  case (Pool_close_all ok)
  then show ?thesis using assms(2) close_all_inv [OF assms(1), of env ok] close_all_init [OF assms(1)] by fastforce
qed

lemma pool_step_total:
  assumes "pool_inv p" and "cp_init_done p" and "\<not> env_worker env" and "pool_op_ok env op p"
  shows "\<exists>p'. pool_step env op p = Some p'"
proof (cases "overwrites_link op p \<or> joins_again op p")
  case True
  then show ?thesis by (cases op) simp_all
next
  case False
  then show ?thesis using pool_step_inv [OF assms] by blast
qed

lemma pool_run_inv:
  "pool_run steps p \<Longrightarrow> \<forall>(q, op) \<in> set steps. \<not> overwrites_link op q \<and> \<not> joins_again op q \<Longrightarrow> pool_inv p \<and> cp_init_done p"
proof (induction rule: pool_run.induct)
  case run_start
  then show ?case using empty_pool_inv by (simp add: empty_pool_def)
next
  case (run_step steps p env op p')
  then have "pool_inv p" "cp_init_done p" "\<not> overwrites_link op p" "\<not> joins_again op p" by auto
  with run_step.hyps pool_step_inv [of p env op] show ?case by auto
qed

lemma pool_reach_inv: "pool_reach p \<Longrightarrow> pool_inv p \<and> cp_init_done p"
  unfolding pool_reach_def using pool_run_inv by blast

section \<open>The out-of-memory killer\<close>

text \<open>Marking does not change what the search for the oldest circuit looks at.\<close>

lemma mark_search_fields:
  "pc_circuit_id (cp_mem (moor_circuit_mark_for_close env c reason line p) x) = pc_circuit_id (cp_mem p x)"
  "pc_is_client (cp_mem (moor_circuit_mark_for_close env c reason line p) x) = pc_is_client (cp_mem p x)"
  "pc_created_at (cp_mem (moor_circuit_mark_for_close env c reason line p) x) = pc_created_at (cp_mem p x)"
  by (auto simp: moor_circuit_mark_for_close_def mark_single_def mark_flags_def Let_def split: option.splits)

lemma oldest_cong:
  assumes "cp_circuits p' = cp_circuits p" and "\<And>x. pc_circuit_id (cp_mem p' x) = pc_circuit_id (cp_mem p x)"
    and "\<And>x. pc_is_client (cp_mem p' x) = pc_is_client (cp_mem p x)"
    and "\<And>x. pc_created_at (cp_mem p' x) = pc_created_at (cp_mem p x)"
  shows "oldest_relay_circ p' = oldest_relay_circ p"
  unfolding oldest_relay_circ_def Let_def assms ..

lemma fold_pick:
  assumes "\<And>x b c. f x b = Some c \<Longrightarrow> b = Some c \<or> Q c" and "fold f xs b0 = Some c"
  shows "b0 = Some c \<or> Q c"
  using assms(2)
proof (induction xs arbitrary: b0)
  case (Cons x xs)
  then have "f x b0 = Some c \<or> Q c" by simp
  then show ?case using assms(1) by blast
qed simp

lemma oldest_live: "oldest_relay_circ p = Some c \<Longrightarrow> pc_circuit_id (cp_mem p c) \<noteq> 0"
  unfolding oldest_relay_circ_def
  by (drule fold_pick [where Q = "\<lambda>c. pc_circuit_id (cp_mem p c) \<noteq> 0", rotated])
    (auto simp: Let_def split: if_splits option.splits)

text \<open>Once the oldest circuit is marked, further rounds change nothing but the count and the trace.\<close>

lemma oom_pass2_marked:
  assumes "oldest_relay_circ p = Some c" and "pc_marked_for_close (cp_mem p c) \<noteq> 0" and "\<not> env_worker env"
  shows "fst (oom_pass2 env n killed p) = killed + int n \<and> cp_mem (snd (oom_pass2 env n killed p)) = cp_mem p \<and>
    cp_pending (snd (oom_pass2 env n killed p)) = cp_pending p"
  using assms(1,2)
proof (induction n arbitrary: killed p)
  case (Suc n)
  let ?p1 = "emit [Socks5_invalidate c] (send_destroy env (pc_conn (cp_mem p c)) (moor_cell_destroy (pc_circuit_id (cp_mem p c))) p)"
  have "pc_circuit_id (cp_mem p c) \<noteq> 0" by (rule oldest_live [OF Suc.prems(1)])
  then have e: "snd (moor_circuit_destroy env c ?p1) = ?p1"
    using Suc.prems(2) assms(3) by (simp add: moor_circuit_destroy_def moor_circuit_mark_for_close_def)
  have "oldest_relay_circ ?p1 = Some c" using Suc.prems(1) by (subst oldest_cong [of ?p1 p]) simp_all
  from Suc.IH [OF this, of "killed + 1"] Suc.prems e show ?case by (simp add: Let_def)
qed simp

lemma oom_pass1_none:
  assumes "\<forall>c \<in> set cs. pc_circuit_id (cp_mem p c) = 0 \<or> pc_is_client (cp_mem p c) \<or>
    env_now env < pc_last_cell_time (cp_mem p c) \<or> env_now env - pc_last_cell_time (cp_mem p c) < MOOR_OOM_IDLE_SECS"
  shows "oom_pass1 env target cs killed p = (killed, p)"
  using assms by (induction cs) (auto simp: Let_def)

section \<open>Properties\<close>

text \<open>
  C3. The circuit pool holds no dangling pointer as long as no circuit is extended or joined
  twice. Take any run of allocations, CREATE and EXTEND cells, extensions completed by workers,
  client builds, marks, frees, RENDEZVOUS1 cells, connection teardowns, time-outs,
  memory-pressure kills and deferred closes, in which no operation overwrites a link of a
  circuit that is registered under it and none joins a circuit that already has a partner. Then
  each further operation completes, and no freed circuit is in the tracking array, the pending
  list, the hash table or behind a partner link. What \<open>moor_circuit_find\<close> returns is tracked, not
  freed and not marked for close. The code enforces neither of the two conditions.
\<close>

theorem circuit_pool_no_dangling:
  assumes "pool_run steps p" and "\<forall>(q, op) \<in> set steps. \<not> overwrites_link op q \<and> \<not> joins_again op q"
  shows "(\<forall>env op. \<not> env_worker env \<and> pool_op_ok env op p \<longrightarrow> (\<exists>p'. pool_step env op p = Some p')) \<and>
    set (cp_circuits p) \<inter> set (cp_freed p) = {} \<and>
    set (cp_pending p) \<subseteq> set (cp_circuits p) \<and>
    (\<forall>conn cid c. circ_ht_lookup conn cid (cp_ht p) = Some c \<longrightarrow> c \<in> set (cp_circuits p)) \<and>
    (\<forall>c \<in> set (cp_circuits p). \<forall>d. pc_rp_partner (cp_mem p c) = Some d \<longrightarrow> d \<in> set (cp_circuits p)) \<and>
    (\<forall>conn cid c. moor_circuit_find cid conn p = Some c \<longrightarrow>
      c \<in> set (cp_circuits p) \<and> c \<notin> set (cp_freed p) \<and> pc_marked_for_close (cp_mem p c) = 0)"
proof -
  have inv: "pool_inv p" and i: "cp_init_done p" using pool_run_inv [OF assms] by simp_all
  have dj: "set (cp_circuits p) \<inter> set (cp_freed p) = {}" by (rule pool_invD(3) [OF inv])
  have "c \<in> set (cp_circuits p)" if "circ_ht_lookup conn cid (cp_ht p) = Some c" for conn cid c
    using pool_inv_tableD(1) [OF inv, of "(conn, cid)"] that by (simp add: ht_abs_def)
  moreover have "c \<in> set (cp_circuits p) \<and> c \<notin> set (cp_freed p) \<and> pc_marked_for_close (cp_mem p c) = 0"
    if "moor_circuit_find cid conn p = Some c" for conn cid c
    using find_result [OF inv that] dj by blast
  ultimately show ?thesis
    using pool_step_total [OF inv i] dj pool_inv_pendingD(1) [OF inv] pool_inv_partnerD(1) [OF inv] by blast
qed

section \<open>A relay with circuits\<close>

definition quiet_env :: circ_env where
  "quiet_env = \<lparr> env_conn_open = \<lambda>_ _. True, env_conflux_leg = \<lambda>_ _. False, env_grow = \<lambda>_. True,
    env_mix_enabled = False, env_worker = False, env_now = 100 \<rparr>"

lemma quiet_env_simps [simp]:
  "\<not> env_worker quiet_env" "env_grow quiet_env xs" "env_conn_open quiet_env tr n" "env_now quiet_env = 100"
  by (simp_all add: quiet_env_def)

text \<open>The circuit that a CREATE cell with id \<open>cid\<close> on connection \<open>conn\<close> makes, and the relay after it.\<close>

definition created_circ :: "u64 \<Rightarrow> u32 \<Rightarrow> pool_circ" where
  "created_circ conn cid = (circ_init_fields 100 zero_circ)\<lparr>pc_circuit_id := cid, pc_prev_conn := conn, pc_prev_circuit_id := cid\<rparr>"

definition create_op :: "u64 \<Rightarrow> u32 \<Rightarrow> nat \<Rightarrow> pool_op" where
  "create_op conn cid a = Pool_create (replicate 32 9) (\<lambda>_. Some ([], [])) True True True a conn
    \<lparr> c_circuit_id = cid, c_command = 1, c_payload = replicate 509 9 \<rparr> \<lparr> cw_start = 100, cw_count = 0 \<rparr>"

definition add_relay :: "u64 \<Rightarrow> u32 \<Rightarrow> nat \<Rightarrow> circ_pool \<Rightarrow> circ_pool" where
  "add_relay conn cid a p = the (pool_step quiet_env (create_op conn cid a) p)"

lemma created_circ_simps [simp]:
  "pc_circuit_id (created_circ conn cid) = cid" "pc_marked_for_close (created_circ conn cid) = 0"
  "pc_rp_partner (created_circ conn cid) = None" "pc_conn (created_circ conn cid) = 0" "pc_next_conn (created_circ conn cid) = 0"
  "pc_prev_conn (created_circ conn cid) = conn" "pc_prev_circuit_id (created_circ conn cid) = cid"
  "pc_extend_pending (created_circ conn cid) = False" "pc_relay_early_count (created_circ conn cid) = 0"
  "pc_is_client (created_circ conn cid) = False"
  by (simp_all add: created_circ_def circ_init_fields_def zero_circ_def)

lemma circ_init_relay:
  "(circ_init_fields 100 zero_circ)\<lparr>pc_circuit_id := cid, pc_prev_conn := conn, pc_prev_circuit_id := cid, pc_is_client := False\<rparr> =
    created_circ conn cid"
  by (simp add: created_circ_def circ_init_fields_def zero_circ_def)

lemma init_links:
  "pc_conn (circ_init_fields now zero_circ) = 0" "pc_next_conn (circ_init_fields now zero_circ) = 0"
  by (simp_all add: circ_init_fields_def zero_circ_def)

lemma add_relay_facts:
  assumes r: "pool_reach p" and a: "a \<notin> set (cp_circuits p)" and f: "moor_circuit_find cid conn p = None"
    and k: "conn \<noteq> 0" "cid \<noteq> 0" "ht_abs (cp_ht p) (conn, cid) = None" "card (dom (ht_abs (cp_ht p))) < CIRC_HT_SIZE"
  shows "pool_reach (add_relay conn cid a p)" and "cp_circuits (add_relay conn cid a p) = cp_circuits p @ [a]"
    and "cp_mem (add_relay conn cid a p) = (cp_mem p)(a := created_circ conn cid)"
    and "ht_abs (cp_ht (add_relay conn cid a p)) = (ht_abs (cp_ht p))((conn, cid) \<mapsto> a)"
    and "cp_pending (add_relay conn cid a p) = cp_pending p" and "cp_freed (add_relay conn cid a p) = filter (\<lambda>x. x \<noteq> a) (cp_freed p)"
proof -
  have inv: "pool_inv p" and i: "cp_init_done p" using pool_reach_inv [OF r] by simp_all
  obtain p' where e: "pool_step quiet_env (create_op conn cid a) p = Some p'"
    using create_inv [OF quiet_env_simps(1) inv i a] unfolding create_op_def by (metis option.simps(9) pool_step.simps(2) split_conv)
  have ar: "add_relay conn cid a p = p'" by (simp add: add_relay_def e)
  show "pool_reach (add_relay conn cid a p)"
    unfolding ar by (rule pool_next [OF r quiet_env_simps(1) _ _ _ e]) (use a in \<open>simp_all add: create_op_def\<close>)
  let ?t = "snd (circ_ht_insert conn cid a (cp_ht p))"
  have "\<not> CREATE_RATE_LIMIT < cw_count (create_window_step 100 \<lparr> cw_start = 100, cw_count = 0 \<rparr>)"
    by (simp add: create_window_step_def CREATE_RATE_WINDOW_def CREATE_RATE_LIMIT_def Let_def)
  then have p': "cp_circuits p' = cp_circuits p @ [a] \<and> cp_mem p' = (cp_mem p)(a := created_circ conn cid) \<and> cp_ht p' = ?t \<and>
      cp_pending p' = cp_pending p \<and> cp_freed p' = filter (\<lambda>x. x \<noteq> a) (cp_freed p)"
    using e i f k(1,2) unfolding create_op_def
    by (auto simp: moor_relay_handle_create_def moor_circuit_alloc_def circ_array_add_def circ_register_unlocked_def circ_init_relay init_links Let_def)
  then show "cp_circuits (add_relay conn cid a p) = cp_circuits p @ [a]"
    "cp_mem (add_relay conn cid a p) = (cp_mem p)(a := created_circ conn cid)"
    "cp_pending (add_relay conn cid a p) = cp_pending p" "cp_freed (add_relay conn cid a p) = filter (\<lambda>x. x \<noteq> a) (cp_freed p)"
    by (simp_all add: ar)
  show "ht_abs (cp_ht (add_relay conn cid a p)) = (ht_abs (cp_ht p))((conn, cid) \<mapsto> a)"
    using p' ht_insert_any [OF pool_invD(1) [OF inv], of conn cid a] k by (simp add: ar bounded_insert_def)
qed

lemma empty_pool_simps [simp]:
  "cp_init_done empty_pool" "cp_circuits empty_pool = []" "cp_pending empty_pool = []" "cp_freed empty_pool = []"
  "cp_ht empty_pool = replicate CIRC_HT_SIZE None"
  by (simp_all add: empty_pool_def)

lemma ht_abs_empty: "ht_abs (replicate CIRC_HT_SIZE None) = (\<lambda>_. None)"
  using ht_abs_entry [OF ht_inv_empty] by fastforce

lemma ht_small: "n < 16 \<Longrightarrow> n < CIRC_HT_SIZE"
  by (simp add: CIRC_HT_SIZE_def)

lemma find_miss:
  assumes "ht_abs (cp_ht p) (conn, cid) = None"
    and "\<forall>c \<in> set (cp_circuits p). \<not> find_scan_hit cid conn (cp_mem p c)"
  shows "moor_circuit_find cid conn p = None"
  using assms by (simp add: moor_circuit_find_def ht_abs_def find_None_iff)

lemma find_hit:
  assumes "ht_abs (cp_ht p) (conn, cid) = Some c" and "pc_marked_for_close (cp_mem p c) = 0"
  shows "moor_circuit_find cid conn p = Some c"
  using assms by (simp add: moor_circuit_find_def ht_abs_def)

text \<open>One circuit, made by a CREATE cell on connection 64.\<close>

definition relay1 :: circ_pool where
  "relay1 = add_relay 64 5 7 empty_pool"

lemma relay1_facts:
  "pool_reach relay1" "cp_circuits relay1 = [7]" "cp_mem relay1 7 = created_circ 64 5" "cp_pending relay1 = []" "cp_freed relay1 = []"
  "ht_abs (cp_ht relay1) = [(64, 5) \<mapsto> 7]"
proof -
  have "moor_circuit_find 5 64 empty_pool = None" by (rule find_miss) (simp_all add: ht_abs_empty)
  note f = add_relay_facts [OF pool_start, of 7 5 64, OF _ this]
  show "pool_reach relay1" "cp_circuits relay1 = [7]" "cp_mem relay1 7 = created_circ 64 5" "cp_pending relay1 = []" "cp_freed relay1 = []"
    "ht_abs (cp_ht relay1) = [(64, 5) \<mapsto> 7]"
    unfolding relay1_def using f by (simp_all add: ht_abs_empty ht_small)
qed

text \<open>The circuit is destroyed; the deferred close has not run yet.\<close>

definition relay1_marked :: circ_pool where
  "relay1_marked = snd (moor_circuit_destroy quiet_env 7 relay1)"

lemma relay1_marked_facts:
  "pool_reach relay1_marked" "cp_pending relay1_marked = [7]" "cp_freed relay1_marked = []"
  "cp_mem relay1_marked 7 = (created_circ 64 5)\<lparr>pc_marked_for_close := 2162, pc_marked_for_close_reason := DESTROY_FINISHED\<rparr>"
proof -
  show "pool_reach relay1_marked"
    unfolding relay1_marked_def by (rule pool_next [OF relay1_facts(1), of quiet_env "Pool_destroy 7"]) (simp_all add: relay1_facts)
  show "cp_pending relay1_marked = [7]" "cp_freed relay1_marked = []"
    "cp_mem relay1_marked 7 = (created_circ 64 5)\<lparr>pc_marked_for_close := 2162, pc_marked_for_close_reason := DESTROY_FINISHED\<rparr>"
    by (simp_all add: relay1_marked_def moor_circuit_destroy_def moor_circuit_mark_for_close_def mark_flags_def
        pending_close_add_def relay1_facts Let_def, simp_all add: created_circ_def circ_init_fields_def zero_circ_def)
qed

theorem circuit_pool_no_dangling_witness:
  "\<exists>steps p. pool_run steps p \<and> moor_circuit_close_all_marked quiet_env True relay1_marked = Some p \<and> cp_freed p = [7] \<and>
    circ_ht_lookup 64 5 (cp_ht relay1) = Some 7 \<and> circ_ht_lookup 64 5 (cp_ht p) \<noteq> Some 7 \<and> moor_circuit_find 5 64 p \<noteq> Some 7"
proof -
  from close_all_inv [OF conjunct1 [OF pool_reach_inv [OF relay1_marked_facts(1)]], of quiet_env True] obtain p where
    p: "moor_circuit_close_all_marked quiet_env True relay1_marked = Some p" "cp_freed p = [7]"
    by (auto simp: relay1_marked_facts)
  have "pool_reach p"
    by (rule pool_next [OF relay1_marked_facts(1), of quiet_env "Pool_close_all True"]) (simp_all add: p)
  then obtain steps where s: "pool_run steps p" "\<forall>(q, op) \<in> set steps. \<not> overwrites_link op q \<and> \<not> joins_again op q"
    unfolding pool_reach_def by blast
  have "circ_ht_lookup 64 5 (cp_ht relay1) = Some 7" using fun_cong [OF relay1_facts(6), of "(64, 5)"] by (simp add: ht_abs_def)
  with circuit_pool_no_dangling [OF s] s(1) p show ?thesis by fastforce
qed

section \<open>DESTROY cells of the deferred close\<close>

definition link_view :: "pool_circ \<Rightarrow> u64 \<times> u32 \<times> u64 \<times> u32 \<times> u64 \<times> u32 \<times> u8" where
  "link_view r = (pc_conn r, pc_circuit_id r, pc_prev_conn r, pc_prev_circuit_id r, pc_next_conn r, pc_next_circuit_id r,
    pc_marked_for_close_reason r)"

text \<open>The cells that tell the neighbours of a circuit that it is gone, on the links that stay open.\<close>

definition destroy_cells :: "circ_env \<Rightarrow> pool_circ \<Rightarrow> circ_effect set" where
  "destroy_cells env r =
    {Send_cell conn (destroy_cell cid (pc_marked_for_close_reason r)) | conn cid. conn \<noteq> 0 \<and> (\<forall>tr. env_conn_open env tr conn) \<and>
      (conn, cid) \<in> {(pc_prev_conn r, pc_prev_circuit_id r), (pc_next_conn r, pc_next_circuit_id r), (pc_conn r, pc_circuit_id r)}}"

lemma destroy_cells_view: "link_view r = link_view r' \<Longrightarrow> destroy_cells env r = destroy_cells env r'"
  by (simp add: link_view_def destroy_cells_def)

lemma unregister_Some: "circ_unregister_unlocked c p = Some p' \<Longrightarrow> \<exists>t. p' = p\<lparr>cp_ht := t\<rparr>"
  by (cases p) (auto simp: circ_unregister_unlocked_def Let_def bind_eq_Some_conv split: if_splits)

lemma unlink_view [simp]: "link_view (cp_mem (unlink_partner c p) x) = link_view (cp_mem p x)"
  by (simp add: unlink_partner_def link_view_def Let_def split: option.split)

lemma cp_trace_simps [simp]: "cp_trace (unlink_partner c p) = cp_trace p"
  by (simp add: unlink_partner_def Let_def split: option.split)

lemma cleanup_trace:
  assumes "circ_cleanup_unlocked env c p = Some p'"
  shows "set (cp_trace p) \<subseteq> set (cp_trace p') \<and> (\<forall>x. x \<noteq> c \<longrightarrow> link_view (cp_mem p' x) = link_view (cp_mem p x))"
  using assms unfolding circ_cleanup_unlocked_def Let_def
  by (auto simp: bind_eq_Some_conv dest!: unregister_Some)

lemma send_destroy_trace:
  "set (cp_trace p) \<subseteq> set (cp_trace (send_destroy env conn d p))"
  "\<forall>tr. env_conn_open env tr conn \<Longrightarrow> conn \<noteq> 0 \<Longrightarrow> Send_cell conn d \<in> set (cp_trace (send_destroy env conn d p))"
  by (auto simp: send_destroy_def)

lemma close_streams_view [simp]: "link_view (cp_mem (close_streams c p) x) = link_view (cp_mem p x)"
  by (simp add: close_streams_def link_view_def Let_def)

lemma close_streams_trace: "set (cp_trace p) \<subseteq> set (cp_trace (close_streams c p))"
  by (auto simp: close_streams_def Let_def)

lemma close_one_trace:
  assumes "close_one env c p = Some p'" and "pc_marked_for_close (cp_mem p c) \<noteq> 0"
  shows "set (cp_trace p) \<union> destroy_cells env (cp_mem p c) \<subseteq> set (cp_trace p') \<and>
    (\<forall>x. x \<noteq> c \<longrightarrow> link_view (cp_mem p' x) = link_view (cp_mem p x))"
proof -
  let ?r = "cp_mem p c"
  let ?d = "\<lambda>cid. destroy_cell cid (pc_marked_for_close_reason ?r)"
  define p1 where "p1 = emit [Queue_flush c 0, Queue_flush c 1] p"
  define p2 where "p2 = send_destroy env (pc_prev_conn ?r) (?d (pc_prev_circuit_id ?r)) p1"
  define p3 where "p3 = send_destroy env (pc_next_conn ?r) (?d (pc_next_circuit_id ?r)) p2"
  define p4 where "p4 = send_destroy env (pc_conn ?r) (?d (pc_circuit_id ?r)) p3"
  define p5 where "p5 = close_streams c (emit [Exit_fds_cleanup c] p4)"
  obtain es where cu: "circ_cleanup_unlocked env c (emit es p5) = Some p'"
    using assms(1,2) by (simp add: close_one_def Let_def p1_def p2_def p3_def p4_def p5_def)
  have t1: "set (cp_trace p) \<subseteq> set (cp_trace p1)" by (simp add: p1_def) blast
  have t2: "set (cp_trace p1) \<subseteq> set (cp_trace p2)" unfolding p2_def by (rule send_destroy_trace(1))
  have t3: "set (cp_trace p2) \<subseteq> set (cp_trace p3)" unfolding p3_def by (rule send_destroy_trace(1))
  have t4: "set (cp_trace p3) \<subseteq> set (cp_trace p4)" unfolding p4_def by (rule send_destroy_trace(1))
  have t5: "set (cp_trace p4) \<subseteq> set (cp_trace p5)"
    unfolding p5_def using close_streams_trace [of "emit [Exit_fds_cleanup c] p4" c] by simp
  have t6: "set (cp_trace p5) \<subseteq> set (cp_trace p')" using cleanup_trace [OF cu] by simp
  have "destroy_cells env ?r \<subseteq> set (cp_trace p4)"
    using send_destroy_trace(2) [of env "pc_prev_conn ?r" "?d (pc_prev_circuit_id ?r)" p1]
      send_destroy_trace(2) [of env "pc_next_conn ?r" "?d (pc_next_circuit_id ?r)" p2]
      send_destroy_trace(2) [of env "pc_conn ?r" "?d (pc_circuit_id ?r)" p3] t3 t4
    unfolding p2_def [symmetric] p3_def [symmetric] p4_def [symmetric] by (auto simp: destroy_cells_def)
  then have "set (cp_trace p) \<union> destroy_cells env ?r \<subseteq> set (cp_trace p')" using t1 t2 t3 t4 t5 t6 by blast
  moreover have "link_view (cp_mem (emit es p5) x) = link_view (cp_mem p x)" for x
    by (simp add: p1_def p2_def p3_def p4_def p5_def)
  ultimately show ?thesis using cleanup_trace [OF cu] by simp
qed

lemma close_batch_trace:
  assumes "pool_inv p" and "cp_pending p = []" and "distinct cs"
    and "\<forall>c \<in> set cs. c \<in> set (cp_circuits p) \<and> pc_marked_for_close (cp_mem p c) \<noteq> 0"
    and "close_batch env cs p = Some p'"
  shows "set (cp_trace p) \<subseteq> set (cp_trace p') \<and> (\<forall>c \<in> set cs. destroy_cells env (cp_mem p c) \<subseteq> set (cp_trace p'))"
  using assms
proof (induction cs arbitrary: p)
  case (Cons c cs)
  have c: "c \<in> set (cp_circuits p)" "pc_marked_for_close (cp_mem p c) \<noteq> 0" using Cons.prems(4) by simp_all
  from close_one_cleaned [OF pool_invD(1) [OF Cons.prems(1)] c(2)] obtain p1 where
    p1: "close_one env c p = Some p1" "cleaned c p p1" by blast
  have np: "c \<notin> set (cp_pending p)" using Cons.prems(2) by simp
  have inv1: "pool_inv p1" using cleaned_inv [OF Cons.prems(1) p1(2) c(1) np] by simp
  have e: "cp_pending p1 = []" "cp_circuits p1 = cp_circuits p"
    and o: "\<And>x. x \<noteq> c \<Longrightarrow> pc_marked_for_close (cp_mem p1 x) = pc_marked_for_close (cp_mem p x)"
    using p1(2) Cons.prems(2) by (auto simp: cleaned_def)
  note tr = close_one_trace [OF p1(1) c(2)]
  have "\<forall>x \<in> set cs. x \<in> set (cp_circuits p1) \<and> pc_marked_for_close (cp_mem p1 x) \<noteq> 0"
    using Cons.prems(3,4) o e(2) by (metis distinct.simps(2) list.set_intros(2))
  moreover have "close_batch env cs p1 = Some p'" using Cons.prems(5) p1(1) by simp
  ultimately have ih: "set (cp_trace p1) \<subseteq> set (cp_trace p')" "\<forall>x \<in> set cs. destroy_cells env (cp_mem p1 x) \<subseteq> set (cp_trace p')"
    using Cons.IH [OF inv1 e(1) _] Cons.prems(3) by simp_all
  have "destroy_cells env (cp_mem p x) = destroy_cells env (cp_mem p1 x)" if "x \<in> set cs" for x
    using tr that Cons.prems(3) by (intro destroy_cells_view) auto
  then show ?case using ih tr by auto
qed simp

text \<open>
  C20. The deferred close processes the whole pending list. In any run without overwritten links
  and repeated joins, every circuit in the list is freed, exactly once, and leaves the tracking
  array and the hash table; on each of its links whose connection stays open meanwhile a DESTROY
  cell with the recorded reason goes out; and the list is empty afterwards.
\<close>

theorem close_all_marked_closes:
  assumes "pool_run steps p" and "\<forall>(q, op) \<in> set steps. \<not> overwrites_link op q \<and> \<not> joins_again op q"
  shows "\<exists>p'. moor_circuit_close_all_marked env True p = Some p' \<and> cp_pending p' = [] \<and>
    cp_freed p' = cp_freed p @ cp_pending p \<and> distinct (cp_pending p) \<and> set (cp_pending p) \<inter> set (cp_freed p) = {} \<and>
    set (cp_circuits p') = set (cp_circuits p) - set (cp_pending p) \<and>
    (\<forall>conn cid c. circ_ht_lookup conn cid (cp_ht p') = Some c \<longrightarrow> c \<notin> set (cp_pending p)) \<and>
    (\<forall>c \<in> set (cp_pending p). destroy_cells env (cp_mem p c) \<subseteq> set (cp_trace p'))"
proof -
  have inv: "pool_inv p" using pool_run_inv [OF assms] by simp
  from close_all_inv [OF inv, of env True] obtain p' where
    p': "moor_circuit_close_all_marked env True p = Some p'" "pool_inv p'" "cp_pending p' = []"
    "cp_freed p' = cp_freed p @ cp_pending p" "set (cp_circuits p') = set (cp_circuits p) - set (cp_pending p)" by auto
  have "c \<notin> set (cp_pending p)" if "circ_ht_lookup conn cid (cp_ht p') = Some c" for conn cid c
    using pool_inv_tableD(1) [OF p'(2), of "(conn, cid)" c] that p'(5) by (simp add: ht_abs_def)
  moreover have "destroy_cells env (cp_mem p c) \<subseteq> set (cp_trace p')" if c: "c \<in> set (cp_pending p)" for c
  proof -
    let ?q = "p\<lparr>cp_pending := []\<rparr>"
    have m: "\<forall>c \<in> set (cp_pending p). c \<in> set (cp_circuits ?q) \<and> pc_marked_for_close (cp_mem ?q c) \<noteq> 0"
      using pool_inv_pendingD [OF inv] by simp
    note iq = pending_clear_inv [OF inv] and dp = pool_invD(4) [OF inv]
    from close_batch_inv [OF iq _ dp m, of env] obtain q where
      q: "close_batch env (cp_pending p) ?q = Some q" "pool_inv q" "\<forall>c \<in> set (cp_pending p). detached q c" by auto
    have "cp_pending p \<noteq> []" using c by auto
    then have "p' = release_batch (cp_pending p) q" using p'(1) q(1) by (simp add: moor_circuit_close_all_marked_def)
    then have "cp_trace p' = cp_trace q" using release_batch_inv [OF q(2,3) dp] by simp
    with close_batch_trace [OF iq _ dp m q(1)] c show ?thesis by simp
  qed
  ultimately show ?thesis using p' pool_invD(3,4) [OF inv] pool_inv_pendingD(1) [OF inv] by blast
qed

theorem close_all_marked_closes_witness:
  "\<exists>p'. moor_circuit_close_all_marked quiet_env True relay1_marked = Some p' \<and> cp_freed p' = [7] \<and> cp_circuits p' = [] \<and>
    Send_cell 64 (destroy_cell 5 DESTROY_FINISHED) \<in> set (cp_trace p')"
proof -
  from relay1_marked_facts(1) obtain steps where
    s: "pool_run steps relay1_marked" "\<forall>(q, op) \<in> set steps. \<not> overwrites_link op q \<and> \<not> joins_again op q"
    unfolding pool_reach_def by blast
  have "Send_cell 64 (destroy_cell 5 DESTROY_FINISHED) \<in> destroy_cells quiet_env (cp_mem relay1_marked 7)"
    by (simp add: destroy_cells_def relay1_marked_facts)
  moreover have "cp_circuits relay1_marked = [7]" by (simp add: relay1_marked_def destroy_frame relay1_facts)
  ultimately show ?thesis
    using close_all_marked_closes [OF s, of quiet_env] relay1_marked_facts(2,3) by auto
qed

text \<open>
  C31. When no relay circuit is idle, \<open>moor_circuit_oom_kill\<close> reports that it has killed as many
  circuits as asked, but the only circuits it marks for close are the oldest relay circuit
  and its rendezvous partner: a marked circuit keeps its id, so every round of the second
  pass finds the same one.
\<close>

theorem oom_kill_marks_one:
  assumes inv: "pool_reach p" and w: "\<not> env_worker env" and n: "0 < target"
    and busy: "\<forall>c \<in> set (cp_circuits p). pc_circuit_id (cp_mem p c) = 0 \<or> pc_is_client (cp_mem p c) \<or>
      env_now env < pc_last_cell_time (cp_mem p c) \<or> env_now env - pc_last_cell_time (cp_mem p c) < MOOR_OOM_IDLE_SECS"
    and old: "oldest_relay_circ p = Some c"
  shows "fst (moor_circuit_oom_kill env target p) = target \<and>
    (\<forall>x. x \<noteq> c \<and> pc_rp_partner (cp_mem p c) \<noteq> Some x \<longrightarrow>
      cp_mem (snd (moor_circuit_oom_kill env target p)) x = cp_mem p x)"
proof -
  have pi: "pool_inv p" "cp_init_done p" using pool_reach_inv [OF inv] by simp_all
  note c = oldest_tracked [OF old] and l = oldest_live [OF old]
  obtain m where m: "nat target = Suc m" using n by (metis gr0_implies_Suc zero_less_nat_eq)
  define p1 where "p1 = emit [Socks5_invalidate c] (send_destroy env (pc_conn (cp_mem p c)) (moor_cell_destroy (pc_circuit_id (cp_mem p c))) p)"
  define p2 where "p2 = snd (moor_circuit_destroy env c p1)"
  have e: "moor_circuit_oom_kill env target p = oom_pass2 env m 1 p2"
    using n pi(2) m old by (simp add: moor_circuit_oom_kill_def oom_pass1_none [OF busy] p1_def p2_def Let_def)
  have p2: "p2 = moor_circuit_mark_for_close env c DESTROY_FINISHED 2162 p1"
    using w l by (simp add: p2_def moor_circuit_destroy_def p1_def)
  have "oldest_relay_circ p2 = oldest_relay_circ p1" unfolding p2 by (rule oldest_cong) (simp_all add: mark_search_fields)
  also have "\<dots> = Some c" using old by (subst oldest_cong [of p1 p]) (simp_all add: p1_def)
  finally have o2: "oldest_relay_circ p2 = Some c" .
  have "pool_inv p1" "c \<in> set (cp_circuits p1)" using pi c by (simp_all add: p1_def)
  note mm = mark_mem(3) [OF this line_ok_examples(1), of env DESTROY_FINISHED c]
  have "pc_marked_for_close (cp_mem p2 c) \<noteq> 0"
    unfolding p2 mm using line_ok_nonzero [OF line_ok_examples(1)] l by (auto simp: mark_target_def p1_def)
  note om = oom_pass2_marked [OF o2 this w, of m 1]
  have "cp_mem p2 x = cp_mem p x" if "x \<noteq> c" "pc_rp_partner (cp_mem p c) \<noteq> Some x" for x
    using that by (auto simp: p2 p1_def moor_circuit_mark_for_close_def mark_single_def mark_flags_def Let_def split: option.splits)
  then show ?thesis unfolding e using om m n by (auto simp: nat_eq_iff)
qed
text \<open>A pool with relay circuits at the given addresses, all busy at time 100.\<close>

definition busy_circ :: "u32 \<Rightarrow> pool_circ" where
  "busy_circ cid = (circ_init_fields 100 zero_circ)\<lparr>pc_circuit_id := cid\<rparr>"

definition add_busy :: "nat \<Rightarrow> circ_pool \<Rightarrow> circ_pool" where
  "add_busy a p = set_circ a (busy_circ (of_nat a)) (snd (moor_circuit_alloc quiet_env True True a p))"

lemma busy_circ_simps [simp]:
  "pc_circuit_id (busy_circ cid) = cid" "pc_marked_for_close (busy_circ cid) = 0" "pc_rp_partner (busy_circ cid) = None"
  "pc_is_client (busy_circ cid) = False" "pc_last_cell_time (busy_circ cid) = 100" "pc_created_at (busy_circ cid) = 100"
  "pc_conn (busy_circ cid) = 0" "pc_prev_conn (busy_circ cid) = 0" "pc_next_conn (busy_circ cid) = 0" "circ_keys (busy_circ cid) = {}"
  by (auto simp: busy_circ_def circ_init_fields_def zero_circ_def circ_keys_def)

lemma add_busy_simps:
  assumes "cp_init_done p"
  shows "cp_circuits (add_busy a p) = cp_circuits p @ [a]" "cp_mem (add_busy a p) = (cp_mem p)(a := busy_circ (of_nat a))"
    "cp_init_done (add_busy a p)" "cp_pending (add_busy a p) = cp_pending p" "cp_ht (add_busy a p) = cp_ht p"
    "cp_freed (add_busy a p) = filter (\<lambda>x. x \<noteq> a) (cp_freed p)"
  using assms by (simp_all add: add_busy_def moor_circuit_alloc_def circ_array_add_def circ_register_unlocked_def quiet_env_def Let_def)

lemma add_busy_reach:
  assumes "pool_reach p" and "a \<notin> set (cp_circuits p)"
  shows "pool_reach (add_busy a p)"
proof -
  let ?q = "snd (moor_circuit_alloc quiet_env True True a p)"
  have w: "\<not> env_worker quiet_env" by (simp add: quiet_env_def)
  have i: "cp_init_done p" using pool_reach_inv [OF assms(1)] by simp
  have q: "pool_reach ?q" by (rule pool_next [OF assms(1) w, of "Pool_alloc True True a"]) (use assms(2) in simp_all)
  have f: "cp_circuits ?q = cp_circuits p @ [a]" "cp_mem ?q a = circ_init_fields 100 zero_circ"
    using i by (simp_all add: moor_circuit_alloc_def circ_array_add_def quiet_env_def Let_def)
  show ?thesis unfolding add_busy_def
    by (rule pool_next [OF q w, of "Pool_fields a (busy_circ (of_nat a))"])
      (use pool_reach_inv [OF q] in \<open>simp_all add: f fields_ok_def init_fields_blank keeps_keys_subset\<close>)
qed

lemma busy_pool2: "pool_reach (add_busy 12 (add_busy 11 empty_pool))"
  by (intro add_busy_reach pool_start) (simp_all add: add_busy_simps)

theorem oom_kill_marks_one_witness:
  "fst (moor_circuit_oom_kill quiet_env 2 (add_busy 12 (add_busy 11 empty_pool))) = 2 \<and>
    pc_marked_for_close (cp_mem (snd (moor_circuit_oom_kill quiet_env 2 (add_busy 12 (add_busy 11 empty_pool)))) 12) = 0"
proof -
  let ?p = "add_busy 12 (add_busy 11 empty_pool)"
  have c: "cp_circuits ?p = [11, 12]" "cp_mem ?p 11 = busy_circ 11" "cp_mem ?p 12 = busy_circ 12"
    by (simp_all add: add_busy_simps)
  have "oldest_relay_circ ?p = Some 11" by (simp add: oldest_relay_circ_def c)
  moreover have "\<not> env_worker quiet_env" "env_now quiet_env = 100" by (simp_all add: quiet_env_def)
  ultimately show ?thesis
    using oom_kill_marks_one [OF busy_pool2, of quiet_env 2 11] by (simp add: c MOOR_OOM_IDLE_SECS_def)
qed

section \<open>Closing circuits outside the invariant\<close>

text \<open>
  The deferred close on a pool whose table is sound and whose pending circuits have no partner;
  nothing is assumed about the links of other circuits.
\<close>

lemma close_batch_unpartnered:
  assumes "ht_inv (cp_ht p)" and "distinct cs"
    and "\<forall>x \<in> set cs. pc_marked_for_close (cp_mem p x) \<noteq> 0 \<and> pc_rp_partner (cp_mem p x) = None"
  shows "\<exists>p'. close_batch env cs p = Some p' \<and> cp_circuits p' = cp_circuits p \<and> cp_freed p' = cp_freed p \<and>
    (\<forall>x \<in> set cs. pc_circuit_id (cp_mem p' x) = 0 \<and> pc_marked_for_close (cp_mem p' x) = 0) \<and>
    (\<forall>x. x \<notin> set cs \<longrightarrow> pc_circuit_id (cp_mem p' x) = pc_circuit_id (cp_mem p x) \<and>
      pc_marked_for_close (cp_mem p' x) = pc_marked_for_close (cp_mem p x) \<and>
      pc_rp_partner (cp_mem p' x) = pc_rp_partner (cp_mem p x))"
  using assms
proof (induction cs arbitrary: p)
  case (Cons c cs)
  have c: "pc_marked_for_close (cp_mem p c) \<noteq> 0" "pc_rp_partner (cp_mem p c) = None" using Cons.prems(3) by simp_all
  from close_one_cleaned [OF Cons.prems(1) c(1)] obtain p1 where p1: "close_one env c p = Some p1" "cleaned c p p1" by blast
  have e: "ht_inv (cp_ht p1)" "cp_circuits p1 = cp_circuits p" "cp_freed p1 = cp_freed p"
    and o: "\<And>x. x \<noteq> c \<Longrightarrow> pc_circuit_id (cp_mem p1 x) = pc_circuit_id (cp_mem p x)"
      "\<And>x. x \<noteq> c \<Longrightarrow> pc_marked_for_close (cp_mem p1 x) = pc_marked_for_close (cp_mem p x)"
      "\<And>x. x \<noteq> c \<Longrightarrow> pc_rp_partner (cp_mem p1 x) = pc_rp_partner (cp_mem p x)"
    and z: "pc_circuit_id (cp_mem p1 c) = 0" "pc_marked_for_close (cp_mem p1 c) = 0"
    using p1(2) c(2) by (simp_all add: cleaned_def table_sub_def)
  have n: "c \<notin> set cs" "distinct cs" using Cons.prems(2) by simp_all
  then have "\<forall>x \<in> set cs. pc_marked_for_close (cp_mem p1 x) \<noteq> 0 \<and> pc_rp_partner (cp_mem p1 x) = None"
    using Cons.prems(3) o(2,3) by (metis list.set_intros(2))
  from Cons.IH [OF e(1) n(2) this] obtain p' where
    p': "close_batch env cs p1 = Some p'" "cp_circuits p' = cp_circuits p1" "cp_freed p' = cp_freed p1"
    "\<And>x. x \<in> set cs \<Longrightarrow> pc_circuit_id (cp_mem p' x) = 0 \<and> pc_marked_for_close (cp_mem p' x) = 0"
    "\<And>x. x \<notin> set cs \<Longrightarrow> pc_circuit_id (cp_mem p' x) = pc_circuit_id (cp_mem p1 x) \<and>
      pc_marked_for_close (cp_mem p' x) = pc_marked_for_close (cp_mem p1 x) \<and>
      pc_rp_partner (cp_mem p' x) = pc_rp_partner (cp_mem p1 x)" by blast
  show ?case
  proof (intro exI conjI ballI allI impI)
    show "close_batch env (c # cs) p = Some p'" using p1(1) p'(1) by simp
    show "cp_circuits p' = cp_circuits p" "cp_freed p' = cp_freed p" using p'(2,3) e by simp_all
  next
    fix x assume "x \<in> set (c # cs)"
    then show "pc_circuit_id (cp_mem p' x) = 0" "pc_marked_for_close (cp_mem p' x) = 0"
      using p'(4) [of x] p'(5) [of c] n(1) z by (cases "x = c"; simp)+
  next
    fix x assume "x \<notin> set (c # cs)"
    then show "pc_circuit_id (cp_mem p' x) = pc_circuit_id (cp_mem p x)"
      "pc_marked_for_close (cp_mem p' x) = pc_marked_for_close (cp_mem p x)"
      "pc_rp_partner (cp_mem p' x) = pc_rp_partner (cp_mem p x)" using p'(5) [of x] o [of x] by simp_all
  qed
qed simp

lemma release_batch_plain:
  assumes "distinct (cp_circuits p)" and "\<forall>x \<in> set cs. pc_circuit_id (cp_mem p x) = 0"
  shows "cp_freed (release_batch cs p) = cp_freed p @ cs \<and> set (cp_circuits (release_batch cs p)) = set (cp_circuits p) - set cs \<and>
    cp_mem (release_batch cs p) = cp_mem p \<and> cp_ht (release_batch cs p) = cp_ht p"
  using assms
proof (induction cs arbitrary: p)
  case (Cons c cs)
  have "distinct (cp_circuits (circ_release_unlocked c p))" using array_remove_set(2) [OF Cons.prems(1)] by simp
  from Cons.IH [OF this] Cons.prems array_remove_set(1) [OF Cons.prems(1), of c] show ?case by auto
qed simp

lemma close_all_unpartnered:
  assumes "ht_inv (cp_ht p)" and "distinct (cp_circuits p)" and "distinct (cp_pending p)" and "cp_pending p \<noteq> []"
    and "\<forall>x \<in> set (cp_pending p). pc_marked_for_close (cp_mem p x) \<noteq> 0 \<and> pc_rp_partner (cp_mem p x) = None"
  shows "\<exists>p'. moor_circuit_close_all_marked env True p = Some p' \<and> cp_freed p' = cp_freed p @ cp_pending p \<and>
    set (cp_circuits p') = set (cp_circuits p) - set (cp_pending p) \<and>
    (\<forall>x. x \<notin> set (cp_pending p) \<longrightarrow> pc_rp_partner (cp_mem p' x) = pc_rp_partner (cp_mem p x))"
proof -
  let ?q = "p\<lparr>cp_pending := []\<rparr>"
  from close_batch_unpartnered [of ?q "cp_pending p" env] assms(1,3,5) obtain q where
    q: "close_batch env (cp_pending p) ?q = Some q" "cp_circuits q = cp_circuits p" "cp_freed q = cp_freed p"
    "\<forall>x \<in> set (cp_pending p). pc_circuit_id (cp_mem q x) = 0"
    "\<forall>x. x \<notin> set (cp_pending p) \<longrightarrow> pc_rp_partner (cp_mem q x) = pc_rp_partner (cp_mem p x)" by auto
  have "distinct (cp_circuits q)" using assms(2) q(2) by simp
  from release_batch_plain [OF this q(4)] q assms(4) show ?thesis by (simp add: moor_circuit_close_all_marked_def)
qed

text \<open>
  C33. A circuit can be joined twice. Let a client's circuit be joined with the circuit \<open>a\<close> of a
  service in any pool reached so far, and let a RENDEZVOUS1 cell on another live circuit \<open>b\<close> carry
  a second valid cookie of the same client. The handler checks the cookie, the circuit stored
  with it and its connection, but not the partner it already has, and overwrites the link. Once
  the client's circuit is destroyed and the deferred close has run, \<open>a\<close> is still tracked,
  not freed, and its partner link points to the freed circuit of the client.
\<close>

theorem second_join_dangles:
  assumes "pool_reach p" and w: "\<not> env_worker env" and g: "\<forall>xs. env_grow env xs"
    and a: "a \<in> set (cp_circuits p)" "pc_rp_partner (cp_mem p a) = Some client"
    and ci: "pc_circuit_id (cp_mem p client) \<noteq> 0"
    and b: "b \<in> set (cp_circuits p)" "pc_rp_partner (cp_mem p b) = None" "pc_marked_for_close (cp_mem p b) = 0"
      "pc_circuit_id (cp_mem p b) \<noteq> 0"
    and rc: "rendezvous_client data tab p = Some client"
    and rv: "relay_rendezvous1 env seal data b tab p = (True, tab', p1)"
  shows "\<exists>p2. moor_circuit_close_all_marked env True (snd (moor_circuit_destroy env client p1)) = Some p2 \<and>
    a \<in> set (cp_circuits p2) \<and> a \<notin> set (cp_freed p2) \<and>
    pc_rp_partner (cp_mem p2 a) = Some client \<and> client \<in> set (cp_freed p2)"
proof -
  have inv: "pool_inv p" using pool_reach_inv [OF assms(1)] by simp
  note pa = pool_inv_partnerD [OF inv a]
  have mc: "pc_marked_for_close (cp_mem p client) = 0" using pool_inv_partnerD(4) [OF inv pa(1,3)] .
  have ne: "b \<noteq> a" "b \<noteq> client" "client \<noteq> a" using a b pa by auto
  obtain es where p1: "p1 = emit es (rendezvous_join b client p)"
    using rv rc by (auto simp: relay_rendezvous1_def Let_def split: if_splits option.splits)
  define q where "q = snd (moor_circuit_destroy env client p1)"
  have m1: "cp_mem p1 = (cp_mem p)(b := (cp_mem p b)\<lparr>pc_rp_partner := Some client\<rparr>, client := (cp_mem p client)\<lparr>pc_rp_partner := Some b\<rparr>)"
    and f1: "cp_circuits p1 = cp_circuits p" "cp_pending p1 = cp_pending p" "cp_ht p1 = cp_ht p" "cp_freed p1 = cp_freed p"
    using ne by (simp_all add: p1 rendezvous_join_def Let_def)
  have q: "cp_circuits q = cp_circuits p" "cp_ht q = cp_ht p" "cp_freed q = cp_freed p" "cp_pending q = cp_pending p @ [b, client]"
    "\<And>x. x \<noteq> b \<Longrightarrow> x \<noteq> client \<Longrightarrow> cp_mem q x = cp_mem p x"
    "\<And>x. x \<in> {b, client} \<Longrightarrow> pc_marked_for_close (cp_mem q x) \<noteq> 0 \<and> pc_rp_partner (cp_mem q x) = None"
    using w g ci mc ne b line_ok_nonzero [OF line_ok_examples(1)]
    by (auto simp: q_def moor_circuit_destroy_def moor_circuit_mark_for_close_def mark_single_def mark_flags_def pending_close_add_def
        f1 m1 Let_def)
  have un: "x \<notin> set (cp_pending p)" if "pc_marked_for_close (cp_mem p x) = 0" for x
    using pool_inv_pendingD(3) [OF inv] that by blast
  have pend: "pc_marked_for_close (cp_mem q x) \<noteq> 0 \<and> pc_rp_partner (cp_mem q x) = None" if "x \<in> set (cp_pending p)" for x
  proof -
    have "x \<noteq> b" "x \<noteq> client" using that un [OF b(3)] un [OF mc] by auto
    then show ?thesis using q(5) pool_inv_pendingD [OF inv that] pool_inv_partnerD(4) [OF inv, of x] by (metis option.exhaust)
  qed
  have "\<forall>x \<in> set (cp_pending q). pc_marked_for_close (cp_mem q x) \<noteq> 0 \<and> pc_rp_partner (cp_mem q x) = None"
    unfolding q(4) using pend q(6) by auto
  moreover have "distinct (cp_pending q)" unfolding q(4) using pool_invD(4) [OF inv] un [OF b(3)] un [OF mc] ne by simp
  ultimately obtain p2 where p2: "moor_circuit_close_all_marked env True q = Some p2" "cp_freed p2 = cp_freed p @ cp_pending q"
    "set (cp_circuits p2) = set (cp_circuits p) - set (cp_pending q)" "pc_rp_partner (cp_mem p2 a) = pc_rp_partner (cp_mem q a)
      \<or> a \<in> set (cp_pending q)"
    using close_all_unpartnered [of q env] pool_invD(1,2) [OF inv] q(1-4) by auto
  have "a \<notin> set (cp_pending q)" unfolding q(4) using un [OF pa(4)] ne by simp
  with p2 q(4) q(5) [of a] a ne pool_invD(3) [OF inv] show ?thesis by (auto simp: q_def m1)
qed

text \<open>A relay with three circuits on connections 1 to 3.\<close>

definition relay3 :: circ_pool where
  "relay3 = add_relay 3 23 13 (add_relay 2 22 12 (add_relay 1 21 11 empty_pool))"

lemma relay3_facts:
  "pool_reach relay3" "cp_circuits relay3 = [11, 12, 13]" "cp_mem relay3 11 = created_circ 1 21" "cp_mem relay3 12 = created_circ 2 22"
  "cp_mem relay3 13 = created_circ 3 23" "ht_abs (cp_ht relay3) = [(1, 21) \<mapsto> 11, (2, 22) \<mapsto> 12, (3, 23) \<mapsto> 13]"
proof -
  define r1 where "r1 = add_relay 1 21 11 empty_pool"
  define r2 where "r2 = add_relay 2 22 12 r1"
  have "moor_circuit_find 21 1 empty_pool = None" by (rule find_miss) (simp_all add: ht_abs_empty)
  note f1 = add_relay_facts [OF pool_start, of 11 21 1, OF _ this, folded r1_def]
  have r1: "pool_reach r1" "cp_circuits r1 = [11]" "cp_mem r1 11 = created_circ 1 21" "ht_abs (cp_ht r1) = [(1, 21) \<mapsto> 11]"
    using f1 by (simp_all add: ht_abs_empty ht_small)
  have "moor_circuit_find 22 2 r1 = None" by (rule find_miss) (simp_all add: r1 find_scan_hit_def uses_conn_def)
  note f2 = add_relay_facts [OF r1(1), of 12 22 2, OF _ this, folded r2_def]
  have r2: "pool_reach r2" "cp_circuits r2 = [11, 12]" "cp_mem r2 11 = created_circ 1 21" "cp_mem r2 12 = created_circ 2 22"
    "ht_abs (cp_ht r2) = [(1, 21) \<mapsto> 11, (2, 22) \<mapsto> 12]"
    using f2 r1 by (simp_all add: ht_small)
  have "moor_circuit_find 23 3 r2 = None" by (rule find_miss) (simp_all add: r2 find_scan_hit_def uses_conn_def)
  note f3 = add_relay_facts [OF r2(1), of 13 23 3, OF _ this]
  show "pool_reach relay3" "cp_circuits relay3 = [11, 12, 13]" "cp_mem relay3 11 = created_circ 1 21" "cp_mem relay3 12 = created_circ 2 22"
    "cp_mem relay3 13 = created_circ 3 23" "ht_abs (cp_ht relay3) = [(1, 21) \<mapsto> 11, (2, 22) \<mapsto> 12, (3, 23) \<mapsto> 13]"
    unfolding relay3_def r1_def [symmetric] r2_def [symmetric] using f3 r2 by (simp_all add: ht_small)
qed

text \<open>The client of circuit 13 stores two cookies; the first is redeemed on circuit 11.\<close>

definition two_cookies :: "rp_cookie_entry list" where
  "two_cookies =
    (let tab1 = fst (snd (relay_establish_rendezvous (\<lambda>_ x. x) 100 (replicate 20 1) 13 g_rp_cookies relay3))
     in fst (snd (relay_establish_rendezvous (\<lambda>_ x. x) 100 (replicate 20 2) 13 tab1 relay3)))"

definition joined_relay :: "bool \<times> rp_cookie_entry list \<times> circ_pool" where
  "joined_relay = relay_rendezvous1 quiet_env (\<lambda>_ x. x) (replicate 84 1) 11 two_cookies relay3"

definition demo_cookie :: "byte \<Rightarrow> bool \<Rightarrow> rp_cookie_entry" where
  "demo_cookie b v = \<lparr> rc_cookie = replicate 20 b, rc_circ = Some 13, rc_circuit_id = 23, rc_conn = 3, rc_valid = v, rc_created_at = 100 \<rparr>"

lemma two_cookies_are: "\<exists>zs. two_cookies = demo_cookie 1 True # demo_cookie 2 True # zs"
proof -
  obtain z where z: "g_rp_cookies = z # z # replicate 62 z" "\<not> rc_valid z"
    by (simp add: g_rp_cookies_def MAX_RP_COOKIES_def numeral_eq_Suc)
  then show ?thesis
    by (simp add: two_cookies_def relay_establish_rendezvous_def z first_index_def relay3_facts demo_cookie_def
        MOOR_RENDEZVOUS_COOKIE_LEN_def RP_COOKIE_TTL_SECS_def Let_def)
qed

lemma client_found: "moor_circuit_find 23 3 relay3 = Some 13"
  by (rule find_hit) (simp_all add: relay3_facts)

lemma joined_facts:
  "fst joined_relay" "\<exists>zs. fst (snd joined_relay) = demo_cookie 1 False # demo_cookie 2 True # zs"
  "pool_reach (snd (snd joined_relay))" "cp_circuits (snd (snd joined_relay)) = [11, 12, 13]"
  "cp_mem (snd (snd joined_relay)) 11 = (created_circ 1 21)\<lparr>pc_rp_partner := Some 13\<rparr>"
  "cp_mem (snd (snd joined_relay)) 12 = created_circ 2 22"
  "cp_mem (snd (snd joined_relay)) 13 = (created_circ 3 23)\<lparr>pc_rp_partner := Some 11\<rparr>"
  "cp_ht (snd (snd joined_relay)) = cp_ht relay3"
proof -
  obtain zs where zs: "two_cookies = demo_cookie 1 True # demo_cookie 2 True # zs" using two_cookies_are by blast
  have fc: "find_cookie (replicate 84 1) two_cookies = Some 0"
    by (simp add: find_cookie_def zs first_index_def demo_cookie_def MOOR_RENDEZVOUS_COOKIE_LEN_def)
  have rc: "rendezvous_client (replicate 84 1) two_cookies relay3 = Some 13"
    by (simp add: rendezvous_client_def fc) (simp add: zs demo_cookie_def client_found)
  show "fst joined_relay" "\<exists>zs. fst (snd joined_relay) = demo_cookie 1 False # demo_cookie 2 True # zs"
    "cp_circuits (snd (snd joined_relay)) = [11, 12, 13]"
    "cp_mem (snd (snd joined_relay)) 11 = (created_circ 1 21)\<lparr>pc_rp_partner := Some 13\<rparr>"
    "cp_mem (snd (snd joined_relay)) 12 = created_circ 2 22"
    "cp_mem (snd (snd joined_relay)) 13 = (created_circ 3 23)\<lparr>pc_rp_partner := Some 11\<rparr>"
    "cp_ht (snd (snd joined_relay)) = cp_ht relay3"
    by (simp_all add: joined_relay_def relay_rendezvous1_def fc rc relay3_facts rendezvous_join_def MOOR_RENDEZVOUS_COOKIE_LEN_def Let_def,
        simp add: zs demo_cookie_def)
  show "pool_reach (snd (snd joined_relay))"
    by (rule pool_next [OF relay3_facts(1), of quiet_env "Pool_rendezvous1 (\<lambda>_ x. x) (replicate 84 1) 11 two_cookies"])
      (simp_all add: relay3_facts rc joined_relay_def)
qed

theorem second_join_dangles_witness:
  "\<exists>p1 p2. fst joined_relay \<and>
    snd (snd (relay_rendezvous1 quiet_env (\<lambda>_ x. x) (replicate 84 2) 12 (fst (snd joined_relay)) (snd (snd joined_relay)))) = p1 \<and>
    moor_circuit_close_all_marked quiet_env True (snd (moor_circuit_destroy quiet_env 13 p1)) = Some p2 \<and>
    11 \<in> set (cp_circuits p2) \<and> pc_rp_partner (cp_mem p2 11) = Some 13 \<and> 13 \<in> set (cp_freed p2)"
proof -
  let ?p = "snd (snd joined_relay)" and ?tab = "fst (snd joined_relay)"
  obtain zs where zs: "?tab = demo_cookie 1 False # demo_cookie 2 True # zs" using joined_facts(2) by blast
  have fc: "find_cookie (replicate 84 2) ?tab = Some 1"
    by (simp add: find_cookie_def zs first_index_def demo_cookie_def MOOR_RENDEZVOUS_COOKIE_LEN_def)
  have "moor_circuit_find 23 3 ?p = Some 13" by (rule find_hit) (simp_all add: joined_facts relay3_facts)
  then have rc: "rendezvous_client (replicate 84 2) ?tab ?p = Some 13"
    by (simp add: rendezvous_client_def fc) (simp add: zs demo_cookie_def)
  obtain tab' p1 where rv: "relay_rendezvous1 quiet_env (\<lambda>_ x. x) (replicate 84 2) 12 ?tab ?p = (True, tab', p1)"
    by (simp add: relay_rendezvous1_def fc rc joined_facts MOOR_RENDEZVOUS_COOKIE_LEN_def Let_def)
  from second_join_dangles [OF joined_facts(3) _ _ _ _ _ _ _ _ _ rc rv, of 11] rv show ?thesis
    by (auto simp: joined_facts)
qed

text \<open>Registering never replaces an entry; unregistering removes only the circuit's present keys.\<close>

lemma insert_keeps:
  "ht_inv t \<Longrightarrow> ht_abs t k = Some x \<Longrightarrow> ht_abs (if b then snd (circ_ht_insert conn cid c t) else t) k = Some x \<and>
    ht_inv (if b then snd (circ_ht_insert conn cid c t) else t)"
  using ht_insert_any [of t conn cid c] by (auto simp: bounded_insert_def)

lemma register_keeps:
  assumes "ht_inv (cp_ht p)" and "ht_abs (cp_ht p) k = Some x"
  shows "ht_inv (cp_ht (circ_register_unlocked c p)) \<and> ht_abs (cp_ht (circ_register_unlocked c p)) k = Some x"
proof -
  let ?r = "cp_mem p c"
  note k1 = insert_keeps [OF assms, of "pc_conn ?r \<noteq> 0" "pc_conn ?r" "pc_circuit_id ?r" c]
  note k2 = insert_keeps [OF conjunct2 [OF k1] conjunct1 [OF k1], of "pc_prev_conn ?r \<noteq> 0" "pc_prev_conn ?r" "pc_prev_circuit_id ?r" c]
  note k3 = insert_keeps [OF conjunct2 [OF k2] conjunct1 [OF k2], of "pc_next_conn ?r \<noteq> 0" "pc_next_conn ?r" "pc_next_circuit_id ?r" c]
  show ?thesis
  proof (cases "pc_circuit_id ?r = 0")
    case False
    then have "cp_ht (circ_register_unlocked c p) =
        (let t1 = (if pc_conn ?r \<noteq> 0 then snd (circ_ht_insert (pc_conn ?r) (pc_circuit_id ?r) c (cp_ht p)) else cp_ht p);
             t2 = (if pc_prev_conn ?r \<noteq> 0 then snd (circ_ht_insert (pc_prev_conn ?r) (pc_prev_circuit_id ?r) c t1) else t1)
         in if pc_next_conn ?r \<noteq> 0 then snd (circ_ht_insert (pc_next_conn ?r) (pc_next_circuit_id ?r) c t2) else t2)"
      by (simp add: circ_register_unlocked_def Let_def)
    then show ?thesis using k3 unfolding Let_def by (simp only:)
  qed (use assms in \<open>simp add: circ_register_unlocked_def\<close>)
qed

definition link_pairs :: "pool_circ \<Rightarrow> (u64 \<times> u32) set" where
  "link_pairs r = {(pc_conn r, pc_circuit_id r), (pc_prev_conn r, pc_prev_circuit_id r), (pc_next_conn r, pc_next_circuit_id r)}"

lemma remove_keeps:
  assumes "ht_inv t" and "(if b then circ_ht_remove conn cid t else Some t) = Some t'" and "k \<noteq> (conn, cid)"
  shows "ht_inv t' \<and> ht_abs t' k = ht_abs t k"
  using assms ht_remove [OF assms(1), of conn cid] by (auto split: if_splits)

lemma unregister_keeps:
  assumes "ht_inv (cp_ht p)" and "circ_unregister_unlocked c p = Some p'" and "k \<notin> link_pairs (cp_mem p c)"
  shows "ht_abs (cp_ht p') k = ht_abs (cp_ht p) k"
proof (cases "pc_circuit_id (cp_mem p c) = 0")
  case False
  let ?r = "cp_mem p c"
  have n: "k \<noteq> (pc_conn ?r, pc_circuit_id ?r)" "k \<noteq> (pc_prev_conn ?r, pc_prev_circuit_id ?r)" "k \<noteq> (pc_next_conn ?r, pc_next_circuit_id ?r)"
    using assms(3) by (simp_all add: link_pairs_def)
  from remove_if [OF assms(1)] obtain t1 where
    t1: "(if pc_conn ?r \<noteq> 0 then circ_ht_remove (pc_conn ?r) (pc_circuit_id ?r) (cp_ht p) else Some (cp_ht p)) = Some t1" by blast
  note r1 = remove_keeps [OF assms(1) t1 n(1)]
  from remove_if [OF conjunct1 [OF r1]] obtain t2 where
    t2: "(if pc_prev_conn ?r \<noteq> 0 then circ_ht_remove (pc_prev_conn ?r) (pc_prev_circuit_id ?r) t1 else Some t1) = Some t2" by blast
  note r2 = remove_keeps [OF conjunct1 [OF r1] t2 n(2)]
  from remove_if [OF conjunct1 [OF r2]] obtain t3 where
    t3: "(if pc_next_conn ?r \<noteq> 0 then circ_ht_remove (pc_next_conn ?r) (pc_next_circuit_id ?r) t2 else Some t2) = Some t3" by blast
  note r3 = remove_keeps [OF conjunct1 [OF r2] t3 n(3)]
  have "circ_unregister_unlocked c p = Some (p\<lparr>cp_ht := t3\<rparr>)"
    unfolding circ_unregister_unlocked_def Let_def if_not_P [OF False] t1 Option.bind.bind_lunit t2 t3 ..
  then have p': "p' = p\<lparr>cp_ht := t3\<rparr>" using assms(2) by simp
  show ?thesis using r1 r2 r3 p' by simp
qed (use assms in \<open>simp add: circ_unregister_unlocked_def\<close>)

lemma close_one_keeps:
  assumes "ht_inv (cp_ht p)" and "pc_marked_for_close (cp_mem p c) \<noteq> 0" and "close_one env c p = Some p'"
    and "k \<notin> link_pairs (cp_mem p c)"
  shows "ht_abs (cp_ht p') k = ht_abs (cp_ht p) k"
proof -
  from assms(2,3) obtain q where q: "circ_cleanup_unlocked env c q = Some p'" "cp_ht q = cp_ht p" "link_view (cp_mem q c) = link_view (cp_mem p c)"
    by (auto simp: close_one_def Let_def)
  then have "link_pairs (cp_mem q c) = link_pairs (cp_mem p c)" by (simp add: link_pairs_def link_view_def)
  moreover from q(1) obtain q1 where q1: "circ_unregister_unlocked c q = Some q1" "cp_ht p' = cp_ht q1"
    by (auto simp: circ_cleanup_unlocked_def Let_def bind_eq_Some_conv)
  ultimately show ?thesis using unregister_keeps [of q c q1 k] assms(1,4) q(2) by simp
qed

lemma extend_link_keeps:
  assumes "ht_inv (cp_ht p)" and "ht_abs (cp_ht p) k = Some x"
  shows "ht_inv (cp_ht (extend_link conn cell c p)) \<and> ht_abs (cp_ht (extend_link conn cell c p)) k = Some x"
  unfolding extend_link_def Let_def by (rule register_keeps) (use assms in simp_all)

text \<open>
  C32. A circuit can be extended twice. Let a relay circuit, in any pool reached so far, be
  registered for its next hop, and let a further EXTEND cell on it be accepted over another open
  channel: the handler refuses an extension only while one is pending. The new link replaces the
  old one in the circuit, but the table keeps the circuit under the old key as well, and
  unregistering removes only the present keys. Once the circuit is destroyed and the deferred
  close has run, \<open>moor_circuit_find\<close> answers the old next hop with the freed circuit.
\<close>

theorem second_extend_dangles:
  assumes "pool_reach p" and w: "\<not> env_worker env" and g: "\<forall>xs. env_grow env xs" and pe: "cp_pending p = []"
    and c: "c \<in> set (cp_circuits p)" "pc_circuit_id (cp_mem p c) \<noteq> 0" "pc_marked_for_close (cp_mem p c) = 0"
      "pc_rp_partner (cp_mem p c) = None"
    and old: "n = pc_next_conn (cp_mem p c)" "i = pc_next_circuit_id (cp_mem p c)" "circ_ht_lookup n i (cp_ht p) = Some c"
    and ex: "relay_extend xe early data c p = (True, p1)" and ch: "en_channel xe (take 32 (drop 66 data)) = Some m"
    and ne: "(n, i) \<noteq> (m, en_next_circ_id xe)" "(n, i) \<noteq> (pc_prev_conn (cp_mem p c), pc_prev_circuit_id (cp_mem p c))"
      "(n, i) \<noteq> (pc_conn (cp_mem p c), pc_circuit_id (cp_mem p c))"
  shows "\<exists>p2. moor_circuit_close_all_marked env True (snd (moor_circuit_destroy env c p1)) = Some p2 \<and>
    c \<in> set (cp_freed p2) \<and> c \<notin> set (cp_circuits p2) \<and> moor_circuit_find i n p2 = Some c"
proof -
  have inv: "pool_inv p" using pool_reach_inv [OF assms(1)] by simp
  let ?p0 = "set_circ c ((cp_mem p c)\<lparr>pc_relay_early_count := pc_relay_early_count (cp_mem p c) + 1\<rparr>) p"
  obtain cell where p1: "p1 = extend_link m cell c ?p0" and cell: "c_circuit_id cell = en_next_circ_id xe"
    using ex ch by (auto simp: relay_extend_def Let_def moor_cell_create_def split: if_splits)
  have t1: "ht_inv (cp_ht p1)" "ht_abs (cp_ht p1) (n, i) = Some c"
    using extend_link_keeps [of ?p0 "(n, i)" c m cell c] pool_invD(1) [OF inv] old(3) by (simp_all add: p1 ht_abs_def)
  define q where "q = snd (moor_circuit_destroy env c p1)"
  have f1: "cp_circuits p1 = cp_circuits p" "cp_pending p1 = []" "cp_freed p1 = cp_freed p"
    "pc_circuit_id (cp_mem p1 c) \<noteq> 0" "pc_marked_for_close (cp_mem p1 c) = 0" "pc_rp_partner (cp_mem p1 c) = None"
    "(n, i) \<notin> link_pairs (cp_mem p1 c)"
    using c pe ne cell by (simp_all add: p1 extend_link_def Let_def link_pairs_def)
  have q: "cp_circuits q = cp_circuits p" "cp_ht q = cp_ht p1" "cp_freed q = cp_freed p" "cp_pending q = [c]"
    "pc_marked_for_close (cp_mem q c) \<noteq> 0" "pc_rp_partner (cp_mem q c) = None" "(n, i) \<notin> link_pairs (cp_mem q c)"
    using w g f1 line_ok_nonzero [OF line_ok_examples(1)]
    by (simp_all add: q_def moor_circuit_destroy_def moor_circuit_mark_for_close_def mark_flags_def pending_close_add_def Let_def link_pairs_def)
  let ?q = "q\<lparr>cp_pending := []\<rparr>"
  from close_batch_unpartnered [of ?q "[c]" env] t1(1) q obtain q1 where
    q1: "close_batch env [c] ?q = Some q1" "cp_circuits q1 = cp_circuits p" "cp_freed q1 = cp_freed p"
    "pc_circuit_id (cp_mem q1 c) = 0" "pc_marked_for_close (cp_mem q1 c) = 0" by auto
  have "ht_abs (cp_ht q1) (n, i) = Some c"
    using close_one_keeps [of ?q c env q1 "(n, i)"] q1(1) q t1 by (auto simp: bind_eq_Some_conv)
  moreover have "distinct (cp_circuits q1)" using pool_invD(2) [OF inv] q1(2) by simp
  note rb = release_batch_plain [OF this, of "[c]"]
  ultimately have "moor_circuit_find i n (release_batch [c] q1) = Some c" using rb q1(4,5) by (intro find_hit) simp_all
  moreover have "moor_circuit_close_all_marked env True q = Some (release_batch [c] q1)"
    using q(4) q1(1) by (simp add: moor_circuit_close_all_marked_def)
  ultimately show ?thesis using rb q1(2,4) by (auto simp: q_def)
qed

text \<open>The circuit of \<open>relay1\<close> is extended over a channel on connection 65, and the extension is confirmed.\<close>

definition hop_env :: "u64 \<Rightarrow> u32 \<Rightarrow> extend_env" where
  "hop_env conn cid = \<lparr> en_identity_pk = replicate 32 1, en_consensus = \<lambda>_. None, en_channel = \<lambda>_. Some conn,
    en_next_circ_id = cid, en_sent = True, en_worker_starts = False \<rparr>"

definition hop_data :: bytes where
  "hop_data = 120 # replicate 129 0"

lemma hop_data_public: "\<not> is_private_address (extend_address (hop_env conn cid) hop_data)"
proof -
  have "extend_address (hop_env conn cid) hop_data = [120]" by (simp add: extend_address_def hop_data_def take_Cons')
  moreover have "\<not> is_private_address [120]" by code_simp
  ultimately show ?thesis by simp
qed

lemma extend_demo:
  assumes "pc_extend_pending (cp_mem p c) = False" and "pc_relay_early_count (cp_mem p c) < 8"
  shows "relay_extend (hop_env conn cid) True hop_data c p = (True, extend_link conn (moor_cell_create cid (replicate 32 0) (replicate 32 0)) c
    (set_circ c ((cp_mem p c)\<lparr>pc_relay_early_count := pc_relay_early_count (cp_mem p c) + 1\<rparr>) p))"
  using assms hop_data_public [of conn cid]
  by (simp add: relay_extend_def hop_env_def hop_data_def MOOR_MAX_RELAY_EARLY_def drop_Cons' not_le Let_def)

definition extended_relay :: circ_pool where
  "extended_relay = relay_created quiet_env (\<lambda>_ x. x) 65 \<lparr> c_circuit_id = 8, c_command = 2, c_payload = replicate 509 0 \<rparr>
    (snd (relay_extend (hop_env 65 8) True hop_data 7 relay1))"

lemma extended_facts:
  "pool_reach extended_relay" "cp_circuits extended_relay = [7]" "cp_pending extended_relay = []"
  "pc_extend_pending (cp_mem extended_relay 7) = False" "pc_relay_early_count (cp_mem extended_relay 7) = 1"
  "pc_circuit_id (cp_mem extended_relay 7) = 5" "pc_marked_for_close (cp_mem extended_relay 7) = 0"
  "pc_rp_partner (cp_mem extended_relay 7) = None" "pc_next_conn (cp_mem extended_relay 7) = 65"
  "pc_next_circuit_id (cp_mem extended_relay 7) = 8" "pc_prev_conn (cp_mem extended_relay 7) = 64" "pc_conn (cp_mem extended_relay 7) = 0"
  "circ_ht_lookup 65 8 (cp_ht extended_relay) = Some 7"
proof -
  define q where "q = snd (relay_extend (hop_env 65 8) True hop_data 7 relay1)"
  have eq: "q = extend_link 65 (moor_cell_create 8 (replicate 32 0) (replicate 32 0)) 7
      (set_circ 7 ((created_circ 64 5)\<lparr>pc_relay_early_count := 1\<rparr>) relay1)"
    by (simp add: q_def extend_demo relay1_facts)
  have q: "pool_reach q"
    unfolding q_def by (rule pool_next [OF relay1_facts(1), of quiet_env "Pool_extend (hop_env 65 8) True hop_data 7"])
      (simp_all add: relay1_facts)
  have m: "cp_mem q 7 = (created_circ 64 5)\<lparr>pc_relay_early_count := 1, pc_n_chan := True, pc_next_conn := 65, pc_next_circuit_id := 8,
      pc_extend_pending := True\<rparr>" "cp_circuits q = [7]" "cp_pending q = []"
    by (simp_all add: eq extend_link_def moor_cell_create_def relay1_facts Let_def)
  have "ht_inv (cp_ht relay1)" using pool_invD(1) pool_reach_inv [OF relay1_facts(1)] by blast
  note i1 = ht_insert_any [OF this, of 64 5 7]
  note i2 = ht_insert_any [OF conjunct1 [OF i1], of 65 8 7]
  have "cp_ht q = snd (circ_ht_insert 65 8 7 (snd (circ_ht_insert 64 5 7 (cp_ht relay1))))"
    by (simp add: eq extend_link_def circ_register_unlocked_def moor_cell_create_def Let_def)
  then have h: "ht_abs (cp_ht q) (65, 8) = Some 7" using i1 i2 by (simp add: bounded_insert_def relay1_facts ht_small not_le)
  have f: "moor_circuit_find 8 65 q = Some 7" by (rule find_hit) (simp_all add: h m)
  have er: "extended_relay = relay_created quiet_env (\<lambda>_ x. x) 65 \<lparr> c_circuit_id = 8, c_command = 2, c_payload = replicate 509 0 \<rparr> q"
    by (simp add: extended_relay_def q_def)
  show "pool_reach extended_relay"
    unfolding er by (rule pool_next [OF q, of quiet_env "Pool_created (\<lambda>_ x. x) 65 \<lparr> c_circuit_id = 8, c_command = 2, c_payload = replicate 509 0 \<rparr>"])
      simp_all
  show "cp_circuits extended_relay = [7]" "cp_pending extended_relay = []"
    "pc_extend_pending (cp_mem extended_relay 7) = False" "pc_relay_early_count (cp_mem extended_relay 7) = 1"
    "pc_circuit_id (cp_mem extended_relay 7) = 5" "pc_marked_for_close (cp_mem extended_relay 7) = 0"
    "pc_rp_partner (cp_mem extended_relay 7) = None" "pc_next_conn (cp_mem extended_relay 7) = 65"
    "pc_next_circuit_id (cp_mem extended_relay 7) = 8" "pc_prev_conn (cp_mem extended_relay 7) = 64" "pc_conn (cp_mem extended_relay 7) = 0"
    "circ_ht_lookup 65 8 (cp_ht extended_relay) = Some 7"
    using h by (simp_all add: er relay_created_def f m Let_def ht_abs_def)
qed

theorem second_extend_dangles_witness:
  "\<exists>p1 p2. relay_extend (hop_env 66 9) True hop_data 7 extended_relay = (True, p1) \<and>
    moor_circuit_close_all_marked quiet_env True (snd (moor_circuit_destroy quiet_env 7 p1)) = Some p2 \<and>
    7 \<in> set (cp_freed p2) \<and> moor_circuit_find 8 65 p2 = Some 7"
proof -
  obtain p1 where ex: "relay_extend (hop_env 66 9) True hop_data 7 extended_relay = (True, p1)"
    by (simp add: extend_demo extended_facts)
  have ch: "en_channel (hop_env 66 9) (take 32 (drop 66 hop_data)) = Some 66" by (simp add: hop_env_def)
  have ne: "(65 :: u64, 8) \<noteq> (66, en_next_circ_id (hop_env 66 9))"
    "(65, 8) \<noteq> (pc_prev_conn (cp_mem extended_relay 7), pc_prev_circuit_id (cp_mem extended_relay 7))"
    "(65, 8) \<noteq> (pc_conn (cp_mem extended_relay 7), pc_circuit_id (cp_mem extended_relay 7))"
    by (simp_all add: extended_facts)
  from second_extend_dangles [where env = quiet_env and n = 65 and i = 8, OF extended_facts(1) _ _ extended_facts(3) _ _ _ _ _ _ _ ex ch ne] ex
  show ?thesis by (auto simp: extended_facts)
qed

text \<open>
  C34. An introduction circuit whose service key begins with a zero byte is never found:
  \<open>moor_circuit_find_by_intro_pk\<close> takes a zero first byte for an unset key. Such a circuit stays
  unreachable although it is alive, unmarked and on an open connection.
\<close>

theorem intro_pk_zero_byte_lost:
  assumes "pk ! 0 = 0"
  shows "moor_circuit_find_by_intro_pk env exclude (Some pk) p = None"
  using assms by (auto simp: moor_circuit_find_by_intro_pk_def find_None_iff Let_def)

theorem intro_pk_zero_byte_lost_witness:
  "moor_circuit_find_by_intro_pk quiet_env None (Some (0 # replicate 31 7))
    (set_circ 11 ((busy_circ 11)\<lparr>pc_intro_service_pk := 0 # replicate 31 7, pc_prev_conn := 64\<rparr>) (add_busy 11 empty_pool)) = None"
  using intro_pk_zero_byte_lost [of "0 # replicate 31 7" quiet_env None] by simp

end
