(* ===== verification/ExitSafety.thy ===== *)
theory ExitSafety
  imports ExitRelay "HOL-Library.Multiset"
begin

text \<open>
  Properties of the exit end of a circuit: which addresses it connects to, that a stream
  opened by the client reaches the exit as asked, the accounting of the deliver window, the
  invariant of the stream and descriptor tables, and the errors found in the handlers.
\<close>
section \<open>Addresses\<close>

lemma mask28: "NOT (mask 28) = de32 240 0 0 0"
  by (simp add: de32_def mask_eq_exp_minus_1 not_eq_complement)

lemma byte_and_240: "(a :: byte) AND 240 = 224 \<longleftrightarrow> 224 \<le> a \<and> a \<le> 239" (is ?A) "a AND 240 = 240 \<longleftrightarrow> 240 \<le> a" (is ?B)
proof -
  have m: "(240 :: byte) = NOT (mask 4)" "(224 :: byte) AND NOT (mask 4) = 224" "(240 :: byte) AND NOT (mask 4) = 240"
    by (simp_all add: mask_eq_exp_minus_1 not_eq_complement)
  have u: "unat a \<le> 255" using unsigned_less [where 'b = 8 and 'a = nat, of a] by simp
  have "a AND 240 = 224 \<longleftrightarrow> drop_bit 4 a = drop_bit 4 224" using masked_eq_drop_bit [of a 4 224] m by simp
  also have "\<dots> \<longleftrightarrow> unat a div 16 = 14" by (simp add: word_unat_eq_iff drop_bit_eq_div unat_div)
  also have "\<dots> \<longleftrightarrow> 224 \<le> unat a \<and> unat a \<le> 239" by linarith
  finally show ?A by (simp add: word_le_nat_alt)
  have "a AND 240 = 240 \<longleftrightarrow> drop_bit 4 a = drop_bit 4 240" using masked_eq_drop_bit [of a 4 240] m by simp
  also have "\<dots> \<longleftrightarrow> unat a div 16 = 15" by (simp add: word_unat_eq_iff drop_bit_eq_div unat_div)
  also have "\<dots> \<longleftrightarrow> 240 \<le> unat a" using u by linarith
  finally show ?B by (simp add: word_le_nat_alt)
qed

lemma net_top:
  "drop_bit 24 (de32 a b c d) = drop_bit 24 (de32 x 0 0 0) \<longleftrightarrow> a = x"
  "drop_bit 16 (de32 a b c d) = drop_bit 16 (de32 x y 0 0) \<longleftrightarrow> a = x \<and> b = y"
  "drop_bit 20 (de32 a b c d) = drop_bit 20 (de32 x 16 0 0) \<longleftrightarrow> a = x \<and> 16 \<le> b \<and> b \<le> 31"
  "drop_bit 22 (de32 a b c d) = drop_bit 22 (de32 x 64 0 0) \<longleftrightarrow> a = x \<and> 64 \<le> b \<and> b \<le> 127"
  "drop_bit 28 (de32 a b c d) = drop_bit 28 (de32 224 0 0 0) \<longleftrightarrow> 224 \<le> a \<and> a \<le> 239"
  "drop_bit 28 (de32 a b c d) = drop_bit 28 (de32 240 0 0 0) \<longleftrightarrow> 240 \<le> a"
  by (simp_all flip: masked_eq_drop_bit add: net_masks mask28 de32_and de32_eq_iff byte_and_255 byte_ranges byte_and_240)

lemma net_consts:
  "(127 :: u32) = drop_bit 24 (de32 127 0 0 0)" "(10 :: u32) = drop_bit 24 (de32 10 0 0 0)" "(0 :: u32) = drop_bit 24 (de32 0 0 0 0)"
  "(2753 :: u32) = drop_bit 20 (de32 172 16 0 0)" "(49320 :: u32) = drop_bit 16 (de32 192 168 0 0)"
  "(43518 :: u32) = drop_bit 16 (de32 169 254 0 0)" "(401 :: u32) = drop_bit 22 (de32 100 64 0 0)"
  "(14 :: u32) = drop_bit 28 (de32 224 0 0 0)" "(15 :: u32) = drop_bit 28 (de32 240 0 0 0)"
  by (simp_all add: de32_def)

lemma private_ipv4_quad: "private_ipv4 (de32 a b c d) \<longleftrightarrow> private_quad a b \<or> 224 \<le> a"
  unfolding private_ipv4_def net_consts net_top private_quad_def by (auto simp: word_le_nat_alt)

lemma public_quad: "\<not> is_private_address (quad a b c d) \<Longrightarrow> \<not> private_quad a b \<and> a < 224"
  by (simp add: is_private_address_def inet_pton4_quad ntohl_quad private_ipv4_quad not_le)

section \<open>What the senders leave alone\<close>

fun is_connect :: "exit_effect \<Rightarrow> bool" where
  "is_connect (Fd_Connect fd a p) = True"
| "is_connect e = False"

definition connects :: "exit_state \<Rightarrow> exit_effect list" where
  "connects st = filter is_connect (xs_effects st)"

lemma effect_simps [simp]:
  "xs_circ (effect e st) = xs_circ st" "xs_relay (effect e st) = xs_relay st" "xs_prev_conn (effect e st) = xs_prev_conn st"
  "xs_prev_open (effect e st) = xs_prev_open st" "xs_exit_fds (effect e st) = xs_exit_fds st" "xs_dns (effect e st) = xs_dns st"
  "xs_effects (effect e st) = xs_effects st @ [e]" "xs_prev_circuit_id (effect e st) = xs_prev_circuit_id st"
  "xs_auth_cells_sent (effect e st) = xs_auth_cells_sent st"
  by (simp_all add: effect_def)

lemma set_stream_simps [simp]:
  "xs_streams (set_stream i s st) = (xs_streams st)[i := s]" "xs_relay (set_stream i s st) = xs_relay st"
  "xs_prev_conn (set_stream i s st) = xs_prev_conn st" "xs_prev_open (set_stream i s st) = xs_prev_open st"
  "xs_exit_fds (set_stream i s st) = xs_exit_fds st" "xs_effects (set_stream i s st) = xs_effects st"
  "fc_circ_deliver_window (xs_circ (set_stream i s st)) = fc_circ_deliver_window (xs_circ st)"
  "fc_circ_package_window (xs_circ (set_stream i s st)) = fc_circ_package_window (xs_circ st)"
  "moor_circuit_find_stream (xs_circ (set_stream i s st)) = moor_circuit_find_stream ((xs_circ st)\<lparr>fc_streams := (xs_streams st)[i := s]\<rparr>)"
  by (simp_all add: set_stream_def)

lemma set_window_simps [simp]:
  "xs_streams (set_deliver w st) = xs_streams st" "fc_circ_deliver_window (xs_circ (set_deliver w st)) = w"
  "xs_prev_conn (set_deliver w st) = xs_prev_conn st" "xs_prev_open (set_deliver w st) = xs_prev_open st"
  "xs_exit_fds (set_deliver w st) = xs_exit_fds st" "xs_effects (set_deliver w st) = xs_effects st"
  "xs_streams (set_package w st) = xs_streams st" "fc_circ_package_window (xs_circ (set_package w st)) = w"
  "xs_prev_conn (set_package w st) = xs_prev_conn st" "xs_prev_open (set_package w st) = xs_prev_open st"
  "xs_exit_fds (set_package w st) = xs_exit_fds st" "xs_effects (set_package w st) = xs_effects st"
  "fc_circ_deliver_window (xs_circ (set_package w st)) = fc_circ_deliver_window (xs_circ st)"
  "fc_circ_package_window (xs_circ (set_deliver w st)) = fc_circ_package_window (xs_circ st)"
  by (simp_all add: set_deliver_def set_package_def)

lemma backward_frame [simp]:
  "xs_circ (snd (backward_relay env cmd sid d n st)) = xs_circ st"
  "xs_prev_conn (snd (backward_relay env cmd sid d n st)) = xs_prev_conn st"
  "xs_prev_open (snd (backward_relay env cmd sid d n st)) = xs_prev_open st"
  "xs_exit_fds (snd (backward_relay env cmd sid d n st)) = xs_exit_fds st"
  "rc_forward_digest (xs_relay (snd (backward_relay env cmd sid d n st))) = rc_forward_digest (xs_relay st)"
  "connects (snd (backward_relay env cmd sid d n st)) = connects st"
  by (auto simp: backward_relay_def backward_cell_def connects_def moor_circuit_relay_encrypt_def Let_def split: prod.splits option.splits if_splits)

lemma backward_ok: "xe_queue env = (\<lambda>_. True) \<Longrightarrow> fst (backward_relay env cmd sid d n st)"
  by (simp add: backward_relay_def backward_cell_def split: prod.splits)

lemma send_end_frame [simp]:
  "xs_circ (exit_send_relay_end env sid st) = xs_circ st" "connects (exit_send_relay_end env sid st) = connects st"
  "xs_exit_fds (exit_send_relay_end env sid st) = xs_exit_fds st"
  "xs_circ (exit_send_relay_connected env sid st) = xs_circ st" "connects (exit_send_relay_connected env sid st) = connects st"
  "xs_exit_fds (exit_send_relay_connected env sid st) = xs_exit_fds st"
  by (simp_all add: exit_send_relay_end_def exit_send_relay_connected_def)

lemma connects_frame [simp]:
  "connects (set_stream i s st) = connects st" "connects (st\<lparr>xs_dns := dns\<rparr>) = connects st"
  "connects (st\<lparr>xs_exit_fds := fds\<rparr>) = connects st" "\<not> is_connect e \<Longrightarrow> connects (effect e st) = connects st"
  "connects (effect (Fd_Connect fd a p) st) = connects st @ [Fd_Connect fd a p]"
  by (simp_all add: connects_def)
section \<open>Which addresses are connected to\<close>

lemma exit_fd_add_Some: "exit_fd_add fd sid st = Some st1 \<Longrightarrow>
    \<exists>e. st1 = st\<lparr>xs_exit_fds := xs_exit_fds st @ [e]\<rparr> \<and> xf_fd e = fd \<and> xf_stream_id e = sid \<and> length (xs_exit_fds st) < MAX_EXIT_FDS"
  by (auto simp: exit_fd_add_def split: if_splits)

lemma take_slot_connects: "connects (snd (exit_take_slot env sid addr port fd prog st)) = connects st"
  by (auto simp: exit_take_slot_def Let_def exit_fd_add_def split: option.splits)

lemma resolve_connects: "resolve_target env sid addr st = Some (ip, st1) \<Longrightarrow> connects st1 = connects st"
  by (auto simp: resolve_target_def Let_def split: if_splits option.splits prod.splits)

lemma exit_connect_connects:
  assumes "moor_relay_exit_connect env sid addr port st = Some (ok, st')"
  shows "connects st' = connects st \<or> (\<exists>ip. connects st' = connects st @ [Fd_Connect (xe_socket env) ip port] \<and> \<not> is_private_address ip \<and>
    (xe_policy env \<noteq> [] \<longrightarrow> moor_exit_policy_allows (xe_policy env) (Some ip) port))"
proof (cases "sid = 0 \<or> moor_circuit_find_stream (xs_circ st) sid \<noteq> None")
  case True
  then have "moor_relay_exit_connect env sid addr port st = Some (False, st)" by (auto simp: moor_relay_exit_connect_def)
  then show ?thesis using assms by simp
next
  case False
  then obtain t st1 where r: "resolve_target env sid addr st = Some (t, st1)"
    using assms by (cases "resolve_target env sid addr st") (auto simp: moor_relay_exit_connect_def)
  note c = resolve_connects [OF r]
  show ?thesis
  proof (cases t)
    case None
    then show ?thesis using assms False r c by (auto simp: moor_relay_exit_connect_def)
  next
    case (Some ip)
    then show ?thesis using assms False r c take_slot_connects [of env sid addr port "xe_socket env"]
      by (auto simp: moor_relay_exit_connect_def Let_def split: if_splits connect_result.splits) (metis connects_frame(5) snd_conv)+
  qed
qed

lemma relay_begin_connects:
  assumes "relay_begin env r st = Some (ok, st')"
  shows "connects st' = connects st \<or> (\<exists>ip p. connects st' = connects st @ [Fd_Connect (xe_socket env) ip p] \<and> \<not> is_private_address ip \<and>
    p \<noteq> 0 \<and> (xe_policy env \<noteq> [] \<longrightarrow> moor_exit_policy_allows (xe_policy env) (Some ip) p))"
proof -
  have nz: "(word_of_int v :: u16) \<noteq> 0" if "\<not> (v < 1 \<or> v > 65535)" for v
  proof
    assume "(word_of_int v :: u16) = 0"
    then have "65536 dvd v" by (simp add: word_of_int_eq_0_iff)
    then show False using that zdvd_imp_le [of 65536 v] by auto
  qed
  have "connects st' = connects st \<or> (\<exists>addr v. \<not> (v < 1 \<or> v > 65535) \<and>
      moor_relay_exit_connect env (r_stream_id r) addr (word_of_int v) st = Some (ok, st'))"
    using assms unfolding relay_begin_def by (auto split: if_splits option.splits prod.splits list.splits)
  then show ?thesis using exit_connect_connects nz by metis
qed

text \<open>An exit circuit with nothing open, a resolver that fails and a kernel that takes everything.\<close>

definition demo_exit :: exit_state where
  "demo_exit = \<lparr> xs_self = 0, xs_circ = flow_init_fields demo_flow, xs_relay = \<lparr> rc_forward_key = [], rc_backward_key = [], rc_forward_nonce = 0,
     rc_backward_nonce = 0, rc_forward_digest = replicate 32 0, rc_backward_digest = replicate 32 0, rc_last_cell_time = 0 \<rparr>,
     xs_prev_conn = 5, xs_prev_open = True, xs_prev_circuit_id = 7, xs_auth_cells_sent = 0, xs_exit_fds = [],
     xs_dns = moor_dns_cache_init, xs_effects = [] \<rparr>"

definition demo_exit_env :: exit_env where
  "demo_exit_env = \<lparr> xe_chacha = \<lambda>k n. Some (\<lambda>i. 0), xe_blake2b = \<lambda>x. replicate 32 1, xe_queue = \<lambda>c. True, xe_now = 5,
     xe_policy = moor_exit_policy_set_defaults, xe_resolve = \<lambda>h. None, xe_getaddrinfo = \<lambda>a. True, xe_socket = 9,
     xe_connect = \<lambda>a p. Conn_Progress, xe_send = \<lambda>fd d. Sent (length d) \<rparr>"

definition begin_payload :: "bytes \<Rightarrow> moor_relay_payload" where
  "begin_payload text = blank_relay\<lparr>r_command := relay_cmd_code RELAY_BEGIN, r_stream_id := 3, r_data_length := of_nat (length text),
     r_data := text @ replicate (MOOR_RELAY_DATA - length text) 0\<rparr>"

lemma demo_exit_streams: "xs_streams demo_exit = replicate 64 \<lparr> st_stream_id = 0, st_target_fd = -1, st_target_addr = [], st_target_port = 0,
    st_connected = False, st_deliver_window = 0, st_package_window = 0, st_xoff_sent = False, st_xoff_recv = False \<rparr>"
  by (simp add: demo_exit_def flow_init_fields_def demo_flow_def)

lemma demo_exit_free: "moor_circuit_find_stream (xs_circ demo_exit) sid = None" "first_index (\<lambda>s. st_stream_id s = 0) (xs_streams demo_exit) = Some 0"
  by (auto simp: moor_circuit_find_stream_def demo_exit_streams first_index_None first_index_Some_iff)

text \<open>
  C4. Whatever a client asks for and whatever the resolver answers, an exit opens a
  connection only to an address that is not private by the relay's own test and, for an IPv4
  address, that lies in no loopback, private, link-local, carrier-grade NAT, multicast or
  reserved network; when the operator has set exit rules, the policy lets the address and port
  through. An empty policy is not consulted at all.
\<close>

theorem exit_connects_only_permitted:
  assumes "relay_begin env r st = Some (ok, st')" and "Fd_Connect fd a p \<in> set (xs_effects st')"
    and "Fd_Connect fd a p \<notin> set (xs_effects st)"
  shows "\<not> is_private_address a \<and> p \<noteq> 0 \<and> (xe_policy env \<noteq> [] \<longrightarrow> moor_exit_policy_allows (xe_policy env) (Some a) p) \<and>
    (\<forall>w x y z. a = quad w x y z \<longrightarrow> \<not> private_quad w x \<and> w < 224)"
proof -
  have "Fd_Connect fd a p \<in> set (connects st')" "Fd_Connect fd a p \<notin> set (connects st)"
    using assms(2,3) by (auto simp: connects_def)
  then have "\<not> is_private_address a \<and> p \<noteq> 0 \<and> (xe_policy env \<noteq> [] \<longrightarrow> moor_exit_policy_allows (xe_policy env) (Some a) p)"
    using relay_begin_connects [OF assms(1)] by auto
  then show ?thesis using public_quad by blast
qed

theorem exit_connects_only_permitted_witness:
  "\<exists>ok st'. relay_begin demo_exit_env (begin_payload (quad 192 0 2 7 @ str '':80'')) demo_exit = Some (ok, st') \<and>
    Fd_Connect 9 (quad 192 0 2 7) 80 \<in> set (xs_effects st') \<and> \<not> is_private_address (quad 192 0 2 7)"
proof -
  let ?r = "begin_payload (quad 192 0 2 7 @ str '':80'')"
  have q: "quad 192 0 2 7 = str ''192.0.2.7''" by (simp add: quad_def str_def dec_digits_numeral)
  have n6: "inet_pton6 (str ''192.0.2.7'') = None" by (simp add: text_eval)
  have np: "\<not> is_private_address (quad 192 0 2 7)"
    using n6 private_ipv4_quad [of 192 0 2 7] unfolding is_private_address_def inet_pton4_quad
    by (simp add: q ntohl_quad private_quad_def) (simp add: str_def)
  have pl: "unat (r_data_length ?r) = 12" "take 12 (r_data ?r) = str ''192.0.2.7:80''" "r_stream_id ?r = 3"
    by (simp_all add: begin_payload_def q str_def)
  have sp: "split_last 58 (c_string (str ''192.0.2.7:80'')) = Some (quad 192 0 2 7, str ''80'')" "strtol10 (str ''80'') = (80, Some [])"
    "46 \<in> set (quad 192 0 2 7)" "\<not> has_bad_suffix (quad 192 0 2 7)" "take 63 (quad 192 0 2 7) = quad 192 0 2 7"
    unfolding q by (simp_all add: text_eval c_string_def has_bad_suffix_def bad_suffixes_def strcasecmp_eq_def to_lower_def)
  have "unat (80 :: u16) \<notin> default_blocked_ports" by (simp add: default_blocked_ports_def)
  then have al: "moor_exit_policy_allows moor_exit_policy_set_defaults (Some (quad 192 0 2 7)) 80"
    unfolding allows_quad default_scan4 by (simp add: private_quad_def)
  have "relay_begin demo_exit_env ?r demo_exit = moor_relay_exit_connect demo_exit_env 3 (quad 192 0 2 7) 80 demo_exit"
    unfolding relay_begin_def pl sp using np sp by simp
  also have "\<dots> = Some (exit_take_slot demo_exit_env 3 (quad 192 0 2 7) 80 9 True (effect (Fd_Connect 9 (quad 192 0 2 7) 80) demo_exit))"
    using demo_exit_free np al sp(5) by (simp add: moor_relay_exit_connect_def resolve_target_def inet_pton4_quad demo_exit_env_def)
  finally obtain ok st' where r: "relay_begin demo_exit_env ?r demo_exit = Some (ok, st')"
    "connects st' = connects demo_exit @ [Fd_Connect 9 (quad 192 0 2 7) 80]"
    using take_slot_connects by (metis connects_frame(5) surjective_pairing)
  then have "Fd_Connect 9 (quad 192 0 2 7) 80 \<in> set (connects st')" by simp
  then have i: "Fd_Connect 9 (quad 192 0 2 7) 80 \<in> set (xs_effects st')" by (simp add: connects_def)
  have "Fd_Connect 9 (quad 192 0 2 7) 80 \<notin> set (xs_effects demo_exit)" by (simp add: demo_exit_def)
  from exit_connects_only_permitted [OF r(1) i this] r(1) i show ?thesis by blast
qed

section \<open>From the client to the exit\<close>

lemma c_string_stop: "0 \<notin> set s \<Longrightarrow> c_string (s @ 0 # rest) = s"
  by (induction s) (auto simp: c_string_def)

text \<open>
  C25. The address and port that \<open>moor_circuit_open_stream\<close> puts in a RELAY_BEGIN cell are what
  the exit's handler passes to \<open>moor_relay_exit_connect\<close>, for every address that the exit does
  not refuse by itself.
\<close>

theorem begin_reaches_exit:
  assumes "0 \<notin> set addr" and "length addr \<le> 248" and "port \<noteq> 0" and "wf_relay old"
    and "\<not> is_private_address addr" and "46 \<in> set addr \<or> 58 \<in> set addr" and "\<not> has_bad_suffix addr"
    and "d = begin_data addr port" and "cell = moor_cell_relay cid (relay_cmd_code RELAY_BEGIN) sid (Some d) (of_nat (length d))"
  shows "relay_begin env (moor_relay_unpack old (c_payload cell)) st = moor_relay_exit_connect env sid addr port st"
proof -
  have p: "unat port < 10 ^ 5" "unat port < 65536" "0 < unat port"
    using unat_lt_u16 [of port] assms(3) by (simp_all add: unat_gt_0)
  have len: "length d < 256" using length_dec_digits [of 5 "unat port"] assms(2) by (simp add: assms(8) begin_data_def)
  have un: "unat (of_nat (length d) :: u16) = length d" using len by (simp add: of_nat_u16_small)
  have l: "length d = unat (of_nat (length d) :: u16)" "unat (of_nat (length d) :: u16) \<le> MOOR_RELAY_DATA"
    using un len by (simp_all add: MOOR_RELAY_DATA_def)
  obtain r where r: "wf_relay r"
      "c_payload (moor_cell_relay cid (relay_cmd_code RELAY_BEGIN) sid (Some d) (of_nat (length d))) = moor_relay_pack r"
      "r_stream_id r = sid" "r_data_length r = of_nat (length d)" "take (unat (of_nat (length d) :: u16)) (r_data r) = d"
    by (rule moor_cell_relay_payload [OF l])
  have le: "unat (r_data_length r) \<le> MOOR_RELAY_DATA" using un len r(4) by (simp add: MOOR_RELAY_DATA_def)
  note u = moor_relay_unpack_pack [OF r(1) assms(4) le]
  have digits: "list_all is_digit (dec_digits 5 (unat port))" using dec_digits_value [OF p(1)] by simp
  then have d0: "0 \<notin> set (dec_digits 5 (unat port))" "58 \<notin> set (dec_digits 5 (unat port))"
    by (auto simp: list_all_iff is_digit_def word_le_nat_alt)
  have "c_string d = addr @ 58 # dec_digits 5 (unat port)"
    using c_string_stop [of "addr @ 58 # dec_digits 5 (unat port)" "[]"] assms(1) d0(1) by (simp add: assms(8) begin_data_def)
  then have s: "split_last 58 (c_string d) = Some (addr, dec_digits 5 (unat port))" using split_last_append [OF d0(2)] by simp
  have t: "strtol10 (dec_digits 5 (unat port)) = (int (unat port), Some [])" by (rule strtol10_dec [OF p(1)]) simp_all
  have w: "(word_of_int (int (unat port)) :: u16) = port" by simp
  let ?R = "moor_relay_unpack old (c_payload cell)"
  have R: "r_stream_id ?R = sid" "unat (r_data_length ?R) = length d" "take (length d) (r_data ?R) = d"
    unfolding assms(9) r(2) u using r(3-5) un by simp_all
  have "uint port = int (unat port)" by simp
  then have "\<not> (uint port < 1 \<or> uint port > 65535)" using p by linarith
  then show ?thesis unfolding relay_begin_def R s using assms(5-7) t len by auto
qed

theorem begin_reaches_exit_witness:
  "relay_begin demo_exit_env (moor_relay_unpack blank_relay (c_payload (moor_cell_relay 7 (relay_cmd_code RELAY_BEGIN) 3
      (Some (begin_data (str ''moor.example'') 80)) (of_nat (length (begin_data (str ''moor.example'') 80)))))) demo_exit =
    moor_relay_exit_connect demo_exit_env 3 (str ''moor.example'') 80 demo_exit"
proof -
  have a: "0 \<notin> set (str ''moor.example'')" "length (str ''moor.example'') \<le> 248" "46 \<in> set (str ''moor.example'') \<or> 58 \<in> set (str ''moor.example'')"
    "\<not> has_bad_suffix (str ''moor.example'')"
    by (simp_all add: str_def has_bad_suffix_def bad_suffixes_def strcasecmp_eq_def to_lower_def)
  have "inet_pton4 (str ''moor.example'') = None" "inet_pton6 (str ''moor.example'') = None" by (simp_all add: text_eval)
  then have p: "\<not> is_private_address (str ''moor.example'')" by (simp add: is_private_address_def) (simp add: str_def)
  have w: "wf_relay blank_relay" by (simp add: blank_relay_def wf_relay_def cell_sizes)
  show ?thesis by (rule begin_reaches_exit [OF a(1,2) _ w p a(3,4) refl refl]) simp
qed

text \<open>
  C37. The unspecified IPv6 address, which the kernel connects to the local host, passes the
  relay's test for private addresses and the default exit policy: a client that asks for it
  makes the exit connect to it.
\<close>

theorem exit_connects_to_unspecified:
  assumes "xe_policy env = moor_exit_policy_set_defaults" and "xe_getaddrinfo env (str ''::'')" and "0 \<le> xe_socket env"
    and "moor_circuit_find_stream (xs_circ st) 3 = None"
  shows "\<exists>ok st'. relay_begin env (begin_payload (str '':::80'' @ [0])) st = Some (ok, st') \<and>
    Fd_Connect (xe_socket env) (str ''::'') 80 \<in> set (xs_effects st')"
proof -
  have v: "inet_pton6 (str ''::'') = Some (replicate 16 0)" "inet_pton4 (str ''::'') = None" by (simp_all add: text_eval)
  have ne: "str ''::'' \<noteq> str ''localhost''" by (simp add: str_def)
  have np: "\<not> is_private_address (str ''::'')"
    using ne by (simp add: is_private_address_def v private_ipv6_def ntohl_def de32_def zeros)
  have z16: "replicate 16 (0 :: byte) = [0, 0, 0, 0, 0, 0, 0, 0, 0, 0, 0, 0, 0, 0, 0, 0]" by (simp add: numeral_eq_Suc)
  have "replicate 16 0 \<notin> default_blocked6" unfolding z16 default_blocked6_def by simp
  moreover have "unat (80 :: u16) \<notin> default_blocked_ports" by (simp add: default_blocked_ports_def)
  ultimately have al: "moor_exit_policy_allows moor_exit_policy_set_defaults (Some (str ''::'')) 80"
    using default_scan6 [of "replicate 16 0"] by (simp add: moor_exit_policy_allows_def parse_ipv6_def v) (simp add: str_def)
  have c: "c_string (str '':::80'' @ [0]) = str '':::80''" by (simp add: c_string_def str_def)
  have s: "split_last 58 (str '':::80'') = Some (str ''::'', str ''80'')" "strtol10 (str ''80'') = (80, Some [])" "58 \<in> set (str ''::'')"
    by (simp_all add: text_eval)
  have b: "\<not> has_bad_suffix (str ''::'')" by (simp add: has_bad_suffix_def bad_suffixes_def str_def)
  have p: "unat (r_data_length (begin_payload (str '':::80'' @ [0]))) = 6" "take 6 (r_data (begin_payload (str '':::80'' @ [0]))) = str '':::80'' @ [0]"
    "r_stream_id (begin_payload (str '':::80'' @ [0])) = 3" by (simp_all add: begin_payload_def str_def)
  have "relay_begin env (begin_payload (str '':::80'' @ [0])) st = moor_relay_exit_connect env 3 (str ''::'') 80 st"
    unfolding relay_begin_def p c using np s b by simp
  moreover have "take 63 (str ''::'') = str ''::''" by (simp add: str_def)
  then have "resolve_target env 3 (str ''::'') st = Some (Some (str ''::''), st)" using v assms(2) by (simp add: resolve_target_def)
  ultimately obtain ok st' where r: "relay_begin env (begin_payload (str '':::80'' @ [0])) st = Some (ok, st')"
      "connects st' = connects st @ [Fd_Connect (xe_socket env) (str ''::'') 80]"
    using assms np al take_slot_connects [of env 3 "str ''::''" 80 "xe_socket env" _ "effect (Fd_Connect (xe_socket env) (str ''::'') 80) st"]
    unfolding moor_relay_exit_connect_def
    by (cases "xe_connect env (str ''::'') 80") (auto simp: Let_def prod_eq_iff simp del: split_paired_Ex)
  then have "Fd_Connect (xe_socket env) (str ''::'') 80 \<in> set (connects st')" by simp
  then show ?thesis using r(1) by (auto simp: connects_def)
qed

theorem exit_connects_to_unspecified_witness:
  "\<exists>ok st'. relay_begin demo_exit_env (begin_payload (str '':::80'' @ [0])) demo_exit = Some (ok, st') \<and>
    Fd_Connect 9 (str ''::'') 80 \<in> set (xs_effects st')"
  using exit_connects_to_unspecified [of demo_exit_env demo_exit] demo_exit_free(1) [of 3] by (simp add: demo_exit_env_def)
section \<open>The deliver window\<close>

abbreviation deliver :: "exit_state \<Rightarrow> int" where
  "deliver st \<equiv> fc_circ_deliver_window (xs_circ st)"

definition link_up :: "exit_state \<Rightarrow> bool" where
  "link_up st \<longleftrightarrow> xs_prev_conn st \<noteq> 0 \<and> xs_prev_open st"

definition count_cell :: "int \<Rightarrow> int" where
  "count_cell w = (if w - 1 \<le> 900 then w - 1 + 100 else w - 1)"

lemma link_up_frame [simp]:
  "link_up (effect e st) = link_up st" "link_up (set_stream i s st) = link_up st" "link_up (set_deliver w st) = link_up st"
  "link_up (snd (backward_relay env cmd sid d n st)) = link_up st"
  by (simp_all add: link_up_def)

lemma sendme_frames:
  assumes "xe_queue env = (\<lambda>_. True)"
  shows "deliver (circ_sendme env st) = deliver st + 100" "xs_streams (circ_sendme env st) = xs_streams st" "link_up (circ_sendme env st) = link_up st"
    "deliver (stream_sendme env sid i st) = deliver st" "link_up (stream_sendme env sid i st) = link_up st"
  using backward_ok [OF assms] by (simp_all add: circ_sendme_def stream_sendme_def case_prod_beta Let_def MOOR_SENDME_INCREMENT_def)

lemma sendme_check_window:
  assumes "xe_queue env = (\<lambda>_. True)" and "link_up st" and "deliver st < 1000"
  shows "fst (sendme_check env sid stream st)" "link_up (snd (sendme_check env sid stream st))"
    "deliver (snd (sendme_check env sid stream st)) = (if deliver st \<le> 900 then deliver st + 100 else deliver st)"
  using assms sendme_frames [OF assms(1)]
  by (auto simp: sendme_check_def Let_def link_up_def MOOR_CIRCUIT_WINDOW_def MOOR_SENDME_INCREMENT_def split: option.splits)

lemma spend_frames:
  "deliver (spend_deliver i st) = deliver st - 1" "link_up (spend_deliver i st) = link_up st"
  "- 1000 < deliver st \<Longrightarrow> deliver (floor_windows i st) = deliver st - 1" "link_up (floor_windows i st) = link_up st"
  "deliver (send_xoff env sid i st) = deliver st" "link_up (send_xoff env sid i st) = link_up st"
  "deliver (send_xon env sid i st) = deliver st" "link_up (send_xon env sid i st) = link_up st"
  by (simp_all add: spend_deliver_def floor_windows_def send_xoff_def send_xon_def case_prod_beta Let_def MOOR_CIRCUIT_WINDOW_def)

lemma forward_no_error:
  "(\<And>fd d. xe_send env fd d \<noteq> Send_Failed) \<Longrightarrow> fst (moor_stream_forward_to_target env fd data) \<noteq> STREAM_FWD_ERROR"
  by (induction env fd data rule: moor_stream_forward_to_target.induct)
    (subst moor_stream_forward_to_target.simps, auto split: send_result.splits prod.splits simp: Let_def, blast?)

lemma relay_data_window:
  assumes "xe_queue env = (\<lambda>_. True)" and "\<And>fd d. xe_send env fd d \<noteq> Send_Failed" and "link_up st" and "901 \<le> deliver st" "deliver st \<le> 1000"
  shows "fst (relay_data env r st) \<and> link_up (snd (relay_data env r st)) \<and> deliver (snd (relay_data env r st)) = count_cell (deliver st)"
proof -
  have chk: "fst (sendme_check env sid stream s1) \<and> link_up (snd (sendme_check env sid stream s1)) \<and>
      deliver (snd (sendme_check env sid stream s1)) = count_cell (deliver st)"
    if "link_up s1" "deliver s1 = deliver st - 1" for sid stream s1
    using sendme_check_window [OF assms(1) that(1), of sid stream] that(2) assms(5) by (simp add: count_cell_def)
  show ?thesis
  proof (cases "moor_circuit_find_stream (xs_circ st) (r_stream_id r)")
    case None
    then show ?thesis using chk assms(3) by (simp add: relay_data_def Let_def)
  next
    case (Some i)
    let ?s = "xs_streams st ! i" and ?d = "take (unat (r_data_length r)) (r_data r)"
    obtain fwd taken where f: "moor_stream_forward_to_target env (st_target_fd ?s) ?d = (fwd, taken)" by fastforce
    have ne: "fwd \<noteq> STREAM_FWD_ERROR" using forward_no_error [of env "st_target_fd ?s" ?d] assms(2) f by simp
    define st1 where "st1 = effect (Fd_Write (st_target_fd ?s) taken) st"
    define st2 where "st2 = (if fwd = STREAM_FWD_EAGAIN then send_xoff env (r_stream_id r) i st1 else st1)"
    have s2: "link_up st2" "deliver st2 = deliver st" using assms(3) by (simp_all add: st2_def st1_def spend_frames)
    define st3 where "st3 = (if st_xoff_sent (xs_streams st2 ! i) \<and> length taken \<ge> length ?d \<and> xs_prev_conn st2 \<noteq> 0
      then send_xon env (r_stream_id r) i st2 else st2)"
    have s3: "link_up st3" "deliver st3 = deliver st" using s2 by (simp_all add: st3_def spend_frames)
    have "relay_data env r st = (if st_target_fd ?s < 0 then sendme_check env (r_stream_id r) (Some i) (set_deliver (deliver st - 1) st)
      else if \<not> st_connected ?s then sendme_check env (r_stream_id r) (Some i) (spend_deliver i st)
      else if deliver st \<le> 0 \<or> st_deliver_window ?s \<le> 0 then sendme_check env (r_stream_id r) (Some i) (floor_windows i st)
      else if taken = [] then sendme_check env (r_stream_id r) (Some i) (spend_deliver i st2)
      else sendme_check env (r_stream_id r) (Some i) (spend_deliver i st3))"
      using Some f ne unfolding relay_data_def Let_def st3_def st2_def st1_def by simp
    then show ?thesis using chk assms(3,4) s2 s3 by (simp add: spend_frames)
  qed
qed

lemma counts_cells:
  assumes "xe_queue env = (\<lambda>_. True)" and "\<forall>fd d. xe_send env fd d \<noteq> Send_Failed" and "link_up st" and "deliver st = 1000"
  shows "link_up (fold (\<lambda>r st. snd (relay_data env r st)) rs st) \<and>
      deliver (fold (\<lambda>r st. snd (relay_data env r st)) rs st) = 1000 - int (length rs mod 100)"
proof (induction rs rule: rev_induct)
  case Nil
  then show ?case using assms by simp
next
  case (snoc r rs)
  let ?st = "fold (\<lambda>r st. snd (relay_data env r st)) rs st"
  have m: "length rs mod 100 < 100" by simp
  then have "901 \<le> deliver ?st" "deliver ?st \<le> 1000" using snoc by linarith+
  from relay_data_window [OF assms(1) _ _ this, of r] assms(2) snoc
  have "link_up (snd (relay_data env r ?st))" "deliver (snd (relay_data env r ?st)) = count_cell (deliver ?st)" by blast+
  moreover have "count_cell (1000 - int (length rs mod 100)) = 1000 - int (Suc (length rs) mod 100)"
    using m by (auto simp: count_cell_def mod_Suc)
  ultimately show ?case using snoc by simp
qed

text \<open>
  C26. As long as the link to the client takes cells and no write to a target fails, the exit
  counts every data cell, whatever stream it names: after \<open>n\<close> cells its deliver window is 1000
  less the remainder of \<open>n\<close> by 100, so that a SENDME is due exactly at every hundredth cell,
  where the client has noted the digest it expects back.
\<close>

theorem exit_counts_every_cell:
  assumes "xe_queue env = (\<lambda>_. True)" and "\<forall>fd d. xe_send env fd d \<noteq> Send_Failed" and "link_up st" and "deliver st = 1000"
  shows "deliver (fold (\<lambda>r st. snd (relay_data env r st)) rs st) = 1000 - int (length rs mod 100)"
  using counts_cells [OF assms] by blast

theorem exit_counts_every_cell_witness:
  "deliver (fold (\<lambda>r st. snd (relay_data demo_exit_env r st)) (replicate 130 (begin_payload [])) demo_exit) = 970"
proof -
  have "deliver demo_exit = 1000" "link_up demo_exit" by (simp_all add: demo_exit_def flow_init_fields_def MOOR_CIRCUIT_WINDOW_def link_up_def)
  then show ?thesis using exit_counts_every_cell [of demo_exit_env demo_exit "replicate 130 (begin_payload [])"]
    by (simp add: demo_exit_env_def)
qed
section \<open>What the target receives\<close>

fun write_of :: "int \<Rightarrow> exit_effect \<Rightarrow> bytes" where
  "write_of fd (Fd_Write f b) = (if f = fd then b else [])"
| "write_of fd e = []"

definition written :: "int \<Rightarrow> exit_state \<Rightarrow> bytes" where
  "written fd st = concat (map (write_of fd) (xs_effects st))"

lemma written_frame [simp]:
  "written fd (effect e st) = written fd st @ write_of fd e" "written fd (set_stream i s st) = written fd st"
  "written fd (set_deliver w st) = written fd st" "written fd (snd (backward_relay env cmd sid d n st)) = written fd st"
  by (auto simp: written_def backward_relay_def backward_cell_def case_prod_beta Let_def split: option.splits)

definition stream_ids :: "exit_state \<Rightarrow> u16 list" where
  "stream_ids st = map st_stream_id (xs_streams st)"

lemma find_stream_ids:
  assumes "stream_ids st' = stream_ids st"
  shows "moor_circuit_find_stream (xs_circ st') sid = moor_circuit_find_stream (xs_circ st) sid"
proof -
  have l: "length (xs_streams st') = length (xs_streams st)" using assms by (metis length_map stream_ids_def)
  have n: "st_stream_id (xs_streams st' ! j) = st_stream_id (xs_streams st ! j)" if "j < length (xs_streams st')" for j
    using assms that l by (metis nth_map stream_ids_def)
  show ?thesis unfolding moor_circuit_find_stream_def using first_index_cong [OF l, of "\<lambda>s. st_stream_id s = sid" "\<lambda>s. st_stream_id s = sid"] n by simp
qed

lemma stream_ids_frame:
  "st_stream_id s = st_stream_id (xs_streams st ! i) \<Longrightarrow> stream_ids (set_stream i s st) = stream_ids st"
  "stream_ids (set_deliver w st) = stream_ids st" "stream_ids (effect e st) = stream_ids st"
  "stream_ids (snd (backward_relay env cmd sid d n st)) = stream_ids st"
proof -
  show "stream_ids (set_stream i s st) = stream_ids st" if "st_stream_id s = st_stream_id (xs_streams st ! i)"
    by (cases "i < length (xs_streams st)") (simp_all add: stream_ids_def map_update that list_update_beyond, metis length_map list_update_id nth_map)
qed (simp_all add: stream_ids_def)

text \<open>The stream at index \<open>i\<close> is open towards \<open>fd\<close> and may take data.\<close>

definition flowing :: "nat \<Rightarrow> u16 \<Rightarrow> int \<Rightarrow> exit_state \<Rightarrow> bool" where
  "flowing i sid fd st \<longleftrightarrow> moor_circuit_find_stream (xs_circ st) sid = Some i \<and> i < length (xs_streams st) \<and>
     st_target_fd (xs_streams st ! i) = fd \<and> st_connected (xs_streams st ! i) \<and> 1 \<le> st_deliver_window (xs_streams st ! i) \<and>
     link_up st \<and> 901 \<le> deliver st \<and> deliver st \<le> 1000"

text \<open>Same streams, apart from the flags and windows of the one at \<open>i\<close>.\<close>

definition same_but :: "nat \<Rightarrow> exit_state \<Rightarrow> exit_state \<Rightarrow> bool" where
  "same_but i st st' \<longleftrightarrow> stream_ids st' = stream_ids st \<and> st_target_fd (xs_streams st' ! i) = st_target_fd (xs_streams st ! i) \<and>
     st_connected (xs_streams st' ! i) = st_connected (xs_streams st ! i)"

lemma same_but_refl: "same_but i st st"
  by (simp add: same_but_def)

lemma same_but_trans: "same_but i st st1 \<Longrightarrow> same_but i st1 st2 \<Longrightarrow> same_but i st st2"
  by (simp add: same_but_def)

lemma xoff_same:
  assumes "i < length (xs_streams st)"
  shows "same_but i st (send_xoff env sid i st)" "same_but i st (send_xon env sid i st)"
    "written fd (send_xoff env sid i st) = written fd st" "written fd (send_xon env sid i st) = written fd st"
    "st_deliver_window (xs_streams (send_xoff env sid i st) ! i) = st_deliver_window (xs_streams st ! i)"
    "st_deliver_window (xs_streams (send_xon env sid i st) ! i) = st_deliver_window (xs_streams st ! i)"
    "length (xs_streams (send_xoff env sid i st)) = length (xs_streams st)" "length (xs_streams (send_xon env sid i st)) = length (xs_streams st)"
  using assms by (auto simp: send_xoff_def send_xon_def same_but_def case_prod_beta Let_def stream_ids_frame)

lemma spend_same:
  assumes "i < length (xs_streams st)"
  shows "same_but i st (spend_deliver i st)" "written fd (spend_deliver i st) = written fd st"
    "st_deliver_window (xs_streams (spend_deliver i st) ! i) = st_deliver_window (xs_streams st ! i) - 1"
    "length (xs_streams (spend_deliver i st)) = length (xs_streams st)"
  using assms by (auto simp: spend_deliver_def same_but_def Let_def stream_ids_frame)

lemma sendme_check_same:
  assumes "xe_queue env = (\<lambda>_. True)" and "i < length (xs_streams st)" and "link_up st" and "deliver st < 1000" and "0 \<le> st_deliver_window (xs_streams st ! i)"
  shows "same_but i st (snd (sendme_check env sid (Some i) st))" "written fd (snd (sendme_check env sid (Some i) st)) = written fd st"
    "1 \<le> st_deliver_window (xs_streams (snd (sendme_check env sid (Some i) st)) ! i)"
    "length (xs_streams (snd (sendme_check env sid (Some i) st))) = length (xs_streams st)"
proof -
  define st1 where "st1 = (if deliver st \<le> 900 then circ_sendme env st else st)"
  have e: "snd (sendme_check env sid (Some i) st) = (if st_deliver_window (xs_streams st1 ! i) \<le> 0 then stream_sendme env sid i st1 else st1)"
    using assms(3,4) by (auto simp: sendme_check_def Let_def st1_def link_up_def MOOR_CIRCUIT_WINDOW_def MOOR_STREAM_WINDOW_def MOOR_SENDME_INCREMENT_def)
  have s1: "xs_streams st1 = xs_streams st" "stream_ids st1 = stream_ids st" "written fd st1 = written fd st"
    using backward_ok [OF assms(1)] by (simp_all add: st1_def circ_sendme_def case_prod_beta Let_def stream_ids_frame stream_ids_def)
  show "same_but i st (snd (sendme_check env sid (Some i) st))" "written fd (snd (sendme_check env sid (Some i) st)) = written fd st"
    "1 \<le> st_deliver_window (xs_streams (snd (sendme_check env sid (Some i) st)) ! i)"
    "length (xs_streams (snd (sendme_check env sid (Some i) st))) = length (xs_streams st)"
    unfolding e using s1 assms(2,5) backward_ok [OF assms(1)]
    by (auto simp: stream_sendme_def same_but_def case_prod_beta Let_def stream_ids_frame MOOR_SENDME_INCREMENT_def)
qed

lemma data_step:
  assumes "xe_queue env = (\<lambda>_. True)" and "flowing i sid fd st" and "r_stream_id r = sid" and "0 \<le> fd"
    and "moor_stream_forward_to_target env fd (take (unat (r_data_length r)) (r_data r)) = (fwd, taken)" and "fwd \<noteq> STREAM_FWD_ERROR"
  shows "flowing i sid fd (snd (relay_data env r st)) \<and> written fd (snd (relay_data env r st)) = written fd st @ taken"
proof -
  let ?s = "xs_streams st ! i" and ?d = "take (unat (r_data_length r)) (r_data r)"
  have F: "moor_circuit_find_stream (xs_circ st) sid = Some i" "i < length (xs_streams st)" "st_target_fd ?s = fd" "st_connected ?s"
    "1 \<le> st_deliver_window ?s" "link_up st" "901 \<le> deliver st" "deliver st \<le> 1000" using assms(2) by (auto simp: flowing_def)
  define st1 where "st1 = effect (Fd_Write fd taken) st"
  define st2 where "st2 = (if fwd = STREAM_FWD_EAGAIN then send_xoff env sid i st1 else st1)"
  define st3 where "st3 = (if taken \<noteq> [] \<and> st_xoff_sent (xs_streams st2 ! i) \<and> length taken \<ge> length ?d \<and> xs_prev_conn st2 \<noteq> 0
    then send_xon env sid i st2 else st2)"
  define st4 where "st4 = spend_deliver i st3"
  have e: "relay_data env r st = sendme_check env sid (Some i) st4"
    using F assms(3-6) unfolding relay_data_def Let_def st4_def st3_def st2_def st1_def by auto
  have l1: "i < length (xs_streams st1)" using F(2) by (simp add: st1_def)
  have 1: "same_but i st st1" "written fd st1 = written fd st @ taken" "link_up st1" "deliver st1 = deliver st"
    "st_deliver_window (xs_streams st1 ! i) = st_deliver_window ?s" using F(6) by (simp_all add: st1_def same_but_def stream_ids_frame)
  have 2: "same_but i st1 st2" "written fd st2 = written fd st1" "link_up st2" "deliver st2 = deliver st1" "i < length (xs_streams st2)"
    "st_deliver_window (xs_streams st2 ! i) = st_deliver_window (xs_streams st1 ! i)"
    using l1 1 xoff_same [OF l1] by (simp_all add: st2_def spend_frames same_but_refl)
  have 3: "same_but i st2 st3" "written fd st3 = written fd st2" "link_up st3" "deliver st3 = deliver st2" "i < length (xs_streams st3)"
    "st_deliver_window (xs_streams st3 ! i) = st_deliver_window (xs_streams st2 ! i)"
    using 2 xoff_same [OF 2(5)] by (simp_all add: st3_def spend_frames same_but_refl)
  note 4 = spend_same [OF 3(5), folded st4_def]
  have w4: "link_up st4" "deliver st4 = deliver st - 1" "i < length (xs_streams st4)" "0 \<le> st_deliver_window (xs_streams st4 ! i)"
    using 1 2 3 4 F(5) by (simp_all add: st4_def spend_frames)
  have "deliver st4 < 1000" using w4(2) F(8) by simp
  note 5 = sendme_check_same [OF assms(1) w4(3,1) this w4(4), where sid = sid] and 6 = sendme_check_window [OF assms(1) w4(1) this, of sid "Some i"]
  have same: "same_but i st (snd (relay_data env r st))" unfolding e using 1(1) 2(1) 3(1) 4(1) 5(1) same_but_trans by blast
  have "901 \<le> deliver (snd (relay_data env r st))" "deliver (snd (relay_data env r st)) \<le> 1000" unfolding e using 6(3) w4(2) F(7,8) by simp_all
  moreover have "length (xs_streams (snd (relay_data env r st))) = length (xs_streams st)"
    using same unfolding same_but_def stream_ids_def by (metis length_map)
  ultimately have "flowing i sid fd (snd (relay_data env r st))"
    using same F find_stream_ids [of "snd (relay_data env r st)" st sid] 5(3) 6(2) unfolding flowing_def same_but_def e by simp
  then show ?thesis unfolding e using 1(2) 2(2) 3(2) 4(2) 5(2) by simp
qed

abbreviation cell_data :: "moor_relay_payload \<Rightarrow> bytes" where
  "cell_data r \<equiv> take (unat (r_data_length r)) (r_data r)"

lemma forward_all:
  "(\<And>d. d \<noteq> [] \<Longrightarrow> \<exists>n > 0. xe_send env fd d = Sent n) \<Longrightarrow> moor_stream_forward_to_target env fd data = (STREAM_FWD_OK, data)"
proof (induction env fd data rule: moor_stream_forward_to_target.induct)
  case (1 env fd data)
  show ?case
  proof (cases "data = []")
    case True
    then show ?thesis by (simp add: moor_stream_forward_to_target.simps)
  next
    case False
    then obtain n where n: "0 < n" "xe_send env fd data = Sent n" using 1(2) by blast
    have "moor_stream_forward_to_target env fd (drop n data) = (STREAM_FWD_OK, drop n data)"
      using 1(1) [OF False n(2)] n(1) 1(2) by simp
    then show ?thesis using False n by (subst moor_stream_forward_to_target.simps) simp
  qed
qed

lemma forward_full:
  "data \<noteq> [] \<Longrightarrow> xe_send env fd data = Sent (length data) \<Longrightarrow> moor_stream_forward_to_target env fd data = (STREAM_FWD_OK, data)"
  by (subst moor_stream_forward_to_target.simps) (simp add: moor_stream_forward_to_target.simps)

lemma forward_failed:
  "data \<noteq> [] \<Longrightarrow> xe_send env fd data = Send_Failed \<Longrightarrow> moor_stream_forward_to_target env fd data = (STREAM_FWD_ERROR, [])"
  by (subst moor_stream_forward_to_target.simps) simp

lemma forward_short:
  assumes "xe_send env fd data = Sent k" and "0 < k" and "k < length data" and "xe_send env fd (drop k data) = Would_Block"
  shows "moor_stream_forward_to_target env fd data = (STREAM_FWD_EAGAIN, take k data)"
proof -
  have "data \<noteq> []" "drop k data \<noteq> []" using assms(3) by auto
  then have "moor_stream_forward_to_target env fd (drop k data) = (STREAM_FWD_EAGAIN, [])"
    using assms(4) by (subst moor_stream_forward_to_target.simps) simp
  then show ?thesis using assms(1,2) \<open>data \<noteq> []\<close> by (subst moor_stream_forward_to_target.simps) simp
qed

text \<open>
  C12. On an open stream whose target takes part of whatever it is offered, with the client's
  link up and a queue that takes every cell, the exit writes to the target exactly the data of
  the cells of the stream, in the order of the cells and without a gap, over any number of
  cells: both windows are refilled in time.
\<close>

theorem exit_delivers_in_order:
  assumes "xe_queue env = (\<lambda>_. True)" and "flowing i sid fd st" and "0 \<le> fd"
    and "\<forall>d. d \<noteq> [] \<longrightarrow> (\<exists>n > 0. xe_send env fd d = Sent n)" and "\<forall>r \<in> set rs. r_stream_id r = sid"
  shows "written fd (fold (\<lambda>r st. snd (relay_data env r st)) rs st) = written fd st @ concat (map cell_data rs)"
proof -
  have "flowing i sid fd (fold (\<lambda>r st. snd (relay_data env r st)) rs st) \<and>
      written fd (fold (\<lambda>r st. snd (relay_data env r st)) rs st) = written fd st @ concat (map cell_data rs)"
    using assms(5)
  proof (induction rs rule: rev_induct)
    case Nil
    then show ?case using assms(2) by simp
  next
    case (snoc r rs)
    have "moor_stream_forward_to_target env fd (cell_data r) = (STREAM_FWD_OK, cell_data r)" using forward_all assms(4) by blast
    then show ?case using data_step [of env i sid fd "fold (\<lambda>r st. snd (relay_data env r st)) rs st" r STREAM_FWD_OK "cell_data r"]
        assms(1,3) snoc by simp
  qed
  then show ?thesis by simp
qed

text \<open>A circuit with stream 7 open on descriptor 5, and a data cell for it.\<close>

definition demo_open :: exit_state where
  "demo_open = set_stream 0 ((xs_streams demo_exit ! 0)\<lparr>st_stream_id := 7, st_target_fd := 5, st_connected := True,
     st_deliver_window := 100, st_package_window := 100\<rparr>) demo_exit"

definition data_payload :: "bytes \<Rightarrow> moor_relay_payload" where
  "data_payload d = (begin_payload d)\<lparr>r_stream_id := 7\<rparr>"

lemma demo_open_flowing: "flowing 0 7 5 demo_open"
proof -
  have "link_up demo_open" "deliver demo_open = 1000"
    by (simp_all add: demo_open_def demo_exit_def flow_init_fields_def MOOR_CIRCUIT_WINDOW_def link_up_def set_stream_def)
  moreover have "moor_circuit_find_stream (xs_circ demo_open) 7 = Some 0"
    by (simp add: moor_circuit_find_stream_def demo_open_def demo_exit_streams first_index_Some_iff)
  ultimately show ?thesis by (simp add: flowing_def demo_open_def demo_exit_streams)
qed

theorem exit_delivers_in_order_witness:
  "written 5 (fold (\<lambda>r st. snd (relay_data demo_exit_env r st)) [data_payload [1, 2], data_payload [3]] demo_open) = [1, 2, 3]"
proof -
  have "\<forall>d. d \<noteq> [] \<longrightarrow> (\<exists>n > 0. xe_send demo_exit_env 5 d = Sent n)" by (simp add: demo_exit_env_def)
  moreover have "written 5 demo_open = []" by (simp add: written_def demo_open_def demo_exit_def set_stream_def)
  moreover have "cell_data (data_payload [1, 2]) = [1, 2]" "cell_data (data_payload [3]) = [3]"
    by (simp_all add: data_payload_def begin_payload_def)
  ultimately show ?thesis
    using exit_delivers_in_order [OF _ demo_open_flowing, of demo_exit_env "[data_payload [1, 2], data_payload [3]]"]
    by (simp add: demo_exit_env_def data_payload_def del: take_append)
qed

text \<open>
  C38. When the target's buffer is full part-way through a cell, the rest of the cell's data is
  lost: the stream stays open, the windows are spent as for a delivered cell, and the target
  receives the data of the next cell right after the part that was taken.
\<close>

theorem short_write_loses_data:
  assumes "xe_queue env = (\<lambda>_. True)" and "flowing i sid fd st" and "0 \<le> fd" and "r_stream_id r = sid" and "r_stream_id r' = sid"
    and "xe_send env fd (cell_data r) = Sent k" and "0 < k" and "k < length (cell_data r)"
    and "xe_send env fd (drop k (cell_data r)) = Would_Block"
    and "cell_data r' \<noteq> []" and "xe_send env fd (cell_data r') = Sent (length (cell_data r'))"
  shows "flowing i sid fd (snd (relay_data env r' (snd (relay_data env r st)))) \<and>
    written fd (snd (relay_data env r' (snd (relay_data env r st)))) = written fd st @ take k (cell_data r) @ cell_data r'"
proof -
  have f: "moor_stream_forward_to_target env fd (cell_data r) = (STREAM_FWD_EAGAIN, take k (cell_data r))"
    by (rule forward_short) (use assms in simp_all)
  have f': "moor_stream_forward_to_target env fd (cell_data r') = (STREAM_FWD_OK, cell_data r')"
    by (rule forward_full) (use assms in simp_all)
  have 1: "flowing i sid fd (snd (relay_data env r st)) \<and> written fd (snd (relay_data env r st)) = written fd st @ take k (cell_data r)"
    by (rule data_step [where fwd = STREAM_FWD_EAGAIN]) (use assms f in simp_all)
  have "flowing i sid fd (snd (relay_data env r' (snd (relay_data env r st)))) \<and>
    written fd (snd (relay_data env r' (snd (relay_data env r st)))) = written fd (snd (relay_data env r st)) @ cell_data r'"
    by (rule data_step [where fwd = STREAM_FWD_OK]) (use assms 1 f' in simp_all)
  then show ?thesis using 1 by simp
qed

definition full_env :: exit_env where
  "full_env = demo_exit_env\<lparr>xe_send := \<lambda>fd d. if d = [1, 2] then Sent 1 else if d = [2] then Would_Block else Sent (length d)\<rparr>"

theorem short_write_loses_data_witness:
  "written 5 (snd (relay_data full_env (data_payload [3]) (snd (relay_data full_env (data_payload [1, 2]) demo_open)))) = [1, 3]"
proof -
  have d: "cell_data (data_payload [1, 2]) = [1, 2]" "cell_data (data_payload [3]) = [3]" "r_stream_id (data_payload x) = 7" for x
    by (simp_all add: data_payload_def begin_payload_def)
  have "written 5 demo_open = []" by (simp add: written_def demo_open_def demo_exit_def set_stream_def)
  then show ?thesis using short_write_loses_data [OF _ demo_open_flowing, of full_env "data_payload [1, 2]" "data_payload [3]" 1]
    unfolding d by (simp add: full_env_def demo_exit_env_def)
qed
lemma fd_remove_frame [simp]:
  "xs_circ (exit_fd_remove fd st) = xs_circ st" "link_up (exit_fd_remove fd st) = link_up st" "xs_effects (exit_fd_remove fd st) = xs_effects st"
  by (simp_all add: exit_fd_remove_def link_up_def split: option.splits)

text \<open>
  C39. A data cell on which the write to the target fails is not counted: the stream is closed
  but the deliver window keeps its value. After that cell and 99 more the window stands at 901
  and no SENDME has been sent, while the client has sent a hundred cells and expects the
  digest after the hundredth; the exit's SENDME comes one cell late, with another digest.
\<close>

theorem failed_write_not_counted:
  assumes "xe_queue env = (\<lambda>_. True)" and "\<forall>fd d. xe_send env fd d \<noteq> Send_Failed" and "flowing i sid fd st" and "0 \<le> fd"
    and "deliver st = 1000" and "r_stream_id r = sid" and "cell_data r \<noteq> []" and "send fd (cell_data r) = Send_Failed" and "length rs = 99"
  shows "deliver (fold (\<lambda>r st. snd (relay_data env r st)) rs (snd (relay_data (env\<lparr>xe_send := send\<rparr>) r st))) = 901"
proof -
  let ?env = "env\<lparr>xe_send := send\<rparr>"
  have f: "moor_stream_forward_to_target ?env fd (cell_data r) = (STREAM_FWD_ERROR, [])"
    by (rule forward_failed) (use assms in simp_all)
  have "snd (relay_data ?env r st) = data_failed ?env sid i (effect (Fd_Write fd []) st)"
    using assms(3-6) f by (simp add: relay_data_def flowing_def)
  then have "link_up (snd (relay_data ?env r st))" "deliver (snd (relay_data ?env r st)) = 1000"
    using assms(3,5) by (simp_all add: data_failed_def flowing_def Let_def)
  from counts_cells [OF assms(1,2) this, of rs] assms(9) show ?thesis by simp
qed

theorem failed_write_not_counted_witness:
  "deliver (fold (\<lambda>r st. snd (relay_data demo_exit_env r st)) (replicate 99 (data_payload []))
    (snd (relay_data (demo_exit_env\<lparr>xe_send := \<lambda>fd d. Send_Failed\<rparr>) (data_payload [1]) demo_open))) = 901"
proof -
  have "deliver demo_open = 1000" by (simp add: demo_open_def demo_exit_def flow_init_fields_def MOOR_CIRCUIT_WINDOW_def)
  then show ?thesis
    using failed_write_not_counted [OF _ _ demo_open_flowing, of demo_exit_env "data_payload [1]" "\<lambda>fd d. Send_Failed" "replicate 99 (data_payload [])"]
    by (simp add: demo_exit_env_def data_payload_def begin_payload_def)
qed

text \<open>
  C40. When the target has data, or closes, while the link to the client is not open, the exit
  closes the descriptor and forgets it, but the stream still names it: whatever the kernel
  opens next under that number is closed when the circuit is torn down.
\<close>

theorem lost_link_leaves_stale_fd:
  assumes "exit_fd_find fd st = Some m" and "moor_circuit_find_stream (xs_circ st) (xf_stream_id m) = Some i" and "i < length (xs_streams st)"
    and "st_target_fd (xs_streams st ! i) = fd" and "0 < st_package_window (xs_streams st ! i)" and "0 < fc_circ_package_window (xs_circ st)"
    and "\<not> xs_prev_open st" and "got \<noteq> Recv_Again"
  shows "xs_effects (exit_target_read_cb env True got fd st) = xs_effects st @ [Ev_Remove fd, Fd_Close fd] \<and>
    moor_circuit_find_stream (xs_circ (exit_target_read_cb env True got fd st)) (xf_stream_id m) = Some i \<and>
    st_target_fd (xs_streams (exit_target_read_cb env True got fd st) ! i) = fd"
proof -
  let ?s = "xs_streams st ! i"
  define st1 where "st1 = (if got = Recv_Closed then st
    else set_package (fc_circ_package_window (xs_circ st) - 1) (set_stream i (?s\<lparr>st_package_window := st_package_window ?s - 1\<rparr>) st))"
  have e: "exit_target_read_cb env True got fd st = drop_fd fd st1"
    using assms unfolding exit_target_read_cb_def st1_def target_closed_def target_data_def
    by (cases got) (simp_all add: set_package_def set_stream_def Let_def)
  have "stream_ids st1 = stream_ids st" by (auto simp: st1_def set_package_def stream_ids_frame stream_ids_def set_stream_def map_update)
    (metis length_map list_update_id nth_map assms(3))
  moreover have "xs_circ (drop_fd fd st1) = xs_circ st1" "xs_effects (drop_fd fd st1) = xs_effects st1 @ [Ev_Remove fd, Fd_Close fd]"
    by (simp_all add: drop_fd_def effect_def)
  moreover have "xs_effects st1 = xs_effects st" "st_target_fd (xs_streams st1 ! i) = fd"
    using assms(3,4) by (simp_all add: st1_def set_package_def set_stream_def)
  ultimately show ?thesis unfolding e using find_stream_ids assms(2) by metis
qed

theorem lost_link_leaves_stale_fd_witness:
  "st_target_fd (xs_streams (exit_target_read_cb demo_exit_env True Recv_Closed 5
    (demo_open\<lparr>xs_prev_open := False, xs_exit_fds := [\<lparr> xf_fd = 5, xf_circ = 0, xf_circuit_id = 1, xf_conn = 5, xf_stream_id = 7 \<rparr>]\<rparr>)) ! 0) = 5"
proof -
  let ?m = "\<lparr> xf_fd = 5, xf_circ = 0, xf_circuit_id = 1, xf_conn = 5, xf_stream_id = 7 \<rparr>"
  let ?st = "demo_open\<lparr>xs_prev_open := False, xs_exit_fds := [?m]\<rparr>"
  have "first_index (\<lambda>e. xf_fd e = 5) [?m] = Some 0" by (subst first_index_Some_iff) simp
  then have "exit_fd_find 5 ?st = Some ?m" by (simp add: exit_fd_find_def)
  moreover have "moor_circuit_find_stream (xs_circ ?st) (xf_stream_id ?m) = Some 0" "0 < length (xs_streams ?st)" "st_target_fd (xs_streams ?st ! 0) = 5"
    using demo_open_flowing by (simp_all add: flowing_def)
  moreover have "0 < st_package_window (xs_streams ?st ! 0)" by (simp add: demo_open_def demo_exit_streams)
  moreover have "0 < fc_circ_package_window (xs_circ ?st)" by (simp add: demo_open_def demo_exit_def flow_init_fields_def MOOR_CIRCUIT_WINDOW_def set_stream_def)
  ultimately show ?thesis using lost_link_leaves_stale_fd [of 5 ?st ?m 0 Recv_Closed demo_exit_env] by simp
qed

section \<open>Well-formed states\<close>

definition stream_ok :: "int \<Rightarrow> moor_stream \<Rightarrow> bool" where
  "stream_ok m s \<longleftrightarrow> 0 \<le> st_package_window s \<and> st_package_window s \<le> 200 \<and> m \<le> st_deliver_window s \<and> st_deliver_window s \<le> 100"

definition exit_ok :: "int \<Rightarrow> exit_state \<Rightarrow> bool" where
  "exit_ok m st \<longleftrightarrow> length (xs_streams st) = 64 \<and> ids_distinct (xs_streams st) \<and>
     list_all (stream_ok m) (xs_streams st) \<and> 0 \<le> fc_circ_package_window (xs_circ st) \<and> fc_circ_package_window (xs_circ st) \<le> 1100 \<and>
     m \<le> 0 \<and> m \<le> deliver st \<and> deliver st \<le> 1000 \<and> fc_sendme_auth_count (xs_circ st) \<le> MOOR_SENDME_AUTH_MAX \<and> fc_sendme_auth_head (xs_circ st) < MOOR_SENDME_AUTH_MAX \<and>
     length (fc_sendme_auth_expected (xs_circ st)) = MOOR_SENDME_AUTH_MAX \<and> int (xs_auth_cells_sent st) < MOOR_SENDME_INCREMENT \<and>
     length (xs_exit_fds st) \<le> MAX_EXIT_FDS"

lemma ok_effect [simp]: "exit_ok m (effect e st) = exit_ok m st"
  by (simp add: exit_ok_def effect_def)

lemma ok_backward [simp]: "exit_ok m (snd (backward_relay env cmd sid d n st)) = exit_ok m st"
  by (simp add: exit_ok_def backward_relay_def backward_cell_def case_prod_beta Let_def)

lemma ok_dns [simp]: "exit_ok m (st\<lparr>xs_dns := d\<rparr>) = exit_ok m st"
  by (simp add: exit_ok_def)

lemma ok_streams: "exit_ok m st \<Longrightarrow> i < length (xs_streams st) \<Longrightarrow> stream_ok m (xs_streams st ! i)"
  by (simp add: exit_ok_def list_all_length)

lemma ok_set_stream:
  assumes "exit_ok m st" and "i < length (xs_streams st) \<Longrightarrow> stream_ok m s"
    and "st_stream_id s = 0 \<or> st_stream_id s = st_stream_id (xs_streams st ! i) \<or> moor_circuit_find_stream (xs_circ st) (st_stream_id s) = None"
  shows "exit_ok m (set_stream i s st)"
proof (cases "i < length (xs_streams st)")
  case True
  have n: "st_stream_id (xs_streams st ! j) \<noteq> st_stream_id s" if "moor_circuit_find_stream (xs_circ st) (st_stream_id s) = None" "st_stream_id s \<noteq> 0" "j < length (xs_streams st)" for j
    using that by (auto simp: moor_circuit_find_stream_def first_index_None split: if_splits)
  have "ids_distinct ((xs_streams st)[i := s])"
    using assms(1,3) n True unfolding exit_ok_def ids_distinct_def by (simp add: nth_list_update) metis
  moreover have "list_all (stream_ok m) ((xs_streams st)[i := s])"
    using assms(1,2) True by (auto simp: exit_ok_def list_all_length nth_list_update)
  ultimately show ?thesis using assms(1) by (simp add: exit_ok_def set_stream_def)
next
  case False
  then show ?thesis using assms(1) by (simp add: set_stream_def list_update_beyond)
qed

lemma ok_set_deliver: "exit_ok m st \<Longrightarrow> m \<le> w \<Longrightarrow> w \<le> 1000 \<Longrightarrow> exit_ok m (set_deliver w st)"
  by (simp add: exit_ok_def set_deliver_def)

lemma ok_set_package: "exit_ok m st \<Longrightarrow> 0 \<le> w \<Longrightarrow> w \<le> 1100 \<Longrightarrow> exit_ok m (set_package w st)"
  by (simp add: exit_ok_def set_package_def)

lemma ok_mono: "exit_ok m st \<Longrightarrow> exit_ok (m - 1) st"
  by (auto simp: exit_ok_def stream_ok_def list_all_length)

lemma ok_low: "exit_ok m st \<Longrightarrow> m \<le> deliver st" "exit_ok m st \<Longrightarrow> m \<le> 0"
  by (simp_all add: exit_ok_def)

lemma ok_bounds: "exit_ok m st \<Longrightarrow> deliver st \<le> 1000" "exit_ok m st \<Longrightarrow> fc_circ_package_window (xs_circ st) \<le> 1100"
  "exit_ok m st \<Longrightarrow> 0 \<le> fc_circ_package_window (xs_circ st)"
  by (simp_all add: exit_ok_def)

lemma ok_fd_remove: "exit_ok m st \<Longrightarrow> exit_ok m (exit_fd_remove fd st)"
  by (auto simp: exit_ok_def exit_fd_remove_def split: option.splits)

lemma ok_fd_add: "exit_ok m st \<Longrightarrow> exit_fd_add fd sid st = Some st' \<Longrightarrow> exit_ok m st' \<and> xs_circ st' = xs_circ st"
  by (auto simp: exit_ok_def exit_fd_add_def split: if_splits)

lemma ok_drop_fd: "exit_ok m st \<Longrightarrow> exit_ok m (drop_fd fd st)"
  by (simp add: drop_fd_def ok_fd_remove)

lemma ok_end_connected: "exit_ok m (exit_send_relay_end env sid st) = exit_ok m st" "exit_ok m (exit_send_relay_connected env sid st) = exit_ok m st"
  by (simp_all add: exit_send_relay_end_def exit_send_relay_connected_def)

lemma find_stream_less: "moor_circuit_find_stream (xs_circ st) sid = Some i \<Longrightarrow> i < length (xs_streams st) \<and> st_stream_id (xs_streams st ! i) = sid"
  by (auto simp: moor_circuit_find_stream_def first_index_Some_iff split: if_splits)

lemma ok_close_stream: "exit_ok m st \<Longrightarrow> exit_ok m (set_stream i ((xs_streams st ! i)\<lparr>st_target_fd := fd, st_stream_id := 0\<rparr>) st)"
  using ok_streams by (intro ok_set_stream) (auto simp: stream_ok_def)

subsection \<open>The handlers keep them\<close>

lemma ok_spend: "exit_ok m st \<Longrightarrow> exit_ok (m - 1) (spend_deliver i st)"
  unfolding spend_deliver_def Let_def using ok_streams [of "m - 1" st i] ok_streams [of m st i] ok_bounds(1) [of m st] ok_low [of m st] ok_mono [of m st]
  by (intro ok_set_stream ok_set_deliver) (auto simp: stream_ok_def)

lemma ok_floor: "exit_ok m st \<Longrightarrow> exit_ok (m - 1) (floor_windows i st)"
  unfolding floor_windows_def Let_def
  using ok_streams [of "m - 1" st i] ok_streams [of m st i] ok_bounds(1) [of m st] ok_low [of m st] ok_mono [of m st]
  by (auto intro!: ok_set_stream ok_set_deliver simp: stream_ok_def)

lemma ok_xoff: "exit_ok m st \<Longrightarrow> exit_ok m (send_xoff env sid i st)" "exit_ok m st \<Longrightarrow> exit_ok m (send_xon env sid i st)"
  unfolding send_xoff_def send_xon_def case_prod_beta Let_def using ok_streams [of m st i]
  by (auto intro!: ok_set_stream simp: stream_ok_def)

lemma ok_sendme_check:
  assumes "exit_ok m st"
  shows "exit_ok m (snd (sendme_check env sid stream st))"
proof -
  have c: "exit_ok m (circ_sendme env st)" if "deliver st \<le> 900"
    using assms that ok_low [OF assms] unfolding circ_sendme_def case_prod_beta Let_def by (auto intro!: ok_set_deliver simp: MOOR_SENDME_INCREMENT_def)
  have s: "exit_ok m (stream_sendme env sid i st1)" if "exit_ok m st1" "st_deliver_window (xs_streams st1 ! i) \<le> 0" for i st1
    using ok_streams [OF that(1), of i] that unfolding stream_sendme_def case_prod_beta Let_def
    by (auto intro!: ok_set_stream simp: MOOR_SENDME_INCREMENT_def stream_ok_def)
  show ?thesis using assms c s
    by (auto simp: sendme_check_def Let_def MOOR_CIRCUIT_WINDOW_def MOOR_STREAM_WINDOW_def MOOR_SENDME_INCREMENT_def split: option.splits)
qed

lemma ok_data_failed: "exit_ok m st \<Longrightarrow> exit_ok m (data_failed env sid i st)"
  unfolding data_failed_def Let_def
  by (rule ok_set_stream) (use ok_streams [of m st i] in \<open>auto simp: stream_ok_def intro!: ok_fd_remove\<close>)

lemma ok_relay_data:
  assumes "exit_ok m st"
  shows "exit_ok (m - 1) (snd (relay_data env r st))"
proof -
  have d: "exit_ok (m - 1) (set_deliver (deliver st - 1) st)"
    using ok_mono [OF assms] ok_bounds(1) [OF assms] ok_low [OF assms] by (intro ok_set_deliver) auto
  show ?thesis using assms ok_mono [OF assms] d unfolding relay_data_def
    by (auto simp: Let_def case_prod_beta ok_sendme_check ok_spend ok_floor ok_data_failed ok_xoff split: option.splits)
qed

lemma ok_relay_end: "exit_ok m st \<Longrightarrow> exit_ok m (snd (relay_end r st))"
  unfolding relay_end_def Let_def using ok_streams
  by (auto intro!: ok_set_stream ok_fd_remove simp: stream_ok_def split: option.splits)

lemma ok_take_slot:
  assumes "exit_ok m st" and "moor_circuit_find_stream (xs_circ st) sid = None"
  shows "exit_ok m (snd (exit_take_slot env sid addr port fd prog st))"
proof -
  have s: "exit_ok m (set_stream i s st1)" if "exit_ok m st1" "xs_circ st1 = xs_circ st" "stream_ok m s" "st_stream_id s = sid \<or> st_stream_id s = 0" for i s st1
    using that assms(2) by (intro ok_set_stream) auto
  show ?thesis
  proof (cases "first_index (\<lambda>s. st_stream_id s = 0) (xs_streams st)")
    case None
    then show ?thesis using assms(1) by (simp add: exit_take_slot_def)
  next
    case (Some i)
    show ?thesis
    proof (cases "exit_fd_add fd sid st")
      case None
      then show ?thesis using Some s assms(1) ok_low(2) [OF assms(1)] by (simp add: exit_take_slot_def Let_def ok_end_connected stream_ok_def MOOR_STREAM_WINDOW_def)
    next
      case (Some st1)
      note ok_fd_add [OF assms(1) Some]
      then show ?thesis using Some \<open>first_index _ _ = Some i\<close> s ok_low(2) [OF assms(1)]
        by (simp add: exit_take_slot_def Let_def ok_end_connected stream_ok_def MOOR_STREAM_WINDOW_def)
    qed
  qed
qed

lemma ok_resolve_target: "exit_ok m st \<Longrightarrow> resolve_target env sid addr st = Some (a, st') \<Longrightarrow> exit_ok m st' \<and> xs_circ st' = xs_circ st"
  unfolding resolve_target_def Let_def
  by (auto simp: ok_end_connected exit_send_relay_end_def split: if_splits option.splits)

lemma ok_exit_connect:
  assumes "exit_ok m st" and "moor_relay_exit_connect env sid addr port st = Some (ok, st')"
  shows "exit_ok m st'"
proof (cases "sid = 0 \<or> moor_circuit_find_stream (xs_circ st) sid \<noteq> None")
  case True
  then show ?thesis using assms by (auto simp: moor_relay_exit_connect_def split: if_splits)
next
  case False
  then obtain a st1 where r: "resolve_target env sid addr st = Some (a, st1)"
    using assms(2) by (auto simp: moor_relay_exit_connect_def split: option.splits)
  note 1 = ok_resolve_target [OF assms(1) r]
  have t: "exit_ok m (snd (exit_take_slot env sid addr port fd b (effect e st1)))" for fd b e
    using 1 False by (intro ok_take_slot) simp_all
  show ?thesis
  proof (cases a)
    case None
    then show ?thesis using False assms(2) r 1 by (simp add: moor_relay_exit_connect_def)
  next
    case (Some ip)
    show ?thesis using False assms(2) r 1 t unfolding Some moor_relay_exit_connect_def Let_def
      by (auto simp: ok_end_connected split: if_splits connect_result.splits) (metis snd_conv)+
  qed
qed

lemma ok_relay_begin: "exit_ok m st \<Longrightarrow> relay_begin env r st = Some (ok, st') \<Longrightarrow> exit_ok m st'"
  unfolding relay_begin_def by (auto intro: ok_exit_connect split: if_splits option.splits prod.splits list.splits)

lemma ok_relay_resolve: "exit_ok m st \<Longrightarrow> relay_resolve env r st = Some (ok, st') \<Longrightarrow> exit_ok m st'"
  unfolding relay_resolve_def Let_def by (auto split: if_splits option.splits)

lemma ok_resume: "exit_ok m (resume_reads st) = exit_ok m st"
proof -
  have "exit_ok m (fold (\<lambda>s st1. if P s then effect (g s) st1 else st1) xs st) = exit_ok m st" for P g xs
    by (induction xs arbitrary: st) simp_all
  then show ?thesis unfolding resume_reads_def .
qed

lemma ok_relay_sendme: "exit_ok m st \<Longrightarrow> exit_ok m (snd (relay_sendme r st))"
proof -
  assume ok: "exit_ok m st"
  have r: "exit_ok m (snd (refill_circuit st1))" if "exit_ok m st1" for st1
    using that ok_bounds(3) [OF that]
    by (auto simp: refill_circuit_def Let_def ok_resume MOOR_CIRCUIT_WINDOW_def MOOR_SENDME_INCREMENT_def intro!: ok_set_package)
  have a: "exit_ok m (st\<lparr>xs_circ := (xs_circ st)\<lparr>fc_sendme_auth_count := fc_sendme_auth_count (xs_circ st) - 1\<rparr>\<rparr>)"
    using ok by (auto simp: exit_ok_def)
  have s: "exit_ok m (set_stream i ((xs_streams st ! i)\<lparr>st_package_window := st_package_window (xs_streams st ! i) + MOOR_SENDME_INCREMENT\<rparr>) st)"
    if "st_package_window (xs_streams st ! i) \<le> MOOR_STREAM_WINDOW" for i
    using ok that ok_streams [OF ok, of i] by (intro ok_set_stream) (auto simp: stream_ok_def MOOR_STREAM_WINDOW_def MOOR_SENDME_INCREMENT_def)
  show ?thesis using ok r a s unfolding relay_sendme_def Let_def by (auto split: option.splits)
qed

lemma ok_relay_xoff: "exit_ok m st \<Longrightarrow> exit_ok m (snd (relay_xoff r st))" "exit_ok m st \<Longrightarrow> exit_ok m (snd (relay_xon r st))"
  unfolding relay_xoff_def relay_xon_def Let_def using ok_streams
  by (auto intro!: ok_set_stream simp: stream_ok_def split: option.splits)

lemma ok_connect_cb: "exit_ok m st \<Longrightarrow> exit_ok m (exit_connect_complete_cb env found failed fd st)"
  unfolding exit_connect_complete_cb_def Let_def using ok_streams ok_drop_fd ok_close_stream
  by (auto intro!: ok_set_stream simp: stream_ok_def ok_end_connected split: option.splits)

lemma ok_note_auth: "exit_ok m st \<Longrightarrow> exit_ok m (note_auth st)"
  by (auto simp: exit_ok_def note_auth_def Let_def MOOR_SENDME_INCREMENT_def MOOR_SENDME_AUTH_MAX_def)

lemma ok_read_cb:
  assumes "exit_ok m st"
  shows "exit_ok m (exit_target_read_cb env found got fd st)"
proof -
  have c: "exit_ok m (target_closed env fd sid i st)" for sid i
    using assms ok_close_stream [of m "snd (backward_relay env RELAY_END sid None 0 st)" i] unfolding target_closed_def Let_def by (auto intro!: ok_drop_fd)
  have d: "exit_ok m (target_data env fd sid i buf st)" if "0 < st_package_window (xs_streams st ! i)" "0 < fc_circ_package_window (xs_circ st)" for sid i buf
  proof -
    have "exit_ok m (set_package (fc_circ_package_window (xs_circ st) - 1)
        (set_stream i ((xs_streams st ! i)\<lparr>st_package_window := st_package_window (xs_streams st ! i) - 1\<rparr>) st))"
      using assms that ok_bounds(2) [OF assms] ok_streams [OF assms, of i] by (intro ok_set_package ok_set_stream) (auto simp: stream_ok_def)
    then show ?thesis unfolding target_data_def Let_def by (auto intro!: ok_drop_fd ok_note_auth)
  qed
  show ?thesis using assms c d unfolding exit_target_read_cb_def Let_def
    by (auto intro!: ok_drop_fd split: option.splits recv_result.splits)
qed

lemma swap_last_mset: "i < length fds \<Longrightarrow> mset (drop i (butlast (fds[i := last fds]))) = mset (drop (Suc i) fds)"
proof -
  assume l: "i < length fds"
  then obtain ys z where y: "drop i fds = ys @ [z]" by (metis drop_eq_Nil leD rev_exhaust)
  have "drop i (fds[i := last fds]) = (drop i fds)[0 := last fds]" using l by (simp add: drop_update_swap)
  moreover have "last fds = z" using y l by (metis last_drop last_snoc)
  ultimately have "drop i (butlast (fds[i := last fds])) = butlast ((ys @ [z])[0 := z])" using y l by (simp add: drop_butlast)
  moreover have "drop (Suc i) fds = tl (ys @ [z])" using y by (metis drop_Suc tl_drop)
  ultimately show ?thesis by (cases ys) (auto simp: butlast_append)
qed

lemma cleanup_loop_filter: "mset (drop i (cleanup_loop c i fds)) = filter_mset (\<lambda>e. xf_circ e \<noteq> c) (mset (drop i fds)) \<and> take i (cleanup_loop c i fds) = take i fds"
proof (induction c i fds rule: cleanup_loop.induct)
  case (1 c i fds)
  show ?case
  proof (cases "i < length fds")
    case False
    then show ?thesis by (subst (1 2) cleanup_loop.simps) simp
  next
    case l: True
    have d: "drop i fds = fds ! i # drop (Suc i) fds" using l by (simp add: Cons_nth_drop_Suc)
    show ?thesis
    proof (cases "xf_circ (fds ! i) = c")
      case True
      have "i \<le> length fds - Suc 0" using l by simp
      then have t: "take i (butlast (fds[i := last fds])) = take i fds" by (simp add: butlast_conv_take min_def)
      have "mset (drop i (butlast (fds[i := last fds]))) = mset (drop (Suc i) fds)" by (rule swap_last_mset [OF l])
      then show ?thesis using 1(1) [OF l True] t d True l by (subst (1 2) cleanup_loop.simps) simp
    next
      case False
      note IH = 1(2) [OF l False]
      have ln: "i < length (cleanup_loop c (i + 1) fds)"
        using IH l by (metis Suc_eq_plus1 Suc_leI length_take lessI min.absorb_iff2 min_less_iff_conj)
      have "cleanup_loop c (i + 1) fds ! i = fds ! i" using IH by (metis less_add_one nth_take)
      then have "drop i (cleanup_loop c (i + 1) fds) = fds ! i # drop (i + 1) (cleanup_loop c (i + 1) fds)"
        using ln by (simp add: Cons_nth_drop_Suc [symmetric])
      moreover have "take i (cleanup_loop c (i + 1) fds) = take i fds"
        using IH by (metis le_add1 min.absorb1 take_take)
      ultimately show ?thesis using IH l False d by (subst (1 2) cleanup_loop.simps) simp
    qed
  qed
qed

lemma cleanup_exit_fds:
  "mset (xs_exit_fds (moor_relay_cleanup_exit_fds st)) = filter_mset (\<lambda>e. xf_circ e \<noteq> xs_self st) (mset (xs_exit_fds st))"
  using cleanup_loop_filter [of 0 "xs_self st" "xs_exit_fds st"] by (simp add: moor_relay_cleanup_exit_fds_def)

lemma ok_cleanup: "exit_ok m st \<Longrightarrow> exit_ok m (moor_relay_cleanup_exit_fds st)"
proof -
  assume ok: "exit_ok m st"
  have "length (xs_exit_fds (moor_relay_cleanup_exit_fds st)) \<le> length (xs_exit_fds st)"
    using cleanup_exit_fds [of st] by (metis multiset_filter_subset size_mset size_mset_mono)
  then show ?thesis using ok by (simp add: exit_ok_def moor_relay_cleanup_exit_fds_def)
qed

lemma ok_exit_read: "exit_ok m st \<Longrightarrow> exit_ok m (snd (moor_relay_exit_read env got i st))"
  unfolding moor_relay_exit_read_def Let_def using ok_streams
  by (auto intro!: ok_set_stream ok_fd_remove simp: stream_ok_def split: recv_result.splits)

text \<open>
  Everything that can happen to an exit circuit: a cell of the client, a callback on one of its
  descriptors, or the link to the client going up or down, with whatever the kernel does.
\<close>

inductive exit_step :: "exit_state \<Rightarrow> exit_state \<Rightarrow> bool" where
  start: "relay_begin env r st = Some (ok, st') \<Longrightarrow> exit_step st st'"
| data: "exit_step st (snd (relay_data env r st))"
| finish: "exit_step st (snd (relay_end r st))"
| resolve: "relay_resolve env r st = Some (ok, st') \<Longrightarrow> exit_step st st'"
| sendme: "exit_step st (snd (relay_sendme r st))"
| xoff: "exit_step st (snd (relay_xoff r st))"
| xon: "exit_step st (snd (relay_xon r st))"
| connected: "exit_step st (exit_connect_complete_cb env found failed fd st)"
| readable: "exit_step st (exit_target_read_cb env found got fd st)"
| read_stream: "exit_step st (snd (moor_relay_exit_read env got i st))"
| cleanup: "exit_step st (moor_relay_cleanup_exit_fds st)"
| link: "exit_step st (st\<lparr>xs_prev_open := b\<rparr>)"

lemma ok_step: "exit_step st st' \<Longrightarrow> exit_ok m st \<Longrightarrow> exit_ok (m - 1) st'"
proof (induction rule: exit_step.induct)
  case (start env r st ok st')
  then show ?case by (blast intro: ok_relay_begin ok_mono)
next
  case (resolve env r st ok st')
  then show ?case by (blast intro: ok_relay_resolve ok_mono)
next
  case (link st b)
  then have "exit_ok m (st\<lparr>xs_prev_open := b\<rparr>)" by (simp add: exit_ok_def)
  then show ?case by (rule ok_mono)
qed (simp_all add: ok_relay_data ok_mono ok_relay_end ok_relay_sendme ok_relay_xoff ok_connect_cb ok_read_cb ok_exit_read ok_cleanup)

text \<open>
  C27. Every state an exit circuit reaches, by any sequence of cells, callbacks and link
  changes, is well formed: 64 streams with distinct ids, package windows from 0 to 1100 for
  the circuit and 0 to 200 for a stream, the ring of awaited digests within its bounds, and at
  most 512 target descriptors. Deliver windows are at most 1000 and 100; the code keeps no lower
  bound for them, but each step lowers one by at most 1, so that after \<open>n\<close> steps from a state
  where none is negative they are at least \<open>- n\<close>.
\<close>

theorem exit_state_well_formed:
  assumes "(exit_step ^^ n) st st'" and "exit_ok 0 st"
  shows "exit_ok (- int n) st'"
  using assms
proof (induction n arbitrary: st')
  case (Suc n)
  then obtain st1 where "(exit_step ^^ n) st st1" "exit_step st1 st'" by auto
  then have "exit_ok (- int n - 1) st'" using Suc by (blast intro: ok_step)
  moreover have "- int n - 1 = - int (Suc n)" by simp
  ultimately show ?case by simp
qed simp

theorem exit_state_well_formed_witness:
  "exit_ok 0 demo_exit \<and> exit_ok (- 1) (snd (relay_data demo_exit_env (data_payload [1]) demo_exit))"
proof -
  have "exit_ok 0 demo_exit"
    unfolding exit_ok_def demo_exit_streams
    by (simp add: ids_distinct_def stream_ok_def list_all_length demo_exit_def flow_init_fields_def demo_flow_def MOOR_CIRCUIT_WINDOW_def
      MOOR_SENDME_AUTH_MAX_def MOOR_SENDME_INCREMENT_def)
  moreover have "(exit_step ^^ 1) demo_exit (snd (relay_data demo_exit_env (data_payload [1]) demo_exit))"
    by (simp add: OO_def exit_step.data)
  ultimately show ?thesis using exit_state_well_formed [of 1] by fastforce
qed

end
