(* ===== verification/RateLimit.thy ===== *)
theory RateLimit
  imports Prelude
begin

text \<open>
  The limits a relay puts on its peers (\<open>src/src/ratelimit.c\<close>): a bucket of tokens per address
  and kind of request, with a table of 1024 addresses, and the accounting of transferred bytes
  per period. The table is the list of its used entries; the clock is an argument, and
  \<open>moor_ratelimit_check\<close> reads it twice. Lemmas: tokens stay in their range, a request is
  admitted exactly when a token is left, and what other addresses do has no influence.
\<close>

section \<open>Buckets per address\<close>

record moor_rl_entry =
  rl_ip :: bytes
  rl_tokens :: "int list"
  rl_last_seen :: u64

record rl_state =
  rs_table :: "moor_rl_entry list"
  rs_init :: bool

definition MOOR_RL_NUM_TYPES :: nat where "MOOR_RL_NUM_TYPES = 6"
definition MOOR_RL_MAX_IPS :: nat where "MOOR_RL_MAX_IPS = 1024"

definition rl_limits :: "int list" where
  "rl_limits = [60, 100, 100, 30, 60, 10]"

definition moor_ratelimit_init :: rl_state where
  "moor_ratelimit_init = \<lparr> rs_table = [], rs_init = True \<rparr>"

text \<open>The first entry with the smallest time stamp.\<close>

definition oldest :: "moor_rl_entry list \<Rightarrow> nat" where
  "oldest es = fold (\<lambda>i o1. if rl_last_seen (es ! i) < rl_last_seen (es ! o1) then i else o1) [1 ..< length es] 0"

definition find_or_create :: "u64 \<Rightarrow> bytes \<Rightarrow> rl_state \<Rightarrow> nat \<times> rl_state" where
  "find_or_create now ip st =
    (case first_index (\<lambda>e. rl_ip e = ip) (rs_table st) of
       Some i \<Rightarrow> (i, st\<lparr>rs_table := (rs_table st)[i := (rs_table st ! i)\<lparr>rl_last_seen := now\<rparr>]\<rparr>)
     | None \<Rightarrow>
         let entry = \<lparr> rl_ip = take 63 ip, rl_tokens = rl_limits, rl_last_seen = now \<rparr>
         in if length (rs_table st) < MOOR_RL_MAX_IPS
            then (length (rs_table st), st\<lparr>rs_table := rs_table st @ [entry]\<rparr>)
            else let i = oldest (rs_table st) in (i, st\<lparr>rs_table := (rs_table st)[i := entry]\<rparr>))"

text \<open>The refill by elapsed time, for an entry last seen at its time stamp.\<close>

definition refill_elapsed :: "u64 \<Rightarrow> nat \<Rightarrow> moor_rl_entry \<Rightarrow> moor_rl_entry" where
  "refill_elapsed now t e =
    (let elapsed = now - rl_last_seen e; lim = rl_limits ! t
     in if 0 < elapsed \<and> elapsed < 3600
        then let rate = max 1 (lim div 60)
             in e\<lparr>rl_tokens := (rl_tokens e)[t := min lim (rl_tokens e ! t + rate * uint elapsed)], rl_last_seen := now\<rparr>
        else if elapsed \<ge> 3600 then e\<lparr>rl_tokens := (rl_tokens e)[t := lim], rl_last_seen := now\<rparr>
        else e)"

definition moor_ratelimit_check :: "u64 \<Rightarrow> u64 \<Rightarrow> bytes \<Rightarrow> int \<Rightarrow> rl_state \<Rightarrow> bool \<times> rl_state" where
  "moor_ratelimit_check now now2 ip bucket st =
    (if \<not> rs_init st then (True, st)
     else if bucket < 0 \<or> bucket \<ge> int MOOR_RL_NUM_TYPES then (False, st)
     else let t = nat bucket; (i, st1) = find_or_create now ip st; e = refill_elapsed now2 t (rs_table st1 ! i)
          in if rl_tokens e ! t > 0
             then (True, st1\<lparr>rs_table := (rs_table st1)[i := e\<lparr>rl_tokens := (rl_tokens e)[t := rl_tokens e ! t - 1]\<rparr>]\<rparr>)
             else (False, st1\<lparr>rs_table := (rs_table st1)[i := e]\<rparr>))"

definition refill_step :: "int \<Rightarrow> int" where
  "refill_step lim = max 1 (lim div 10)"

definition moor_ratelimit_refill :: "rl_state \<Rightarrow> rl_state" where
  "moor_ratelimit_refill st =
    (if \<not> rs_init st then st
     else st\<lparr>rs_table := map (\<lambda>e. e\<lparr>rl_tokens := map2 (\<lambda>n lim. min lim (n + refill_step lim)) (rl_tokens e) rl_limits\<rparr>) (rs_table st)\<rparr>)"

section \<open>Bytes per period\<close>

record moor_bw_accounting =
  bw_bytes_limit :: u64
  bw_bytes_used :: u64
  bw_period_start :: u64
  bw_period_length_sec :: u64
  bw_rate_limit_bps :: u64
  bw_burst_limit :: u64
  bw_bucket_tokens :: u64
  bw_last_refill :: u64
  bw_hibernating :: bool

definition moor_bw_accounting_init :: "u64 \<Rightarrow> u64 \<Rightarrow> u64 \<Rightarrow> u64 \<Rightarrow> moor_bw_accounting" where
  "moor_bw_accounting_init now limit_bytes period_sec rate_bps =
    (let burst = (if rate_bps > 0 then rate_bps * 10 else 0)
     in \<lparr> bw_bytes_limit = limit_bytes, bw_bytes_used = 0, bw_period_start = now,
          bw_period_length_sec = (if period_sec > 0 then period_sec else 86400), bw_rate_limit_bps = rate_bps,
          bw_burst_limit = burst, bw_bucket_tokens = burst, bw_last_refill = now, bw_hibernating = False \<rparr>)"

definition moor_bw_accounting_charge :: "u64 \<Rightarrow> moor_bw_accounting \<Rightarrow> bool \<times> moor_bw_accounting" where
  "moor_bw_accounting_charge n acc =
    (if bw_hibernating acc then (False, acc)
     else let acc1 = (if bw_rate_limit_bps acc > 0
                      then acc\<lparr>bw_bucket_tokens := (if bw_bucket_tokens acc \<ge> n then bw_bucket_tokens acc - n else 0)\<rparr> else acc)
          in if bw_bytes_limit acc1 > 0
             then let acc2 = acc1\<lparr>bw_bytes_used := bw_bytes_used acc1 + n\<rparr>
                  in if bw_bytes_used acc2 \<ge> bw_bytes_limit acc2 then (False, acc2\<lparr>bw_hibernating := True\<rparr>) else (True, acc2)
             else (True, acc1))"

definition moor_bw_accounting_hibernating :: "moor_bw_accounting \<Rightarrow> bool" where
  "moor_bw_accounting_hibernating acc = bw_hibernating acc"

definition moor_bw_accounting_check_period :: "u64 \<Rightarrow> moor_bw_accounting \<Rightarrow> moor_bw_accounting" where
  "moor_bw_accounting_check_period now acc =
    (if now \<ge> bw_period_start acc + bw_period_length_sec acc
     then acc\<lparr>bw_bytes_used := 0, bw_hibernating := False, bw_period_start := now, bw_bucket_tokens := bw_burst_limit acc,
       bw_last_refill := now\<rparr> else acc)"

definition moor_bw_accounting_refill :: "u64 \<Rightarrow> moor_bw_accounting \<Rightarrow> moor_bw_accounting" where
  "moor_bw_accounting_refill now acc =
    (if bw_rate_limit_bps acc = 0 then acc
     else let elapsed0 = now - bw_last_refill acc
          in if elapsed0 = 0 then acc
             else let elapsed = (if elapsed0 > 3600 then 3600 else elapsed0);
                      add0 = bw_rate_limit_bps acc * elapsed;
                      add = (if add0 div elapsed \<noteq> bw_rate_limit_bps acc then bw_burst_limit acc else add0);
                      n = bw_bucket_tokens acc + add
                  in acc\<lparr>bw_bucket_tokens := (if n > bw_burst_limit acc then bw_burst_limit acc else n), bw_last_refill := now\<rparr>)"


section \<open>What the table means\<close>

text \<open>The tokens an address has: those of its entry, or all of them when it has none.\<close>

definition tokens_of :: "rl_state \<Rightarrow> bytes \<Rightarrow> int list" where
  "tokens_of st ip = (case map_of (map (\<lambda>e. (rl_ip e, rl_tokens e)) (rs_table st)) ip of None \<Rightarrow> rl_limits | Some ts \<Rightarrow> ts)"

definition tokens_ok :: "int list \<Rightarrow> bool" where
  "tokens_ok ts \<longleftrightarrow> length ts = 6 \<and> (\<forall>t < 6. 0 \<le> ts ! t \<and> ts ! t \<le> rl_limits ! t)"

definition rl_inv :: "bytes set \<Rightarrow> rl_state \<Rightarrow> bool" where
  "rl_inv S st \<longleftrightarrow> rs_init st \<and> distinct (map rl_ip (rs_table st)) \<and> rl_ip ` set (rs_table st) \<subseteq> S \<and>
     list_all (\<lambda>e. tokens_ok (rl_tokens e)) (rs_table st)"

lemma limits_ok: "length rl_limits = 6" "tokens_ok rl_limits" "t < 6 \<Longrightarrow> 0 < rl_limits ! t"
proof -
  have six: "t < 6 \<longleftrightarrow> t = 0 \<or> t = 1 \<or> t = 2 \<or> t = 3 \<or> t = 4 \<or> t = 5" for t :: nat by linarith
  show "length rl_limits = 6" by (simp add: rl_limits_def)
  show "t < 6 \<Longrightarrow> 0 < rl_limits ! t" "tokens_ok rl_limits" unfolding tokens_ok_def six by (auto simp: rl_limits_def)
qed

lemma map_of_list_update:
  "distinct (map fst xs) \<Longrightarrow> i < length xs \<Longrightarrow> fst (xs ! i) = k \<Longrightarrow> map_of (xs[i := (k, v)]) = (map_of xs)(k \<mapsto> v)"
proof (induction xs arbitrary: i)
  case (Cons x xs)
  then show ?case by (cases i) (auto simp: fun_eq_iff, metis image_eqI nth_mem)
qed simp

lemma tokens_of_update:
  assumes "rl_inv S st" and "i < length (rs_table st)" and "rl_ip e = rl_ip (rs_table st ! i)"
  shows "tokens_of (st\<lparr>rs_table := (rs_table st)[i := e]\<rparr>) = (tokens_of st)(rl_ip e := rl_tokens e)"
proof -
  have "map_of ((map (\<lambda>e. (rl_ip e, rl_tokens e)) (rs_table st))[i := (rl_ip e, rl_tokens e)]) =
      (map_of (map (\<lambda>e. (rl_ip e, rl_tokens e)) (rs_table st)))(rl_ip e \<mapsto> rl_tokens e)"
    by (rule map_of_list_update) (use assms in \<open>simp_all add: rl_inv_def comp_def\<close>)
  then show ?thesis by (auto simp: tokens_of_def map_update fun_eq_iff)
qed

lemma rl_inv_update:
  assumes "rl_inv S st" and "i < length (rs_table st)" and "rl_ip e = rl_ip (rs_table st ! i)" and "tokens_ok (rl_tokens e)"
  shows "rl_inv S (st\<lparr>rs_table := (rs_table st)[i := e]\<rparr>)"
proof -
  have m: "map rl_ip ((rs_table st)[i := e]) = map rl_ip (rs_table st)" using assms(2,3) by (metis list_update_id map_update)
  then have "rl_ip ` set ((rs_table st)[i := e]) = rl_ip ` set (rs_table st)" by (metis list.set_map)
  then show ?thesis using assms m by (auto simp: rl_inv_def list_all_length nth_list_update)
qed

lemma tokens_at: "rl_inv S st \<Longrightarrow> i < length (rs_table st) \<Longrightarrow> tokens_of st (rl_ip (rs_table st ! i)) = rl_tokens (rs_table st ! i)"
proof -
  assume a: "rl_inv S st" "i < length (rs_table st)"
  have "map_of (map (\<lambda>e. (rl_ip e, rl_tokens e)) (rs_table st)) (rl_ip (rs_table st ! i)) = Some (rl_tokens (rs_table st ! i))"
    by (rule map_of_is_SomeI) (use a in \<open>force simp: rl_inv_def comp_def in_set_conv_nth\<close>)+
  then show ?thesis by (simp add: tokens_of_def)
qed

lemma tokens_of_ok: "rl_inv S st \<Longrightarrow> tokens_ok (tokens_of st ip)"
  by (auto simp: tokens_of_def limits_ok rl_inv_def list_all_iff split: option.splits dest!: map_of_SomeD)

lemma find_or_create_spec:
  assumes "rl_inv S st" and "ip \<in> S" and "length ip \<le> 63" and "finite S" and "card S \<le> 1024" and "find_or_create now ip st = (i, st1)"
  shows "rl_inv S st1 \<and> i < length (rs_table st1) \<and> rl_ip (rs_table st1 ! i) = ip \<and> rl_last_seen (rs_table st1 ! i) = now \<and>
    tokens_of st1 = tokens_of st"
proof (cases "first_index (\<lambda>e. rl_ip e = ip) (rs_table st)")
  case (Some j)
  then have j: "j < length (rs_table st)" "rl_ip (rs_table st ! j) = ip" by (auto simp: first_index_Some_iff)
  let ?e = "(rs_table st ! j)\<lparr>rl_last_seen := now\<rparr>"
  have "find_or_create now ip st = (j, st\<lparr>rs_table := (rs_table st)[j := ?e]\<rparr>)" using Some by (simp add: find_or_create_def)
  then have e: "i = j" "st1 = st\<lparr>rs_table := (rs_table st)[j := ?e]\<rparr>" using assms(6) by simp_all
  have "tokens_ok (rl_tokens (rs_table st ! j))" using assms(1) j by (simp add: rl_inv_def list_all_length)
  then have "rl_inv S st1" unfolding e using rl_inv_update [OF assms(1) j(1), of ?e] by simp
  moreover have "tokens_of st1 = tokens_of st"
    unfolding e using tokens_of_update [OF assms(1) j(1), of ?e] tokens_at [OF assms(1) j(1)] by auto
  ultimately show ?thesis using j e by simp
next
  case None
  then have n: "ip \<notin> rl_ip ` set (rs_table st)" by (auto simp: first_index_None)
  have "card (rl_ip ` set (rs_table st)) = length (rs_table st)"
    using assms(1) distinct_card [of "map rl_ip (rs_table st)"] by (simp add: rl_inv_def)
  moreover have "rl_ip ` set (rs_table st) \<subset> S" using assms(1,2) n by (auto simp: rl_inv_def)
  ultimately have "length (rs_table st) < 1024" using psubset_card_mono [OF assms(4), of "rl_ip ` set (rs_table st)"] assms(5) by simp
  then have "find_or_create now ip st = (length (rs_table st), st\<lparr>rs_table := rs_table st @ [\<lparr> rl_ip = ip, rl_tokens = rl_limits, rl_last_seen = now \<rparr>]\<rparr>)"
    using assms(3) None by (simp add: find_or_create_def MOOR_RL_MAX_IPS_def)
  then have e: "i = length (rs_table st)" "st1 = st\<lparr>rs_table := rs_table st @ [\<lparr> rl_ip = ip, rl_tokens = rl_limits, rl_last_seen = now \<rparr>]\<rparr>"
    using assms(6) by simp_all
  have "map_of (map (\<lambda>e. (rl_ip e, rl_tokens e)) (rs_table st)) ip = None" using n by (simp add: map_of_eq_None_iff image_image)
  then have "tokens_of st1 = tokens_of st" by (auto simp: e tokens_of_def fun_eq_iff map_add_def split: option.splits)
  moreover have "rl_inv S st1" using assms(1,2) n limits_ok(2) by (auto simp: e rl_inv_def)
  ultimately show ?thesis by (simp add: e)
qed

text \<open>
  What a check gains between its two readings of the clock, at most. The time since the last
  request plays no role: \<open>find_or_create\<close> has just set the time stamp.
\<close>

definition tick_gain :: "u64 \<Rightarrow> u64 \<Rightarrow> int \<Rightarrow> int" where
  "tick_gain now now2 lim =
    (let d = now2 - now in if 0 < d \<and> d < 3600 then max 1 (lim div 60) * uint d else if d \<ge> 3600 then lim else 0)"

lemma tick_gain_nonneg: "0 < lim \<Longrightarrow> 0 \<le> tick_gain now now2 lim"
  by (simp add: tick_gain_def Let_def)

lemma refill_elapsed_spec:
  assumes "t < 6" and "tokens_ok (rl_tokens e)" and "rl_last_seen e = now"
  shows "\<exists>n. rl_tokens (refill_elapsed now2 t e) = (rl_tokens e)[t := n] \<and> rl_ip (refill_elapsed now2 t e) = rl_ip e \<and>
    rl_tokens e ! t \<le> n \<and> n \<le> rl_limits ! t \<and> n \<le> rl_tokens e ! t + tick_gain now now2 (rl_limits ! t)"
proof -
  let ?d = "now2 - now" and ?l = "rl_limits ! t" and ?n = "rl_tokens e ! t"
  have n: "0 \<le> ?n" "?n \<le> ?l" using assms(1,2) by (auto simp: tokens_ok_def)
  have "0 \<le> max 1 (?l div 60) * uint ?d" by simp
  then show ?thesis using n assms(3)
    by (intro exI [of _ "if 0 < ?d \<and> ?d < 3600 then min ?l (?n + max 1 (?l div 60) * uint ?d) else if ?d \<ge> 3600 then ?l else ?n"])
      (auto simp: refill_elapsed_def tick_gain_def Let_def)
qed

text \<open>
  The table implements one bucket per address: a request is admitted exactly when a token of
  its kind is left for its address, after what the check gains, and takes it; nothing else changes.
\<close>

lemma check_spec:
  assumes "rl_inv S st" and "ip \<in> S" and "length ip \<le> 63" and "finite S" and "card S \<le> 1024" and "0 \<le> b" and "b < 6"
    and "moor_ratelimit_check now now2 ip b st = (ok, st')"
  shows "\<exists>n. tokens_of st ip ! nat b \<le> n \<and> n \<le> tokens_of st ip ! nat b + tick_gain now now2 (rl_limits ! nat b) \<and>
    rl_inv S st' \<and> (ok \<longleftrightarrow> 0 < n) \<and>
    tokens_of st' = (tokens_of st)(ip := (tokens_of st ip)[nat b := n - (if ok then 1 else 0)])"
proof -
  obtain i st1 where f: "find_or_create now ip st = (i, st1)" by fastforce
  note 1 = find_or_create_spec [OF assms(1-5) f]
  let ?old = "rs_table st1 ! i" and ?t = "nat b"
  let ?e = "refill_elapsed now2 ?t ?old"
  have tk: "rl_tokens ?old = tokens_of st ip" using tokens_at [of S st1 i] 1 by auto
  have tok: "tokens_ok (tokens_of st ip)" by (rule tokens_of_ok [OF assms(1)])
  have t6: "?t < 6" "length (tokens_of st ip) = 6" using assms(6,7) tok by (auto simp: tokens_ok_def)
  from refill_elapsed_spec [OF t6(1), of ?old now now2] tok tk 1 obtain n where
    n: "rl_tokens ?e = (tokens_of st ip)[?t := n]" "rl_ip ?e = ip" "tokens_of st ip ! ?t \<le> n" "n \<le> rl_limits ! ?t"
    "n \<le> tokens_of st ip ! ?t + tick_gain now now2 (rl_limits ! ?t)" by auto
  have nt: "rl_tokens ?e ! ?t = n" using n(1) t6 by simp
  define e' where "e' = (if 0 < n then ?e\<lparr>rl_tokens := (rl_tokens ?e)[?t := n - 1]\<rparr> else ?e)"
  have r: "ok \<longleftrightarrow> 0 < n" "st' = st1\<lparr>rs_table := (rs_table st1)[i := e']\<rparr>"
    using assms(1,6-8) f nt by (auto simp: moor_ratelimit_check_def rl_inv_def MOOR_RL_NUM_TYPES_def Let_def e'_def split: if_splits)
  have e': "rl_ip e' = ip" "rl_tokens e' = (tokens_of st ip)[?t := n - (if ok then 1 else 0)]"
    using n(1,2) r(1) by (auto simp: e'_def)
  have "0 \<le> tokens_of st ip ! ?t" using tok t6 by (simp add: tokens_ok_def)
  then have "tokens_ok (rl_tokens e')" using tok t6 r(1) n(3,4) unfolding e'(2) by (auto simp: tokens_ok_def nth_list_update)
  then show ?thesis using rl_inv_update [of S st1 i e'] tokens_of_update [of S st1 i e'] 1 e' r n(3,5) by (intro exI [of _ n]) auto
qed

lemma refill_spec:
  assumes "rl_inv S st" and "t < 6"
  shows "rl_inv S (moor_ratelimit_refill st)"
    and "tokens_of (moor_ratelimit_refill st) ip ! t = min (rl_limits ! t) (tokens_of st ip ! t + refill_step (rl_limits ! t))"
proof -
  let ?f = "\<lambda>ts. map2 (\<lambda>n lim. min lim (n + refill_step lim)) ts rl_limits"
  have nth: "?f ts ! t = min (rl_limits ! t) (ts ! t + refill_step (rl_limits ! t))" if "tokens_ok ts" "t < 6" for ts t
    using that by (simp add: tokens_ok_def limits_ok)
  have ok: "tokens_ok (?f ts)" if "tokens_ok ts" for ts
    using that nth [OF that] limits_ok by (auto simp: tokens_ok_def refill_step_def max_def min_def)
  have r: "moor_ratelimit_refill st = st\<lparr>rs_table := map (\<lambda>e. e\<lparr>rl_tokens := ?f (rl_tokens e)\<rparr>) (rs_table st)\<rparr>"
    using assms(1) by (simp add: moor_ratelimit_refill_def rl_inv_def)
  show "rl_inv S (moor_ratelimit_refill st)" unfolding r using assms(1) ok by (auto simp: rl_inv_def comp_def list_all_iff)
  have "tokens_of (moor_ratelimit_refill st) ip =
      (case map_of (map (\<lambda>e. (rl_ip e, rl_tokens e)) (rs_table st)) ip of None \<Rightarrow> rl_limits | Some ts \<Rightarrow> ?f ts)"
    unfolding r tokens_of_def using map_of_map [of ?f "map (\<lambda>e. (rl_ip e, rl_tokens e)) (rs_table st)"]
    by (simp add: comp_def split: option.splits)
  then show "tokens_of (moor_ratelimit_refill st) ip ! t = min (rl_limits ! t) (tokens_of st ip ! t + refill_step (rl_limits ! t))"
    using nth [OF tokens_of_ok [OF assms(1), of ip] assms(2)]
    by (auto simp: tokens_of_def refill_step_def split: option.splits)
qed

section \<open>How many requests are admitted\<close>

text \<open>A check with its two readings of the clock, or the periodic refill.\<close>

datatype rl_op = Check u64 u64 bytes int | Refill

fun rl_step :: "rl_op \<Rightarrow> rl_state \<Rightarrow> bool \<times> rl_state" where
  "rl_step (Check now now2 ip b) st = moor_ratelimit_check now now2 ip b st"
| "rl_step Refill st = (False, moor_ratelimit_refill st)"

fun op_ips :: "rl_op list \<Rightarrow> bytes set" where
  "op_ips [] = {}"
| "op_ips (Check now now2 ip b # ops) = insert ip (op_ips ops)"
| "op_ips (Refill # ops) = op_ips ops"

fun asks :: "bytes \<Rightarrow> int \<Rightarrow> rl_op \<Rightarrow> bool" where
  "asks ip b (Check now now2 a c) \<longleftrightarrow> a = ip \<and> c = b"
| "asks ip b Refill \<longleftrightarrow> False"

definition requests :: "bytes \<Rightarrow> int \<Rightarrow> rl_op list \<Rightarrow> int" where
  "requests ip b ops = int (length (filter (asks ip b) ops))"

definition refills :: "rl_op list \<Rightarrow> int" where
  "refills ops = int (length (filter (\<lambda>op. op = Refill) ops))"

text \<open>What an address gains from the clock ticking within its checks.\<close>

fun ticks :: "bytes \<Rightarrow> int \<Rightarrow> rl_op list \<Rightarrow> int" where
  "ticks ip b [] = 0"
| "ticks ip b (Check now now2 a c # ops) = (if a = ip \<and> c = b then tick_gain now now2 (rl_limits ! nat b) else 0) + ticks ip b ops"
| "ticks ip b (Refill # ops) = ticks ip b ops"

fun admitted :: "bytes \<Rightarrow> int \<Rightarrow> rl_op list \<Rightarrow> rl_state \<Rightarrow> int" where
  "admitted ip b [] st = 0"
| "admitted ip b (op # ops) st =
     (if fst (rl_step op st) \<and> asks ip b op then 1 else 0) + admitted ip b ops (snd (rl_step op st))"

lemma op_ips_finite: "finite (op_ips ops)"
  by (induction ops rule: op_ips.induct) auto

lemma requests_simps [simp]:
  "requests ip b [] = 0" "requests ip b (op # ops) = (if asks ip b op then 1 else 0) + requests ip b ops"
  "refills [] = 0" "refills (op # ops) = (if op = Refill then 1 else 0) + refills ops" "0 \<le> requests ip b ops" "0 \<le> refills ops"
  by (auto simp: requests_def refills_def)

lemma check_bad_bucket: "rl_inv S st \<Longrightarrow> \<not> (0 \<le> b \<and> b < 6) \<Longrightarrow> moor_ratelimit_check now now2 ip b st = (False, st)"
  by (auto simp: moor_ratelimit_check_def rl_inv_def MOOR_RL_NUM_TYPES_def)

lemma admitted_bounds:
  assumes "rl_inv S st" and "op_ips ops \<subseteq> S" and "\<forall>a \<in> S. length a \<le> 63" and "finite S" and "card S \<le> 1024" and "0 \<le> b" and "b < 6"
  shows "min (requests ip b ops) (tokens_of st ip ! nat b) \<le> admitted ip b ops st \<and>
    admitted ip b ops st \<le> tokens_of st ip ! nat b + refills ops * refill_step (rl_limits ! nat b) + ticks ip b ops"
  using assms(1,2)
proof (induction ops arbitrary: st)
  case Nil
  have "0 \<le> tokens_of st ip ! nat b" using tokens_of_ok [OF Nil(1), of ip] assms(6,7) by (simp add: tokens_ok_def)
  then show ?case by simp
next
  case (Cons op ops)
  have tok: "tokens_ok (tokens_of st ip)" by (rule tokens_of_ok [OF Cons(2)])
  have t6: "nat b < 6" "length (tokens_of st ip) = 6" using assms(6,7) tok by (auto simp: tokens_ok_def)
  have n0: "0 \<le> tokens_of st ip ! nat b" "tokens_of st ip ! nat b \<le> rl_limits ! nat b" using tok t6 by (auto simp: tokens_ok_def)
  show ?case
  proof (cases op)
    case Refill
    note r = refill_spec [OF Cons(2) t6(1)]
    have s: "1 \<le> refill_step (rl_limits ! nat b)" by (simp add: refill_step_def)
    have "min (requests ip b ops) (tokens_of (moor_ratelimit_refill st) ip ! nat b) \<le> admitted ip b ops (moor_ratelimit_refill st) \<and>
      admitted ip b ops (moor_ratelimit_refill st) \<le> tokens_of (moor_ratelimit_refill st) ip ! nat b + refills ops * refill_step (rl_limits ! nat b) + ticks ip b ops"
      by (rule Cons(1) [OF r(1)]) (use Cons(3) Refill in simp)
    then show ?thesis using Refill n0 s unfolding r(2) by (simp add: distrib_right) linarith
  next
    case (Check now now2 a c)
    obtain ok st' where e: "moor_ratelimit_check now now2 a c st = (ok, st')" by fastforce
    let ?g = "if a = ip \<and> c = b then tick_gain now now2 (rl_limits ! nat b) else 0"
    have "\<exists>n. rl_inv S st' \<and> tokens_of st ip ! nat b \<le> n \<and> n \<le> tokens_of st ip ! nat b + ?g \<and>
        tokens_of st' ip ! nat b = n - (if ok \<and> a = ip \<and> c = b then 1 else 0) \<and> (a = ip \<and> c = b \<longrightarrow> (ok \<longleftrightarrow> 0 < n))"
    proof (cases "0 \<le> c \<and> c < 6")
      case True
      have "a \<in> S" "length a \<le> 63" using Cons(3) Check assms(3) by auto
      from check_spec [OF Cons(2) this assms(4,5) _ _ e] True obtain n where
        n: "tokens_of st a ! nat c \<le> n" "n \<le> tokens_of st a ! nat c + tick_gain now now2 (rl_limits ! nat c)" "rl_inv S st'" "ok \<longleftrightarrow> 0 < n"
        "tokens_of st' = (tokens_of st)(a := (tokens_of st a)[nat c := n - (if ok then 1 else 0)])" by auto
      show ?thesis
      proof (cases "a = ip \<and> c = b")
        case True
        then show ?thesis using n t6 by (intro exI [of _ n]) simp
      next
        case False
        then have "tokens_of st' ip ! nat b = tokens_of st ip ! nat b" using n(5) \<open>0 \<le> c \<and> c < 6\<close> assms(6) by (auto simp: nth_list_update)
        then show ?thesis using False n(3) by (intro exI [of _ "tokens_of st ip ! nat b"]) auto
      qed
    next
      case False
      then show ?thesis using check_bad_bucket [OF Cons(2) False] e assms(6,7) Cons(2) by auto
    qed
    then obtain n where n: "rl_inv S st'" "tokens_of st ip ! nat b \<le> n" "n \<le> tokens_of st ip ! nat b + ?g"
      "tokens_of st' ip ! nat b = n - (if ok \<and> a = ip \<and> c = b then 1 else 0)" "a = ip \<and> c = b \<longrightarrow> (ok \<longleftrightarrow> 0 < n)" by blast
    then have "min (requests ip b ops) (tokens_of st' ip ! nat b) \<le> admitted ip b ops st' \<and>
      admitted ip b ops st' \<le> tokens_of st' ip ! nat b + refills ops * refill_step (rl_limits ! nat b) + ticks ip b ops"
      using Cons(1) [of st'] Cons(3) Check by simp
    moreover have "admitted ip b (op # ops) st = (if ok \<and> a = ip \<and> c = b then 1 else 0) + admitted ip b ops st'"
      "requests ip b (op # ops) = (if a = ip \<and> c = b then 1 else 0) + requests ip b ops" "refills (op # ops) = refills ops"
      "ticks ip b (op # ops) = ?g + ticks ip b ops"
      by (simp_all add: Check e)
    ultimately show ?thesis using n n0 requests_simps(5) [of ip b ops] by (cases "a = ip \<and> c = b"; cases ok) (simp_all, linarith+)
  qed
qed

text \<open>
  C28. Over any sequence of requests from up to 1024 addresses and refills, with any readings of
  the clock, an address gets at least its limit of every kind of request admitted, or all of
  them if it makes fewer. It gets at most the limit, one refill step per refill, and what the
  clock ticks within its own checks are worth, whatever the other addresses do: the time that
  passes between two requests refills nothing.
\<close>

theorem ratelimit_admissions:
  assumes "card (op_ips ops) \<le> 1024" and "\<forall>a \<in> op_ips ops. length a \<le> 63" and "0 \<le> b" and "b < 6"
  shows "min (requests ip b ops) (rl_limits ! nat b) \<le> admitted ip b ops moor_ratelimit_init \<and>
    admitted ip b ops moor_ratelimit_init \<le>
      rl_limits ! nat b + refills ops * refill_step (rl_limits ! nat b) + ticks ip b ops"
proof -
  have "rl_inv (op_ips ops) moor_ratelimit_init" by (simp add: rl_inv_def moor_ratelimit_init_def)
  from admitted_bounds [OF this subset_refl assms(2) op_ips_finite assms(1,3,4), of ip] show ?thesis
    by (simp add: tokens_of_def moor_ratelimit_init_def)
qed

theorem ratelimit_admissions_witness:
  "admitted [49] 5 (replicate 15 (Check 7 7 [49] 5) @ [Check 3000 3001 [49] 5, Refill, Check 5000 5000 [50] 5]) moor_ratelimit_init \<le> 12"
proof -
  let ?ops = "replicate 15 (Check 7 7 [49] 5) @ [Check 3000 3001 [49] 5, Refill, Check 5000 5000 [50] 5]"
  have "op_ips (replicate n (Check t u a b) @ ops) = (if n = 0 then op_ips ops else insert a (op_ips ops))" for n t u a b ops
    by (induction n) auto
  from this [of 15] have "op_ips ?ops = {[49], [50]}" by auto
  moreover have "refills ?ops = 1" by (simp add: refills_def)
  moreover have "ticks [49] 5 (replicate n (Check 7 7 [49] 5) @ ops) = ticks [49] 5 ops" for n ops
    by (induction n) (simp_all add: tick_gain_def)
  moreover have "ticks [49] 5 [Check 3000 3001 [49] 5, Refill, Check 5000 5000 [50] 5] = 1"
    by (simp add: tick_gain_def rl_limits_def)
  ultimately show ?thesis using ratelimit_admissions [of ?ops 5 "[49]"] by (simp add: rl_limits_def refill_step_def)
qed

section \<open>Which charges are accepted\<close>

datatype bw_op = Charge u64 | Bw_Refill u64 | Check_Period u64

fun bw_run :: "bw_op list \<Rightarrow> moor_bw_accounting \<Rightarrow> bool list" where
  "bw_run [] acc = []"
| "bw_run (Charge n # ops) acc = fst (moor_bw_accounting_charge n acc) # bw_run ops (snd (moor_bw_accounting_charge n acc))"
| "bw_run (Bw_Refill now # ops) acc = bw_run ops (moor_bw_accounting_refill now acc)"
| "bw_run (Check_Period now # ops) acc = bw_run ops (moor_bw_accounting_check_period now acc)"

fun charges :: "bw_op list \<Rightarrow> nat list" where
  "charges [] = []"
| "charges (Charge n # ops) = unat n # charges ops"
| "charges (_ # ops) = charges ops"

fun before :: "u64 \<Rightarrow> bw_op \<Rightarrow> bool" where
  "before t (Check_Period now) \<longleftrightarrow> now < t"
| "before t op \<longleftrightarrow> True"

text \<open>Whether each charge, added to all before it, stays below the limit.\<close>

fun below_limit :: "nat \<Rightarrow> nat \<Rightarrow> nat list \<Rightarrow> bool list" where
  "below_limit lim used [] = []"
| "below_limit lim used (n # ns) = (used + n < lim) # below_limit lim (used + n) ns"

lemma below_limit_over: "lim \<le> used \<Longrightarrow> below_limit lim used ns = replicate (length ns) False"
  by (induction ns arbitrary: used) auto

lemma refill_fields [simp]:
  "bw_bytes_limit (moor_bw_accounting_refill now acc) = bw_bytes_limit acc" "bw_bytes_used (moor_bw_accounting_refill now acc) = bw_bytes_used acc"
  "bw_hibernating (moor_bw_accounting_refill now acc) = bw_hibernating acc" "bw_period_start (moor_bw_accounting_refill now acc) = bw_period_start acc"
  "bw_period_length_sec (moor_bw_accounting_refill now acc) = bw_period_length_sec acc"
  by (simp_all add: moor_bw_accounting_refill_def Let_def)

lemma charge_spec:
  assumes "\<not> bw_hibernating acc" and "0 < bw_bytes_limit acc" and "unat (bw_bytes_used acc) + unat n < 2 ^ 64"
    and "moor_bw_accounting_charge n acc = (ok, acc')"
  shows "(ok \<longleftrightarrow> unat (bw_bytes_used acc) + unat n < unat (bw_bytes_limit acc)) \<and> bw_hibernating acc' = (\<not> ok) \<and>
    unat (bw_bytes_used acc') = unat (bw_bytes_used acc) + unat n \<and> bw_bytes_limit acc' = bw_bytes_limit acc \<and>
    bw_period_start acc' = bw_period_start acc \<and> bw_period_length_sec acc' = bw_period_length_sec acc"
proof -
  have s: "unat (bw_bytes_used acc + n) = unat (bw_bytes_used acc) + unat n"
    using assms(3) by (simp add: unat_word_ariths)
  show ?thesis using assms(1,2,4) s
    by (auto simp: moor_bw_accounting_charge_def Let_def word_le_nat_alt split: if_splits)
qed

lemma bw_run_hibernating:
  "bw_hibernating acc \<Longrightarrow> list_all (before (bw_period_start acc + bw_period_length_sec acc)) ops \<Longrightarrow>
    bw_run ops acc = replicate (length (charges ops)) False"
  by (induction ops acc rule: bw_run.induct) (auto simp: moor_bw_accounting_charge_def moor_bw_accounting_check_period_def)

lemma bw_run_below:
  assumes "\<not> bw_hibernating acc" and "0 < bw_bytes_limit acc" and "unat (bw_bytes_used acc) + sum_list (charges ops) < 2 ^ 64"
    and "list_all (before (bw_period_start acc + bw_period_length_sec acc)) ops"
  shows "bw_run ops acc = below_limit (unat (bw_bytes_limit acc)) (unat (bw_bytes_used acc)) (charges ops)"
  using assms
proof (induction ops acc rule: bw_run.induct)
  case (2 n ops acc)
  obtain ok acc' where c: "moor_bw_accounting_charge n acc = (ok, acc')" by fastforce
  have "unat (bw_bytes_used acc) + unat n < 2 ^ 64" using 2(4) by simp
  note s = charge_spec [OF 2(2,3) this c]
  show ?case
  proof (cases ok)
    case True
    then show ?thesis using 2(1) 2(3-5) s c by simp
  next
    case False
    have "bw_run ops acc' = replicate (length (charges ops)) False"
      by (rule bw_run_hibernating) (use False s 2(5) in simp_all)
    then show ?thesis using False s c below_limit_over by simp
  qed
next
  case (4 now ops acc)
  then show ?case by (auto simp: moor_bw_accounting_check_period_def)
qed simp_all

text \<open>
  C29. Within an accounting period, whatever refills and period checks come between, a charge
  is accepted exactly when the bytes charged so far, with it, stay below the limit: once the
  limit is reached every later charge of the period is refused.
\<close>

theorem bw_accounting_accepts:
  assumes "0 < lim" and "sum_list (charges ops) < 2 ^ 64"
    and "list_all (before (now + (if period > 0 then period else 86400))) ops"
  shows "bw_run ops (moor_bw_accounting_init now lim period rate) = below_limit (unat lim) 0 (charges ops)"
  using bw_run_below [of "moor_bw_accounting_init now lim period rate" ops] assms
  by (simp add: moor_bw_accounting_init_def Let_def)

theorem bw_accounting_accepts_witness:
  "bw_run [Charge 40, Bw_Refill 11, Charge 59, Check_Period 12, Charge 1, Charge 0] (moor_bw_accounting_init 10 100 60 5) = [True, True, False, False]"
  using bw_accounting_accepts [of 100 "[Charge 40, Bw_Refill 11, Charge 59, Check_Period 12, Charge 1, Charge 0]" 10 60 5] by simp

end
