(* ===== verification/Spec2Isabelle.thy ===== *)
theory Spec2Isabelle
  imports Prelude Cell Interfaces Onion Fragment Conflux OpenTable CircuitTable
    CircuitPool RelayLinks CircuitSafety NetText FlowControl ExitPolicy DnsCache ExitRelay ExitSafety
    RateLimit
begin

text \<open>
  A verification development for MOOR, an onion router written in C (\<open>src/src/*.c\<close>,
  \<open>src/include/moor/*.h\<close>).

  \<^bold>\<open>The program.\<close> A client builds a circuit through several relays and sends data in cells of
  514 bytes. A cell is stamped with a running digest shared with the last relay and encrypted
  once per relay; each relay takes one layer off and the one that recognizes the digest
  handles the cell. The last relay (the exit) opens TCP connections for the client, subject to
  a filter for private addresses and an exit policy, resolving names through a cache, and
  carries data both ways; windows and authenticated acknowledgements (SENDME cells) bound what
  is in flight. Payloads larger than a cell are cut into fragments; a client may spread one
  stream over several circuits (conflux). Circuits are found by connection and number in a
  hash table, are closed in two steps (marked, then freed from the event loop), and a relay
  limits what one address may ask for.

  \<^bold>\<open>How C is modelled.\<close> \<open>uint8_t\<close> to \<open>uint64_t\<close> are words of that width and wrap; \<open>int\<close>
  fields such as windows are integers, with theorems that bound them far inside 32 bits.
  Structs are records, byte buffers are lists of bytes, fixed arrays are lists whose length is
  part of an invariant, C strings are byte lists without the terminator. Pointers to circuits
  and connections are numbers, 0 being \<open>NULL\<close>. A function that changes state takes and returns
  it; a return code becomes a bool, an option or a result type, so that every early return is a
  branch. Loops are recursion with a termination proof, or take fuel and give \<open>None\<close> when it
  runs out. Code that is not in the repository is a parameter: the ChaCha20 key stream
  (\<open>chacha20\<close>), BLAKE2b, the clock, the kernel's answers to \<open>connect\<close>, \<open>send\<close> and \<open>recv\<close>, the
  encrypted resolver, the random source, and whether an output queue takes a cell. Calls into
  other modules are recorded in a trace of effects. \<open>inet_pton\<close>, \<open>strtol\<close> and the string
  functions of the C library are modelled, in \<open>NetText\<close>.

  \<^bold>\<open>The theories.\<close>

  \<^item> \<open>Prelude\<close>: words, byte buffers (\<open>memcpy\<close>), big-endian fields, the search loops over arrays.
  \<^item> \<open>Interfaces\<close>: the contract \<open>sync_channel\<close> of a sender and a receiver in step.
  \<^item> \<open>Cell\<close> (\<open>cell.c\<close>): packing, unpacking, builders, running digests. Packing is a bijection,
    a relay cell delivers its data, and a stream of stamped payloads is accepted one by one
    (locale \<open>digest_chain\<close>).
  \<^item> \<open>Onion\<close> (\<open>circuit.c\<close>, \<open>crypto.c\<close>, the head of \<open>moor_relay_handle_relay\<close> in \<open>relay.c\<close>):
    layers in both directions for any number of hops. Cells arrive intact in order, ends stay
    in step, and no cipher call is made twice with one key and nonce.
  \<^item> \<open>Fragment\<close> (\<open>fragment.c\<close>): the sender's loop and the eight reassembly slots; what is cut up
    is put together again, and the slots stay well formed under any input.
  \<^item> \<open>Conflux\<close> (\<open>conflux.c\<close>, the receiving branch of \<open>socks5.c\<close>): legs, the sequence-number
    cipher, the reorder buffer. Delivery is in order whatever arrives and complete when
    everything arrives in time; after a lost cell, bursty traffic stalls the set for good. Leg
    selection is shown to take a leg with window and least round-trip time.
  \<^item> \<open>OpenTable\<close>, \<open>CircuitTable\<close> (\<open>circ_ht_*\<close> of \<open>circuit.c\<close>): linear probing with re-insertion
    on removal, in a locale for any hash and key, interpreted on the circuit table; it is a
    map, also when it is full.
  \<^item> \<open>CircuitPool\<close> (\<open>circuit.c\<close>): allocation, registration, marking, deferred close, teardown of
    connections, time-outs, the out-of-memory killer.
  \<^item> \<open>RelayLinks\<close> (\<open>relay.c\<close>, the event-driven builder of \<open>circuit.c\<close>): the handlers that link
    circuits to connections and to each other: CREATE with its limit per connection, EXTEND
    over an open channel or through a worker, CREATED, failed builds, and the cookie table of
    the rendezvous point with ESTABLISH_RENDEZVOUS and RENDEZVOUS1.
  \<^item> \<open>CircuitSafety\<close>: runs of all of these. The code does not refuse to extend a circuit that
    has a next hop already, nor to join a circuit again; in a run where neither happens (a
    hypothesis on the steps, \<open>overwrites_link\<close> and \<open>joins_again\<close>) no pool refers to a freed
    circuit, and the deferred close does all of its work. What happens otherwise is proved
    too: a second EXTEND leaves the freed circuit in the hash table, a second join leaves a
    partner link to it.
  \<^item> \<open>FlowControl\<close> (\<open>circuit.c\<close>): stream ids, sending under windows, SENDME with its digest
    ring, round-trip time and congestion window. Cells in flight and window add up, the ring
    holds one digest per hundred cells, the search for an id ends.
  \<^item> \<open>NetText\<close>, \<open>ExitPolicy\<close> (\<open>config.c\<close>): reading rules and matching addresses; a rule means its
    CIDR network, and what the default policy lets through is stated exactly.
  \<^item> \<open>DnsCache\<close> (\<open>dns_cache.c\<close>): hash chains, expiry, replacement. Answers are the last address
    inserted under the name; a name of dots only breaks a chain.
  \<^item> \<open>ExitRelay\<close>, \<open>ExitSafety\<close> (\<open>relay.c\<close>): the exit's handlers, its connections to targets, the
    table of descriptors. Only public addresses are connected to, and only those a policy with
    rules allows (an empty policy is not consulted); data reaches the target in order, every
    cell is counted, states stay well formed (deliver windows may sink by one per cell); short
    writes, failed writes and lost links go wrong as stated.
  \<^item> \<open>RateLimit\<close> (\<open>ratelimit.c\<close>): token buckets per address and bytes per period. A check reads the
    clock twice, once for a new bucket and once to refill; any two readings are covered.

  This theory adds what spans several components: the exit's acknowledgement, sent backward
  through all relays, is accepted by the client.

  \<^bold>\<open>Bounds and fuel.\<close> Re-insertion in the circuit table has the cube of the table size as
  fuel; the table theorem shows that it is enough for every sequence of operations. The chain
  loops of the resolver cache have fuel 513, one more than there are entries, which is enough
  for every cache reached with non-empty names; the theorem on a name of dots shows a chain
  for which no fuel is enough. The search for a stream id has the 65535 attempts of the source.
  Everything else is total without fuel.

  \<^bold>\<open>Not modelled.\<close> The vendored primitives (\<open>pqclean\<close>, \<open>cJSON.c\<close>) and the wrappers over them;
  handshakes and key derivation, which consist of calls to libsodium; connections, channels,
  the scheduler, the event loop and pluggable transports, which are input and output under
  timing; path building at clients and the key exchanges of CREATE and EXTEND, whose outcomes
  are values of the environment in \<open>RelayLinks\<close>, and the post-quantum and typed variants of
  these cells, which link circuits with the same statements; introduction points;
  directory, hash table of descriptors and hidden services, which are dominated by signatures
  and text formats; node selection and traffic shaping, which compute with floating-point
  numbers; the SOCKS front end apart from conflux; configuration apart from the exit policy;
  monitoring, logging and process set-up. The worker that defers the freeing of circuits while
  it reads them is a flag of the environment in \<open>CircuitPool\<close>; other threads are not modelled.
\<close>

section \<open>From the exit back to the client\<close>

text \<open>The last relay's layer comes first, the others are added on the way.\<close>

lemma backward_layers_snoc:
  assumes "moor_circuit_relay_encrypt chacha rc q = (ok, rc', q', cl)"
  shows "backward_layers chacha (rcs @ [rc]) q =
    (fst (backward_layers chacha rcs q'), fst (snd (backward_layers chacha rcs q')) @ [rc'], snd (snd (backward_layers chacha rcs q')) @ [cl])"
  using assms by (induction rcs) (simp_all add: Let_def case_prod_beta)

text \<open>Stamping a payload leaves everything a relay cell says but its digest.\<close>

lemma unpack_set_digest:
  assumes "length p = 509"
  shows "r_command (moor_relay_unpack old (fst (moor_relay_set_digest blake2b p d))) = r_command (moor_relay_unpack old p)"
    and "r_stream_id (moor_relay_unpack old (fst (moor_relay_set_digest blake2b p d))) = r_stream_id (moor_relay_unpack old p)"
    and "r_data_length (moor_relay_unpack old (fst (moor_relay_set_digest blake2b p d))) = r_data_length (moor_relay_unpack old p)"
    and "r_data (moor_relay_unpack old (fst (moor_relay_set_digest blake2b p d))) = r_data (moor_relay_unpack old p)"
proof -
  note n = set_digest_nth [OF assms, of _ blake2b d]
  have "mem_read (fst (moor_relay_set_digest blake2b p d)) 11 k = mem_read p 11 k" if "k \<le> 498" for k
    by (rule set_digest_frame) (use assms that in simp_all)
  moreover have "unat (if MOOR_RELAY_DATA < unat (x :: u16) then of_nat MOOR_RELAY_DATA else x) \<le> 498" for x
    by (simp add: MOOR_RELAY_DATA_def)
  ultimately show "r_data (moor_relay_unpack old (fst (moor_relay_set_digest blake2b p d))) = r_data (moor_relay_unpack old p)"
    by (simp add: moor_relay_unpack_def Let_def n MOOR_RELAY_HEADER_def)
qed (simp_all add: moor_relay_unpack_def Let_def set_digest_nth [OF assms])

text \<open>What the client reads of a cell the exit has sent backward.\<close>

lemma exit_cell_reaches_client:
  assumes "circuit_sync n hs (rcs @ [xs_relay st])" and "xe_queue env = (\<lambda>_. True)" and "\<forall>k b. xe_chacha env k b \<noteq> None"
    and "\<forall>rc \<in> set (rcs @ [xs_relay st]). rc_backward_nonce rc \<noteq> UINT64_MAX" and "length d = unat len" and "unat len \<le> MOOR_RELAY_DATA"
  shows "\<exists>cell hs' q. xs_effects (snd (backward_relay env cmd sid (Some d) len st)) = xs_effects st @ [Cell_Queued cell] \<and>
    moor_circuit_decrypt_backward (xe_chacha env) (xe_blake2b env) n hs (fst (backward_layers (xe_chacha env) rcs (c_payload cell))) = (True, hs', q) \<and>
    r_command (moor_relay_unpack blank_relay q) = relay_cmd_code cmd \<and> r_stream_id (moor_relay_unpack blank_relay q) = sid \<and>
    r_data_length (moor_relay_unpack blank_relay q) = len \<and> take (unat len) (r_data (moor_relay_unpack blank_relay q)) = d"
proof -
  let ?cell = "moor_cell_relay (xs_prev_circuit_id st) (relay_cmd_code cmd) sid (Some d) len"
  obtain r where r: "wf_relay r" "c_payload ?cell = moor_relay_pack r" "r_command r = relay_cmd_code cmd" "r_stream_id r = sid"
    "r_data_length r = len" "take (unat len) (r_data r) = d" by (rule moor_cell_relay_payload [OF assms(5,6)])
  have len: "length (c_payload ?cell) = 509" using r(1,2) by simp
  have "wf_relay blank_relay" by (simp add: blank_relay_def wf_relay_def cell_sizes)
  then have u: "moor_relay_unpack blank_relay (c_payload ?cell) = r\<lparr>r_data := d @ drop (unat len) (r_data blank_relay)\<rparr>"
    using moor_relay_unpack_pack [OF r(1)] r assms(6) by simp
  obtain q dg where sd: "moor_relay_set_digest (xe_blake2b env) (c_payload ?cell) (rc_backward_digest (xs_relay st)) = (q, dg)" by fastforce
  let ?rc = "(xs_relay st)\<lparr>rc_backward_digest := dg\<rparr>"
  obtain ok rc' q' cl where enc: "moor_circuit_relay_encrypt (xe_chacha env) ?rc q = (ok, rc', q', cl)" by (metis prod_cases4)
  obtain p1 rcs1 where tot: "backward_send (xe_chacha env) (xe_blake2b env) (rcs @ [xs_relay st]) (c_payload ?cell) = Some (p1, rcs1)"
    using backward_send_total [OF assms(3) _ assms(4), of "xe_blake2b env" "c_payload ?cell"] by auto
  note bl = backward_layers_snoc [OF enc, of rcs]
  have ex: "exit_send_backward (xe_chacha env) (xe_blake2b env) (rcs @ [xs_relay st]) (c_payload ?cell) =
      backward_layers (xe_chacha env) (rcs @ [?rc]) q" using sd by (simp add: exit_send_backward_def)
  have cl: "\<forall>c \<in> set (snd (snd (backward_layers (xe_chacha env) rcs q')) @ [cl]). c = None"
    using tot unfolding backward_send_def ex bl by (auto simp: list_all_iff split: if_splits)
  obtain hs' where dec: "moor_circuit_decrypt_backward (xe_chacha env) (xe_blake2b env) n hs (fst (backward_layers (xe_chacha env) rcs q')) = (True, hs', q)"
    using backward_delivery [OF assms(1) len ex [unfolded bl] cl] sd by auto
  have "xs_effects (snd (backward_relay env cmd sid (Some d) len st)) = xs_effects st @ [Cell_Queued (?cell\<lparr>c_payload := q'\<rparr>)]"
    using sd enc cl assms(2) by (simp add: backward_relay_def backward_cell_def)
  moreover have "q = fst (moor_relay_set_digest (xe_blake2b env) (c_payload ?cell) (rc_backward_digest (xs_relay st)))" using sd by simp
  ultimately show ?thesis using dec unpack_set_digest [OF len, of blank_relay "xe_blake2b env" "rc_backward_digest (xs_relay st)"] u r(3-5) assms(5)
    by (intro exI [of _ "?cell\<lparr>c_payload := q'\<rparr>"] exI [of _ hs'] exI [of _ q]) simp
qed

lemma record_auth_pending:
  assumes "0 < fc_num_hops c" and "fc_sendme_auth_count c = 0" and "fc_sendme_auth_head c < MOOR_SENDME_AUTH_MAX"
    and "length (fc_sendme_auth_expected c) = MOOR_SENDME_AUTH_MAX"
  shows "fc_sendme_auth_count (record_auth c) = 1"
    and "fc_sendme_auth_expected (record_auth c) ! ring_tail MOOR_SENDME_AUTH_MAX (fc_sendme_auth_head (record_auth c)) 1 =
      take MOOR_SENDME_AUTH_LEN (h_forward_digest (fc_hops c ! (fc_num_hops c - 1)))"
proof -
  have "((fc_sendme_auth_head c + 1) mod MOOR_SENDME_AUTH_MAX + MOOR_SENDME_AUTH_MAX - 1) mod MOOR_SENDME_AUTH_MAX = fc_sendme_auth_head c"
    using assms(3) by (cases "fc_sendme_auth_head c + 1 = MOOR_SENDME_AUTH_MAX") (simp_all add: MOOR_SENDME_AUTH_MAX_def)
  then show "fc_sendme_auth_count (record_auth c) = 1"
    and "fc_sendme_auth_expected (record_auth c) ! ring_tail MOOR_SENDME_AUTH_MAX (fc_sendme_auth_head (record_auth c)) 1 =
      take MOOR_SENDME_AUTH_LEN (h_forward_digest (fc_hops c ! (fc_num_hops c - 1)))"
    using assms by (simp_all add: record_auth_def ring_tail_def MOOR_SENDME_AUTH_MAX_def)
qed

text \<open>
  C5. An exit's acknowledgement is accepted. When client and relays are in step and the client
  has noted the digest of the cell just sent, the circuit-level SENDME the exit sends, with the
  layers of all relays on the way, is unwrapped by the client to a SENDME for the circuit whose
  body \<open>moor_circuit_handle_sendme\<close> accepts.
\<close>

theorem exit_sendme_accepted:
  assumes "circuit_sync (fc_num_hops c) (fc_hops c) (rcs @ [xs_relay st])"
    and "fc_sendme_auth_count c = 0" and "fc_sendme_auth_head c < MOOR_SENDME_AUTH_MAX" and "length (fc_sendme_auth_expected c) = MOOR_SENDME_AUTH_MAX"
    and "xe_queue env = (\<lambda>_. True)" and "\<forall>k b. xe_chacha env k b \<noteq> None"
    and "\<forall>rc \<in> set (rcs @ [xs_relay st]). rc_backward_nonce rc \<noteq> UINT64_MAX"
  shows "\<exists>cell hs' q. xs_effects (circ_sendme env st) = xs_effects st @ [Cell_Queued cell] \<and>
    moor_circuit_decrypt_backward (xe_chacha env) (xe_blake2b env) (fc_num_hops c) (fc_hops c)
      (fst (backward_layers (xe_chacha env) rcs (c_payload cell))) = (True, hs', q) \<and>
    r_command (moor_relay_unpack blank_relay q) = relay_cmd_code RELAY_SENDME \<and> r_stream_id (moor_relay_unpack blank_relay q) = 0 \<and>
    fst (moor_circuit_handle_sendme fenv 0
      (take (unat (r_data_length (moor_relay_unpack blank_relay q))) (r_data (moor_relay_unpack blank_relay q))) ((record_auth c)\<lparr>fc_hops := hs'\<rparr>))"
proof -
  let ?n = "fc_num_hops c" and ?d = "take MOOR_SENDME_AUTH_LEN (rc_forward_digest (xs_relay st))"
  have n: "0 < ?n" "?n \<le> length (fc_hops c)" "list_all2 hop_sync (take ?n (fc_hops c)) (rcs @ [xs_relay st])"
    using assms(1) by (simp_all add: circuit_sync_def)
  then have lr: "length rcs = ?n - 1" using list_all2_lengthD [OF n(3)] by simp
  have "hop_sync (take ?n (fc_hops c) ! (?n - 1)) ((rcs @ [xs_relay st]) ! (?n - 1))"
    using list_all2_nthD [OF n(3), of "?n - 1"] n(1,2) by simp
  then have hs: "hop_sync (fc_hops c ! (?n - 1)) (xs_relay st)" using n(1) lr by (simp add: nth_append)
  then have "h_forward_digest (fc_hops c ! (?n - 1)) = rc_forward_digest (xs_relay st)" "length (rc_forward_digest (xs_relay st)) = 32"
    unfolding hop_sync_def by auto
  then have d: "h_forward_digest (fc_hops c ! (?n - 1)) = rc_forward_digest (xs_relay st)" "length ?d = 20"
    by (simp_all add: MOOR_SENDME_AUTH_LEN_def)
  have ld: "length ?d = unat (of_nat MOOR_SENDME_AUTH_LEN :: u16)" "unat (of_nat MOOR_SENDME_AUTH_LEN :: u16) \<le> MOOR_RELAY_DATA"
    "unat (of_nat MOOR_SENDME_AUTH_LEN :: u16) = 20" using d(2) by (simp_all add: MOOR_SENDME_AUTH_LEN_def MOOR_RELAY_DATA_def)
  have e: "xs_effects (circ_sendme env st) = xs_effects (snd (backward_relay env RELAY_SENDME 0 (Some ?d) (of_nat MOOR_SENDME_AUTH_LEN) st))"
    by (simp add: circ_sendme_def case_prod_beta Let_def set_deliver_def)
  obtain cell hs' q where c: "xs_effects (circ_sendme env st) = xs_effects st @ [Cell_Queued cell]"
    "moor_circuit_decrypt_backward (xe_chacha env) (xe_blake2b env) ?n (fc_hops c) (fst (backward_layers (xe_chacha env) rcs (c_payload cell))) = (True, hs', q)"
    "r_command (moor_relay_unpack blank_relay q) = relay_cmd_code RELAY_SENDME" "r_stream_id (moor_relay_unpack blank_relay q) = 0"
    and dl: "r_data_length (moor_relay_unpack blank_relay q) = of_nat MOOR_SENDME_AUTH_LEN"
    "take (unat (of_nat MOOR_SENDME_AUTH_LEN :: u16)) (r_data (moor_relay_unpack blank_relay q)) = ?d"
    using exit_cell_reaches_client [OF assms(1,5-7) ld(1,2), of RELAY_SENDME 0] unfolding e by blast
  have "fst (moor_circuit_handle_sendme fenv 0 ?d ((record_auth c)\<lparr>fc_hops := hs'\<rparr>))"
    using record_auth_pending [OF n(1) assms(2-4)] d by (simp add: moor_circuit_handle_sendme_def Let_def MOOR_SENDME_AUTH_LEN_def)
  then have "fst (moor_circuit_handle_sendme fenv 0
      (take (unat (r_data_length (moor_relay_unpack blank_relay q))) (r_data (moor_relay_unpack blank_relay q))) ((record_auth c)\<lparr>fc_hops := hs'\<rparr>))"
    unfolding dl .
  then show ?thesis using c by (intro exI [of _ cell] exI [of _ hs'] exI [of _ q]) simp
qed

theorem exit_sendme_accepted_witness:
  "\<exists>cell hs' q. xs_effects (circ_sendme demo_exit_env demo_exit) = xs_effects demo_exit @ [Cell_Queued cell] \<and>
    moor_circuit_decrypt_backward (xe_chacha demo_exit_env) (xe_blake2b demo_exit_env) 1 (fc_hops demo_flow)
      (fst (backward_layers (xe_chacha demo_exit_env) [] (c_payload cell))) = (True, hs', q) \<and>
    r_command (moor_relay_unpack blank_relay q) = relay_cmd_code RELAY_SENDME"
proof -
  have "fc_num_hops demo_flow = 1" by (simp add: demo_flow_def)
  moreover have "circuit_sync 1 (fc_hops demo_flow) ([] @ [xs_relay demo_exit])"
    by (simp add: circuit_sync_def hop_sync_def demo_flow_def demo_exit_def)
  moreover have "fc_sendme_auth_count demo_flow = 0" "fc_sendme_auth_head demo_flow < MOOR_SENDME_AUTH_MAX"
    "length (fc_sendme_auth_expected demo_flow) = MOOR_SENDME_AUTH_MAX" by (simp_all add: demo_flow_def MOOR_SENDME_AUTH_MAX_def)
  moreover have "xe_queue demo_exit_env = (\<lambda>_. True)" "\<forall>k b. xe_chacha demo_exit_env k b \<noteq> None"
    "\<forall>rc \<in> set ([] @ [xs_relay demo_exit]). rc_backward_nonce rc \<noteq> UINT64_MAX" by (simp_all add: demo_exit_env_def demo_exit_def)
  ultimately show ?thesis using exit_sendme_accepted [of demo_flow "[]" demo_exit demo_exit_env demo_flow_env] by metis
qed

end
